(* ===== verification/Crosslink_Prelude.thy ===== *)
theory Crosslink_Prelude
  imports Main "HOL-Library.Word" "HOL-Library.Monad_Syntax"
begin

text \<open>
  What every component shares: the machine integers and byte strings of the Rust sources,
  the two ways a Rust call can fail to deliver a value, little-endian integers, and readers
  that consume a prefix of their input.

  \<^item> A call that may panic has type \<open>'a option\<close>; \<open>None\<close> is the panic. (Both Cargo profiles
    set \<^verbatim>\<open>panic = "abort"\<close>, so nothing observes the state after it.)
  \<^item> A call that returns \<^verbatim>\<open>Result<T, E>\<close> has type \<open>'e + 'a\<close>; \<open>Inl\<close> is \<^verbatim>\<open>Err\<close>.
  \<^item> A call that does both has type \<open>('e + 'a) option\<close>.
\<close>

section \<open>Collections of facts\<close>

named_theorems wire_simps \<open>evaluation of readers and writers\<close>
named_theorems len_simps \<open>lengths of encodings\<close>

section \<open>Machine integers and byte strings\<close>

type_synonym byte = "8 word"
type_synonym u16 = "16 word"
type_synonym u32 = "32 word"
type_synonym u64 = "64 word"
type_synonym u128 = "128 word"
type_synonym bytes = "byte list"

definition i64_min :: int where "i64_min = - (2 ^ 63)"

definition i64_max :: int where "i64_max = 2 ^ 63 - 1"

definition in_i64 :: "int \<Rightarrow> bool" where
  "in_i64 v \<longleftrightarrow> i64_min \<le> v \<and> v \<le> i64_max"

definition in_i128 :: "int \<Rightarrow> bool" where
  "in_i128 v \<longleftrightarrow> - (2 ^ 127) \<le> v \<and> v \<le> 2 ^ 127 - 1"

definition checked_i64 :: "int \<Rightarrow> int option" where
  "checked_i64 v = (if in_i64 v then Some v else None)"

lemma checked_i64_in [simp]: "in_i64 v \<Longrightarrow> checked_i64 v = Some v"
  by (simp add: checked_i64_def)

lemma checked_i64_Some_iff [simp]: "checked_i64 v = Some w \<longleftrightarrow> in_i64 v \<and> w = v"
  by (auto simp: checked_i64_def)

section \<open>Results\<close>

text \<open>\<open>try_bind r f\<close> is the \<^verbatim>\<open>?\<close> operator: stop at the first error. \<open>map_err\<close> is
  \<^verbatim>\<open>Result::map_err\<close>.\<close>

definition try_bind :: "'e + 'a \<Rightarrow> ('a \<Rightarrow> 'e + 'b) \<Rightarrow> 'e + 'b" where
  "try_bind r f = (case r of Inl e \<Rightarrow> Inl e | Inr a \<Rightarrow> f a)"

definition map_err :: "('e \<Rightarrow> 'f) \<Rightarrow> 'e + 'a \<Rightarrow> 'f + 'a" where
  "map_err g r = (case r of Inl e \<Rightarrow> Inl (g e) | Inr a \<Rightarrow> Inr a)"

lemma try_bind_simps [simp]:
  "try_bind (Inl e) f = Inl e"
  "try_bind (Inr a) f = f a"
  by (simp_all add: try_bind_def)

lemma map_err_simps [simp]:
  "map_err g (Inl e) = Inl (g e)"
  "map_err g (Inr a) = Inr a"
  by (simp_all add: map_err_def)

lemma try_bind_Inr_iff: "try_bind r f = Inr b \<longleftrightarrow> (\<exists>a. r = Inr a \<and> f a = Inr b)"
  by (cases r) auto

lemma map_err_Inr_iff [simp]: "map_err g r = Inr a \<longleftrightarrow> r = Inr a"
  by (cases r) auto

lemma guard_Inr_iff: "(if c then Inl e else m) = Inr b \<longleftrightarrow> \<not> c \<and> m = Inr b"
  by simp

lemma try_bind_InrE:
  assumes "try_bind r f = Inr b"
  obtains a where "r = Inr a" and "f a = Inr b"
  using assms by (auto simp: try_bind_Inr_iff)

lemma try_bind_cong [fundef_cong]:
  "r = r' \<Longrightarrow> (\<And>a. r' = Inr a \<Longrightarrow> f a = f' a) \<Longrightarrow> try_bind r f = try_bind r' f'"
  by (cases r') auto

lemma bind_SomeE:
  assumes "Option.bind m f = Some b"
  obtains a where "m = Some a" and "f a = Some b"
  using assms by (cases m) auto

text \<open>\<open>run_try\<close> is \<^verbatim>\<open>r.map_err(tag)?\<close> on a call that may also panic.\<close>

definition run_try ::
  "('e + 'a) option \<Rightarrow> ('e \<Rightarrow> 'f) \<Rightarrow> ('a \<Rightarrow> ('f + 'b) option) \<Rightarrow> ('f + 'b) option" where
  "run_try m tag k = (case m of
      None \<Rightarrow> None
    | Some (Inl e) \<Rightarrow> Some (Inl (tag e))
    | Some (Inr a) \<Rightarrow> k a)"

lemma run_try_simps [simp]:
  "run_try None tag k = None"
  "run_try (Some (Inl e)) tag k = Some (Inl (tag e))"
  "run_try (Some (Inr a)) tag k = k a"
  by (simp_all add: run_try_def)

section \<open>Little-endian integers\<close>

fun le_bytes :: "nat \<Rightarrow> nat \<Rightarrow> bytes" where
  "le_bytes 0 v = []"
| "le_bytes (Suc n) v = of_nat (v mod 256) # le_bytes n (v div 256)"

fun le_value :: "bytes \<Rightarrow> nat" where
  "le_value [] = 0"
| "le_value (b # bs) = unat b + 256 * le_value bs"

lemma length_le_bytes [simp, len_simps]: "length (le_bytes n v) = n"
  by (induction n arbitrary: v) auto

lemma unat_byte_less: "unat (b :: byte) < 256"
  by (rule order_less_le_trans[OF unsigned_less]) simp

lemma unat_uN_less:
  "unat (w :: u16) < 65536" "unat (x :: u32) < 4294967296" "unat (y :: u64) < 18446744073709551616"
  by (rule order_less_le_trans[OF unsigned_less], simp)+

lemma unat_byte_mod [simp]: "unat (of_nat (v mod 256) :: byte) = v mod 256"
  by (simp add: unat_of_nat)

lemma le_value_le_bytes [simp]: "le_value (le_bytes n v) = v mod 256 ^ n"
proof (induction n arbitrary: v)
  case (Suc n)
  have "v mod (256 * 256 ^ n) = 256 * (v div 256 mod 256 ^ n) + v mod 256"
    by (simp add: mod_mult2_eq)
  then show ?case by (simp add: Suc.IH del: of_nat_mod)
qed auto

lemma le_bytes_le_value [simp]: "le_bytes (length bs) (le_value bs) = bs"
proof (induction bs)
  case (Cons b bs)
  have "unat b < 256" by (rule unat_byte_less)
  then have "(unat b + 256 * le_value bs) mod 256 = unat b"
    and "(unat b + 256 * le_value bs) div 256 = le_value bs"
    by simp_all
  with Cons show ?case by (simp del: of_nat_mod)
qed auto

lemma le_value_less: "le_value bs < 256 ^ length bs"
proof (induction bs)
  case (Cons b bs)
  have "unat b < 256" by (rule unat_byte_less)
  with Cons show ?case by simp
qed auto

lemma le_bytes_eq_iff:
  "v < 256 ^ n \<Longrightarrow> w < 256 ^ n \<Longrightarrow> le_bytes n v = le_bytes n w \<longleftrightarrow> v = w"
  by (metis le_value_le_bytes mod_less)

definition u16_le :: "u16 \<Rightarrow> bytes" where "u16_le w = le_bytes 2 (unat w)"

definition u32_le :: "u32 \<Rightarrow> bytes" where "u32_le w = le_bytes 4 (unat w)"

definition u64_le :: "u64 \<Rightarrow> bytes" where "u64_le w = le_bytes 8 (unat w)"

definition u16_of_le :: "bytes \<Rightarrow> u16" where "u16_of_le bs = of_nat (le_value bs)"

definition u32_of_le :: "bytes \<Rightarrow> u32" where "u32_of_le bs = of_nat (le_value bs)"

definition u64_of_le :: "bytes \<Rightarrow> u64" where "u64_of_le bs = of_nat (le_value bs)"

lemma length_uN_le [simp, len_simps]:
  "length (u16_le w) = 2" "length (u32_le x) = 4" "length (u64_le y) = 8"
  by (simp_all add: u16_le_def u32_le_def u64_le_def)

lemma uN_of_le_le [simp]:
  "u16_of_le (u16_le w) = w" "u32_of_le (u32_le x) = x" "u64_of_le (u64_le y) = y"
  using unat_uN_less(1)[of w] unat_uN_less(2)[of x] unat_uN_less(3)[of y]
  by (simp_all add: u16_le_def u32_le_def u64_le_def u16_of_le_def u32_of_le_def u64_of_le_def)

lemma uN_le_of_le:
  "length bs = 2 \<Longrightarrow> u16_le (u16_of_le bs) = bs"
  "length bs = 4 \<Longrightarrow> u32_le (u32_of_le bs) = bs"
  "length bs = 8 \<Longrightarrow> u64_le (u64_of_le bs) = bs"
  using le_value_less[of bs] le_bytes_le_value[of bs]
  by (auto simp: u16_le_def u32_le_def u64_le_def u16_of_le_def u32_of_le_def u64_of_le_def
      unat_of_nat simp del: le_bytes_le_value)

section \<open>Slices\<close>

text \<open>\<open>slice i j xs\<close> is \<^verbatim>\<open>xs[i..j]\<close> where that is in range; \<open>index_range\<close> adds the panic of a range
  whose end is before its start or past the end of the slice.\<close>

definition slice :: "nat \<Rightarrow> nat \<Rightarrow> 'a list \<Rightarrow> 'a list" where
  "slice i j xs = take (j - i) (drop i xs)"

definition index_range :: "nat \<Rightarrow> nat \<Rightarrow> 'a list \<Rightarrow> 'a list option" where
  "index_range i j xs = (if i \<le> j \<and> j \<le> length xs then Some (slice i j xs) else None)"

lemma length_slice [simp, len_simps]: "length (slice i j xs) = min (j - i) (length xs - i)"
  by (auto simp: slice_def)

lemma slice_app_first [simp]: "j \<le> length a \<Longrightarrow> slice i j (a @ b) = slice i j a"
  by (simp add: slice_def)

lemma slice_app_second [simp]:
  "length a \<le> i \<Longrightarrow> slice i j (a @ b) = slice (i - length a) (j - length a) b"
  by (auto simp: slice_def)

lemma slice_all [simp]: "length xs \<le> j \<Longrightarrow> slice 0 j xs = xs"
  by (simp add: slice_def)

lemma slice_append: "i \<le> j \<Longrightarrow> j \<le> k \<Longrightarrow> slice i j xs @ slice j k xs = slice i k xs"
proof -
  assume "i \<le> j" "j \<le> k"
  then have "k - i = (j - i) + (k - j)" "j = (j - i) + i" by simp_all
  then show ?thesis unfolding slice_def by (metis drop_drop take_add)
qed

end
