(* ===== verification/Amount.thy ===== *)
theory Amount
  imports Crosslink_Prelude
begin

text \<open>
  Zatoshi amounts (\<^verbatim>\<open>zebra-chain/src/amount.rs\<close>). \<^verbatim>\<open>Amount<C>\<close> is an \<open>i64\<close> with a phantom
  constraint \<open>C\<close>: the value is an \<open>int\<close>, the constraint the first argument of the operations
  that mention it, and \<open>valid C\<close> the invariant the Rust type maintains. \<^verbatim>\<open>expect\<close> on a checked
  operation is \<open>None\<close>.
\<close>

section \<open>Constraints and errors\<close>

datatype Constraint = NegativeAllowed | NonNegative | NegativeOrZero

type_synonym amount = int

definition COIN :: int where "COIN = 100000000"

definition MAX_MONEY :: int where "MAX_MONEY = 21000000 * COIN"

fun valid_range :: "Constraint \<Rightarrow> int \<times> int" where
  "valid_range NegativeAllowed = (- MAX_MONEY, MAX_MONEY)"
| "valid_range NonNegative = (0, MAX_MONEY)"
| "valid_range NegativeOrZero = (- MAX_MONEY, 0)"

datatype amount_error =
    Constraint_Error (err_value: int) (err_range: "int \<times> int")
  | Convert int
  | MultiplicationOverflow int u64 int
  | DivideByZero int
  | SumOverflow int nat

definition valid :: "Constraint \<Rightarrow> int \<Rightarrow> bool" where
  "valid C v \<longleftrightarrow> fst (valid_range C) \<le> v \<and> v \<le> snd (valid_range C)"

definition validate :: "Constraint \<Rightarrow> int \<Rightarrow> amount_error + int" where
  "validate C v = (if \<not> valid C v then Inl (Constraint_Error v (valid_range C)) else Inr v)"

fun invalid_value :: "amount_error \<Rightarrow> int" where
  "invalid_value (Constraint_Error v _) = v"
| "invalid_value (Convert v) = v"
| "invalid_value (MultiplicationOverflow _ _ v) = v"
| "invalid_value (DivideByZero a) = a"
| "invalid_value (SumOverflow p _) = p"

section \<open>Conversions\<close>

definition try_from_i32 :: "Constraint \<Rightarrow> int \<Rightarrow> amount_error + amount" where
  "try_from_i32 C v = validate C v"

definition try_from_i64 :: "Constraint \<Rightarrow> int \<Rightarrow> amount_error + amount" where
  "try_from_i64 C v = validate C v"

definition try_from_u64 :: "Constraint \<Rightarrow> u64 \<Rightarrow> amount_error + amount" where
  "try_from_u64 C v =
     try_bind (if in_i64 (uint v) then Inr (uint v) else Inl (Convert (uint v))) (validate C)"

definition try_from_i128 :: "Constraint \<Rightarrow> int \<Rightarrow> amount_error + amount" where
  "try_from_i128 C v = try_bind (if in_i64 v then Inr v else Inl (Convert v)) (validate C)"

definition constrain :: "Constraint \<Rightarrow> amount \<Rightarrow> amount_error + amount" where
  "constrain C2 a = try_from_i64 C2 a"

definition amount_zero :: "Constraint \<Rightarrow> amount option" where
  "amount_zero C = (case try_from_i32 C 0 of Inl _ \<Rightarrow> None | Inr v \<Rightarrow> Some v)"

definition u64_from_amount :: "amount \<Rightarrow> u64 option" where
  "u64_from_amount a = (if 0 \<le> a \<and> a < 2 ^ 64 then Some (of_int a) else None)"

definition amount_new :: "int \<Rightarrow> amount option" where
  "amount_new zats = (if zats \<le> MAX_MONEY \<and> 0 \<le> zats then Some zats else None)"

definition amount_new_from_zec :: "int \<Rightarrow> amount option" where
  "amount_new_from_zec zec = Option.bind (checked_i64 (zec * COIN)) amount_new"

text \<open>Rust integer division truncates towards zero, and \<^verbatim>\<open>%\<close> takes the dividend's sign.\<close>

definition quot :: "int \<Rightarrow> int \<Rightarrow> int" where
  "quot a b = sgn a * sgn b * (\<bar>a\<bar> div \<bar>b\<bar>)"

definition rem :: "int \<Rightarrow> int \<Rightarrow> int" where
  "rem a b = a - b * quot a b"

definition div_exact :: "amount \<Rightarrow> int \<Rightarrow> amount option" where
  "div_exact a rhs =
     (if rhs = 0 then None
      else Option.bind (checked_i64 (quot a rhs)) (\<lambda>result.
        if rem a rhs \<noteq> 0 then None else Some result))"

section \<open>Arithmetic\<close>

definition amount_add :: "Constraint \<Rightarrow> amount \<Rightarrow> amount \<Rightarrow> (amount_error + amount) option" where
  "amount_add C a b = do { v \<leftarrow> checked_i64 (a + b); Some (try_from_i64 C v) }"

definition amount_sub :: "Constraint \<Rightarrow> amount \<Rightarrow> amount \<Rightarrow> (amount_error + amount) option" where
  "amount_sub C a b = do { v \<leftarrow> checked_i64 (a - b); Some (try_from_i64 C v) }"

text \<open>The operators on \<^verbatim>\<open>Result<Amount<C>>\<close> stop at an error on either side;
  \<^verbatim>\<open>+=\<close> and \<^verbatim>\<open>-=\<close> leave an error in place.\<close>

definition result_add ::
  "Constraint \<Rightarrow> amount_error + amount \<Rightarrow> amount \<Rightarrow> (amount_error + amount) option" where
  "result_add C r b = (case r of Inl e \<Rightarrow> Some (Inl e) | Inr a \<Rightarrow> amount_add C a b)"

definition add_result ::
  "Constraint \<Rightarrow> amount \<Rightarrow> amount_error + amount \<Rightarrow> (amount_error + amount) option" where
  "add_result C a r = (case r of Inl e \<Rightarrow> Some (Inl e) | Inr b \<Rightarrow> amount_add C a b)"

definition result_sub ::
  "Constraint \<Rightarrow> amount_error + amount \<Rightarrow> amount \<Rightarrow> (amount_error + amount) option" where
  "result_sub C r b = (case r of Inl e \<Rightarrow> Some (Inl e) | Inr a \<Rightarrow> amount_sub C a b)"

definition sub_result ::
  "Constraint \<Rightarrow> amount \<Rightarrow> amount_error + amount \<Rightarrow> (amount_error + amount) option" where
  "sub_result C a r = (case r of Inl e \<Rightarrow> Some (Inl e) | Inr b \<Rightarrow> amount_sub C a b)"

definition amount_checked_sub :: "amount \<Rightarrow> amount \<Rightarrow> amount option" where
  "amount_checked_sub a b =
     Option.bind (checked_i64 (a - b)) (\<lambda>v. case try_from_i64 NegativeAllowed v of
        Inl _ \<Rightarrow> None | Inr x \<Rightarrow> Some x)"

definition amount_mul :: "Constraint \<Rightarrow> amount \<Rightarrow> u64 \<Rightarrow> (amount_error + amount) option" where
  "amount_mul C a rhs =
     (let value = a * uint rhs in
      if \<not> in_i128 value then None
      else Some (map_err (\<lambda>_. MultiplicationOverflow a rhs value) (try_from_i128 C value)))"

definition amount_div :: "Constraint \<Rightarrow> amount \<Rightarrow> u64 \<Rightarrow> (amount_error + amount) option" where
  "amount_div C a rhs =
     (if rhs = 0 then Some (Inl (DivideByZero a))
      else case try_from_i128 C (quot a (uint rhs)) of
             Inl _ \<Rightarrow> None
           | Inr q \<Rightarrow> Some (Inr q))"

definition amount_neg :: "amount \<Rightarrow> amount option" where
  "amount_neg a =
     Option.bind (checked_i64 (- a)) (\<lambda>v. case try_from_i64 NegativeAllowed v of
        Inl _ \<Rightarrow> None | Inr x \<Rightarrow> Some x)"

text \<open>\<^verbatim>\<open>Sum\<close>: \<^verbatim>\<open>try_fold\<close> from zero; the items after the failing one are counted.\<close>

fun amount_sum_from :: "Constraint \<Rightarrow> amount \<Rightarrow> amount list \<Rightarrow> (amount_error + amount) option" where
  "amount_sum_from C acc [] = Some (Inr acc)"
| "amount_sum_from C acc (x # xs) =
     (case amount_add C acc x of
        None \<Rightarrow> None
      | Some (Inr s) \<Rightarrow> amount_sum_from C s xs
      | Some (Inl e) \<Rightarrow> (case e of
            Constraint_Error v _ \<Rightarrow> Some (Inl (SumOverflow v (length xs)))
          | _ \<Rightarrow> None))"

definition amount_sum :: "Constraint \<Rightarrow> amount list \<Rightarrow> (amount_error + amount) option" where
  "amount_sum C xs = Option.bind (amount_zero C) (\<lambda>z. amount_sum_from C z xs)"

section \<open>Byte encoding\<close>

definition i64_le :: "int \<Rightarrow> bytes" where
  "i64_le v = le_bytes 8 (nat (v mod 2 ^ 64))"

definition i64_of_le :: "bytes \<Rightarrow> int" where
  "i64_of_le bs = (let n = int (le_value bs) in if n < 2 ^ 63 then n else n - 2 ^ 64)"

definition amount_to_bytes :: "amount \<Rightarrow> bytes" where
  "amount_to_bytes a = i64_le a"

definition amount_from_bytes :: "Constraint \<Rightarrow> bytes \<Rightarrow> amount_error + amount" where
  "amount_from_bytes C bs = try_from_i64 C (i64_of_le bs)"

section \<open>The constraint invariant\<close>

lemmas money_defs = MAX_MONEY_def COIN_def
lemmas i64_defs = in_i64_def i64_min_def i64_max_def

lemma valid_iff:
  "valid NegativeAllowed v \<longleftrightarrow> - MAX_MONEY \<le> v \<and> v \<le> MAX_MONEY"
  "valid NonNegative v \<longleftrightarrow> 0 \<le> v \<and> v \<le> MAX_MONEY"
  "valid NegativeOrZero v \<longleftrightarrow> - MAX_MONEY \<le> v \<and> v \<le> 0"
  by (simp_all add: valid_def)

lemma valid_bounds: "valid C v \<Longrightarrow> - MAX_MONEY \<le> v \<and> v \<le> MAX_MONEY"
  by (cases C) (auto simp: valid_iff money_defs)

lemma valid_zero [simp]: "valid C 0"
  by (cases C) (simp_all add: valid_iff money_defs)

lemma valid_in_i64: "valid C v \<Longrightarrow> in_i64 v"
  using valid_bounds[of C v] by (simp add: i64_defs money_defs)

lemma validate_simps [simp]:
  "valid C v \<Longrightarrow> validate C v = Inr v"
  "\<not> valid C v \<Longrightarrow> validate C v = Inl (Constraint_Error v (valid_range C))"
  by (simp_all add: validate_def)

lemma validate_Inr_iff [simp]: "validate C v = Inr w \<longleftrightarrow> valid C v \<and> w = v"
  by (auto simp: validate_def)

lemma amount_zero_eq [simp]: "amount_zero C = Some 0"
  by (simp add: amount_zero_def try_from_i32_def)

lemma amount_sums_in_i64:
  assumes "valid C a" and "valid C b"
  shows "in_i64 (a + b)" and "in_i64 (a - b)" and "in_i64 (- a)"
  using valid_bounds[OF assms(1)] valid_bounds[OF assms(2)] by (simp_all add: i64_defs money_defs)

lemma amount_add_eq:
  assumes "valid C a" and "valid C b"
  shows "amount_add C a b =
    Some (if valid C (a + b) then Inr (a + b) else Inl (Constraint_Error (a + b) (valid_range C)))"
  using amount_sums_in_i64[OF assms] by (simp add: amount_add_def try_from_i64_def)

lemma amount_sub_eq:
  assumes "valid C a" and "valid C b"
  shows "amount_sub C a b =
    Some (if valid C (a - b) then Inr (a - b) else Inl (Constraint_Error (a - b) (valid_range C)))"
  using amount_sums_in_i64[OF assms] by (simp add: amount_sub_def try_from_i64_def)

lemma amount_neg_eq:
  assumes "valid C a"
  shows "amount_neg a = Some (- a)"
proof -
  have "valid NegativeAllowed (- a)"
    using valid_bounds[OF assms] by (simp add: valid_iff)
  then show ?thesis
    by (simp add: amount_neg_def try_from_i64_def valid_in_i64)
qed

lemma constrain_eq:
  "constrain C a = (if valid C a then Inr a else Inl (Constraint_Error a (valid_range C)))"
  by (simp add: constrain_def try_from_i64_def validate_def)

lemma quot_pos: "0 < b \<Longrightarrow> quot a b = (if 0 \<le> a then a div b else - (- a div b))"
  by (auto simp: quot_def sgn_if)

lemma quot_between:
  assumes "0 < b"
  shows "min 0 a \<le> quot a b" and "quot a b \<le> max 0 a"
proof -
  have div: "0 \<le> x div b \<and> x div b \<le> x" if "0 \<le> x" for x
    using that assms zdiv_mono2[of x 1 b] by (simp add: pos_imp_zdiv_nonneg_iff)
  show "min 0 a \<le> quot a b"
    using div[of a] div[of "- a"] assms by (auto simp: quot_pos)
  show "quot a b \<le> max 0 a"
    using div[of a] div[of "- a"] assms by (auto simp: quot_pos)
qed

lemma valid_quot:
  assumes "valid C a" and "0 < b"
  shows "valid C (quot a b)"
  using quot_between[OF assms(2), of a] assms(1)
  by (cases C) (auto simp: valid_iff money_defs)

lemma amount_div_eq:
  assumes "valid C a"
  shows "amount_div C a rhs =
    Some (if rhs = 0 then Inl (DivideByZero a) else Inr (quot a (uint rhs)))"
proof (cases "rhs = 0")
  case False
  then have "0 < uint rhs" by (simp add: uint_nonnegative uint_0_iff order_less_le)
  with assms have "valid C (quot a (uint rhs))" by (rule valid_quot)
  with False show ?thesis
    by (simp add: amount_div_def try_from_i128_def valid_in_i64)
qed (simp add: amount_div_def)

lemma amount_mul_in_i128:
  assumes "valid C a"
  shows "in_i128 (a * uint (rhs :: u64))"
proof -
  have r: "0 \<le> uint rhs" "uint rhs < 2 ^ 64" using uint_lt2p[of rhs] by simp_all
  have "\<bar>a\<bar> \<le> MAX_MONEY" using valid_bounds[OF assms] by auto
  then have "\<bar>a\<bar> * uint rhs \<le> MAX_MONEY * 2 ^ 64"
    using r by (intro mult_mono) (auto simp: money_defs)
  moreover have "\<bar>a * uint rhs\<bar> = \<bar>a\<bar> * uint rhs" using r by (simp add: abs_mult)
  ultimately have "\<bar>a * uint rhs\<bar> \<le> MAX_MONEY * 2 ^ 64" by simp
  then show ?thesis by (auto simp: in_i128_def money_defs abs_le_iff)
qed

lemma amount_mul_eq:
  assumes "valid C a"
  shows "amount_mul C a rhs =
    Some (if valid C (a * uint rhs) then Inr (a * uint rhs)
          else Inl (MultiplicationOverflow a rhs (a * uint rhs)))"
  using amount_mul_in_i128[OF assms, of rhs] valid_in_i64[of C "a * uint rhs"]
  by (auto simp: amount_mul_def try_from_i128_def Let_def)

section \<open>Sums\<close>

text \<open>The prefix sums of a list of amounts decide its sum: all of them within the constraint
  gives the total; otherwise the first one outside is reported.\<close>

definition prefix_sums_valid :: "Constraint \<Rightarrow> amount \<Rightarrow> amount list \<Rightarrow> bool" where
  "prefix_sums_valid C acc xs \<longleftrightarrow> (\<forall>i \<le> length xs. valid C (acc + sum_list (take i xs)))"

lemma prefix_sums_valid_Cons:
  "prefix_sums_valid C acc (x # xs) \<longleftrightarrow> valid C acc \<and> prefix_sums_valid C (acc + x) xs"
proof -
  have "(\<forall>i \<le> Suc (length xs). P i) \<longleftrightarrow> P 0 \<and> (\<forall>i \<le> length xs. P (Suc i))" for P
    by (metis Suc_le_mono le0 not0_implies_Suc)
  then show ?thesis by (simp add: prefix_sums_valid_def add.assoc)
qed

lemma prefix_sums_valid_Nil [simp]: "prefix_sums_valid C acc [] \<longleftrightarrow> valid C acc"
  by (simp add: prefix_sums_valid_def)

lemma amount_sum_from_ok:
  assumes "prefix_sums_valid C acc xs" and "\<forall>x \<in> set xs. valid C x"
  shows "amount_sum_from C acc xs = Some (Inr (acc + sum_list xs))"
  using assms
proof (induction xs arbitrary: acc)
  case (Cons x xs)
  then have "valid C acc" "valid C x" and rest: "prefix_sums_valid C (acc + x) xs"
    by (auto simp: prefix_sums_valid_Cons)
  moreover from rest have "valid C (acc + x)"
    by (auto simp: prefix_sums_valid_def dest: spec[of _ 0])
  ultimately show ?case using Cons by (simp add: amount_add_eq add.assoc)
qed auto

lemma amount_sum_from_err:
  assumes "valid C acc" and "\<forall>x \<in> set xs. valid C x"
    and "i < length xs" and "\<not> valid C (acc + sum_list (take (Suc i) xs))"
    and "\<forall>j \<le> i. valid C (acc + sum_list (take j xs))"
  shows "amount_sum_from C acc xs =
    Some (Inl (SumOverflow (acc + sum_list (take (Suc i) xs)) (length xs - Suc i)))"
  using assms
proof (induction xs arbitrary: acc i)
  case (Cons x xs)
  show ?case
  proof (cases i)
    case 0
    with Cons.prems show ?thesis by (simp add: amount_add_eq)
  next
    case (Suc k)
    have "valid C (acc + x)" using Cons.prems(5) Suc by (auto dest: spec[of _ "Suc 0"])
    moreover have "\<forall>j \<le> k. valid C (acc + x + sum_list (take j xs))"
    proof (intro allI impI)
      fix j assume "j \<le> k"
      with Cons.prems(5) Suc have "valid C (acc + sum_list (take (Suc j) (x # xs)))" by blast
      then show "valid C (acc + x + sum_list (take j xs))" by (simp add: add.assoc)
    qed
    ultimately show ?thesis
      using Cons.prems Suc Cons.IH[of "acc + x" k] by (simp add: amount_add_eq add.assoc)
  qed
qed auto

lemma prefix_sums_nonneg:
  assumes "\<forall>x \<in> set xs. valid NonNegative x"
  shows "prefix_sums_valid NonNegative 0 xs \<longleftrightarrow> sum_list xs \<le> MAX_MONEY"
proof
  assume "prefix_sums_valid NonNegative 0 xs"
  then show "sum_list xs \<le> MAX_MONEY"
    by (auto simp: prefix_sums_valid_def valid_iff dest: spec[of _ "length xs"])
next
  assume total: "sum_list xs \<le> MAX_MONEY"
  have nonneg: "0 \<le> sum_list ys" if "set ys \<subseteq> set xs" for ys
    using that assms by (intro sum_list_nonneg) (auto simp: valid_iff)
  show "prefix_sums_valid NonNegative 0 xs"
    unfolding prefix_sums_valid_def
  proof (intro allI impI)
    fix i
    have "sum_list xs = sum_list (take i xs) + sum_list (drop i xs)"
      by (metis append_take_drop_id sum_list_append)
    with total nonneg[of "take i xs"] nonneg[of "drop i xs"] set_take_subset[of i xs]
      set_drop_subset[of i xs]
    show "valid NonNegative (0 + sum_list (take i xs))" by (simp add: valid_iff)
  qed
qed

lemma first_failing_prefix:
  assumes "valid C acc" and "\<not> prefix_sums_valid C acc xs"
  obtains i where "i < length xs" and "\<not> valid C (acc + sum_list (take (Suc i) xs))"
    and "\<forall>j \<le> i. valid C (acc + sum_list (take j xs))"
proof -
  define P where "P i \<longleftrightarrow> i \<le> length xs \<and> \<not> valid C (acc + sum_list (take i xs))" for i
  from assms(2) have "\<exists>i. P i" by (auto simp: prefix_sums_valid_def P_def)
  then have least: "P (LEAST i. P i)" "\<And>j. j < (LEAST i. P i) \<Longrightarrow> \<not> P j"
    by (auto intro: LeastI_ex dest: not_less_Least)
  have "\<not> P 0" using assms(1) by (simp add: P_def)
  with least(1) have "(LEAST i. P i) \<noteq> 0" by (metis)
  then obtain k where k: "(LEAST i. P i) = Suc k" by (auto simp: gr0_conv_Suc)
  show ?thesis
  proof (rule that[of k])
    show "k < length xs" using least(1) k by (simp add: P_def)
    show "\<not> valid C (acc + sum_list (take (Suc k) xs))" using least(1) k by (simp add: P_def)
    show "\<forall>j \<le> k. valid C (acc + sum_list (take j xs))"
      using least k \<open>k < length xs\<close> by (auto simp: P_def)
  qed
qed

section \<open>Bytes\<close>

lemma length_i64_le [simp, len_simps]: "length (i64_le v) = 8"
  by (simp add: i64_le_def)

lemma i64_of_le_i64_le:
  assumes "in_i64 v"
  shows "i64_of_le (i64_le v) = v"
proof -
  have "nat (v mod 2 ^ 64) < 2 ^ 64" by (simp add: nat_less_iff)
  then have n: "int (le_value (i64_le v)) = v mod 2 ^ 64"
    by (simp add: i64_le_def)
  show ?thesis
  proof (cases "0 \<le> v")
    case True
    then have "v mod 2 ^ 64 = v" using assms by (simp add: i64_defs)
    with n True assms show ?thesis by (simp add: i64_of_le_def i64_defs Let_def)
  next
    case False
    then have "(v + 2 ^ 64) mod 2 ^ 64 = v + 2 ^ 64"
      using assms by (intro mod_pos_pos_trivial) (simp_all add: i64_defs)
    then have "v mod 2 ^ 64 = v + 2 ^ 64" by simp
    with n False assms show ?thesis by (simp add: i64_of_le_def i64_defs Let_def)
  qed
qed

section \<open>Properties\<close>

text \<open>C36: on amounts that meet their constraint, addition, subtraction, multiplication by a
  \<^verbatim>\<open>u64\<close>, division by a \<^verbatim>\<open>u64\<close> and negation never reach an \<^verbatim>\<open>expect\<close>, their result is the exact
  integer result when that meets the constraint, and the error names the exact result otherwise.\<close>

theorem amount_arithmetic_exact:
  assumes "valid C a" and "valid C b"
  shows "amount_add C a b = Some (if valid C (a + b) then Inr (a + b)
           else Inl (Constraint_Error (a + b) (valid_range C))) \<and>
         amount_sub C a b = Some (if valid C (a - b) then Inr (a - b)
           else Inl (Constraint_Error (a - b) (valid_range C))) \<and>
         amount_mul C a n = Some (if valid C (a * uint n) then Inr (a * uint n)
           else Inl (MultiplicationOverflow a n (a * uint n))) \<and>
         amount_div C a n = Some (if n = 0 then Inl (DivideByZero a) else Inr (quot a (uint n))) \<and>
         amount_neg a = Some (- a)"
  using assms by (simp only: amount_add_eq amount_sub_eq amount_mul_eq amount_div_eq
      amount_neg_eq[OF assms(1)] simp_thms)

theorem amount_arithmetic_exact_witness:
  "valid NonNegative 7 \<and> amount_sub NonNegative 7 9 = Some (Inl (Constraint_Error (- 2) (0, MAX_MONEY)))
   \<and> amount_div NonNegative 7 2 = Some (Inr 3)"
  using amount_arithmetic_exact[of NonNegative 7 9 2]
  by (simp add: valid_iff money_defs quot_def)

text \<open>A sum of valid amounts is the exact total when every prefix sum meets the constraint;
  otherwise it stops at the first prefix that does not, and the error carries that partial sum and
  the number of items not yet added.\<close>

theorem amount_sum_spec:
  assumes "\<forall>x \<in> set xs. valid C x"
  shows "(prefix_sums_valid C 0 xs \<longrightarrow> amount_sum C xs = Some (Inr (sum_list xs))) \<and>
    (\<not> prefix_sums_valid C 0 xs \<longrightarrow>
      (\<exists>i < length xs. (\<forall>j \<le> i. valid C (sum_list (take j xs))) \<and>
        \<not> valid C (sum_list (take (Suc i) xs)) \<and>
        amount_sum C xs =
          Some (Inl (SumOverflow (sum_list (take (Suc i) xs)) (length xs - Suc i)))))"
proof (cases "prefix_sums_valid C 0 xs")
  case True
  then show ?thesis
    using amount_sum_from_ok[OF True assms] by (simp add: amount_sum_def amount_zero_eq)
next
  case False
  obtain i where i: "i < length xs" "\<not> valid C (0 + sum_list (take (Suc i) xs))"
    "\<forall>j \<le> i. valid C (0 + sum_list (take j xs))"
    using first_failing_prefix[OF valid_zero False] by blast
  from amount_sum_from_err[OF valid_zero assms i] i False show ?thesis
    by (auto simp: amount_sum_def amount_zero_eq simp del: take_Suc_conv_app_nth intro!: exI[of _ i])
qed

theorem amount_sum_spec_witness:
  "prefix_sums_valid NonNegative 0 [1, 2, 3] \<and> amount_sum NonNegative [1, 2, 3] = Some (Inr 6)"
proof -
  have v: "\<forall>x \<in> set [1, 2, 3]. valid NonNegative x" by (simp add: valid_iff money_defs)
  moreover have "prefix_sums_valid NonNegative 0 [1, 2, 3]"
    using prefix_sums_nonneg[OF v] by (simp add: money_defs)
  ultimately show ?thesis using amount_sum_spec[OF v] by simp
qed

text \<open>The checked sum of non-negative amounts succeeds exactly when the total is at most
  \<^verbatim>\<open>MAX_MONEY\<close>, in any order of the items, and is then the total.\<close>

theorem nonnegative_sum_iff_total:
  assumes "\<forall>x \<in> set xs. valid NonNegative x"
  shows "amount_sum NonNegative xs = Some (Inr s) \<longleftrightarrow> sum_list xs \<le> MAX_MONEY \<and> s = sum_list xs"
proof (cases "prefix_sums_valid NonNegative 0 xs")
  case True
  then show ?thesis
    using amount_sum_from_ok[OF True assms] prefix_sums_nonneg[OF assms]
    by (auto simp: amount_sum_def amount_zero_eq)
next
  case False
  obtain i where i: "i < length xs" "\<not> valid NonNegative (0 + sum_list (take (Suc i) xs))"
    "\<forall>j \<le> i. valid NonNegative (0 + sum_list (take j xs))"
    using first_failing_prefix[OF valid_zero False] by blast
  from amount_sum_from_err[OF valid_zero assms i] False prefix_sums_nonneg[OF assms] show ?thesis
    by (simp add: amount_sum_def amount_zero_eq)
qed

theorem nonnegative_sum_iff_total_witness:
  "amount_sum NonNegative [MAX_MONEY, 1] \<noteq> Some (Inr (MAX_MONEY + 1))"
  using nonnegative_sum_iff_total[of "[MAX_MONEY, 1]" "MAX_MONEY + 1"]
  by (simp add: valid_iff money_defs)

end
