(* ===== verification/Value_Balance.thy ===== *)
theory Value_Balance
  imports Amount
begin

text \<open>
  Chain and transaction value pools (\<^verbatim>\<open>zebra-chain/src/value_balance.rs\<close>): five amounts under
  one constraint, added and subtracted pool by pool. The state service applies a block's pool
  change when it pushes the block on a chain and the negated change when it pops the tip;
  \<open>invertible_ledger\<close> is what it relies on.
\<close>

section \<open>Data\<close>

record value_balance =
  transparent :: amount
  sprout :: amount
  sapling :: amount
  orchard :: amount
  deferred :: amount

datatype ValueBalanceError =
    Transparent amount_error
  | Sprout amount_error
  | Sapling amount_error
  | Orchard amount_error
  | Deferred amount_error
  | Unparsable

definition vb_zero :: value_balance where
  "vb_zero = \<lparr>transparent = 0, sprout = 0, sapling = 0, orchard = 0, deferred = 0\<rparr>"

definition from_transparent_amount :: "amount \<Rightarrow> value_balance" where
  "from_transparent_amount a = vb_zero\<lparr>transparent := a\<rparr>"

definition from_sprout_amount :: "amount \<Rightarrow> value_balance" where
  "from_sprout_amount a = vb_zero\<lparr>sprout := a\<rparr>"

definition from_sapling_amount :: "amount \<Rightarrow> value_balance" where
  "from_sapling_amount a = vb_zero\<lparr>sapling := a\<rparr>"

definition from_orchard_amount :: "amount \<Rightarrow> value_balance" where
  "from_orchard_amount a = vb_zero\<lparr>orchard := a\<rparr>"

definition set_transparent_value_balance :: "value_balance \<Rightarrow> value_balance \<Rightarrow> value_balance" where
  "set_transparent_value_balance s v = s\<lparr>transparent := transparent v\<rparr>"

definition set_sprout_value_balance :: "value_balance \<Rightarrow> value_balance \<Rightarrow> value_balance" where
  "set_sprout_value_balance s v = s\<lparr>sprout := sprout v\<rparr>"

definition set_sapling_value_balance :: "value_balance \<Rightarrow> value_balance \<Rightarrow> value_balance" where
  "set_sapling_value_balance s v = s\<lparr>sapling := sapling v\<rparr>"

definition set_orchard_value_balance :: "value_balance \<Rightarrow> value_balance \<Rightarrow> value_balance" where
  "set_orchard_value_balance s v = s\<lparr>orchard := orchard v\<rparr>"

definition set_deferred_amount :: "value_balance \<Rightarrow> amount \<Rightarrow> value_balance" where
  "set_deferred_amount s a = s\<lparr>deferred := a\<rparr>"

section \<open>Operations\<close>

definition vb_constrain :: "Constraint \<Rightarrow> value_balance \<Rightarrow> ValueBalanceError + value_balance" where
  "vb_constrain C s =
     try_bind (map_err Transparent (constrain C (transparent s))) (\<lambda>t.
     try_bind (map_err Sprout (constrain C (sprout s))) (\<lambda>sp.
     try_bind (map_err Sapling (constrain C (sapling s))) (\<lambda>sa.
     try_bind (map_err Orchard (constrain C (orchard s))) (\<lambda>orc.
     try_bind (map_err Deferred (constrain C (deferred s))) (\<lambda>d.
     Inr \<lparr>transparent = t, sprout = sp, sapling = sa, orchard = orc, deferred = d\<rparr>)))))"

definition vb_add ::
  "Constraint \<Rightarrow> value_balance \<Rightarrow> value_balance \<Rightarrow> (ValueBalanceError + value_balance) option" where
  "vb_add C s r =
     run_try (amount_add C (transparent s) (transparent r)) Transparent (\<lambda>t.
     run_try (amount_add C (sprout s) (sprout r)) Sprout (\<lambda>sp.
     run_try (amount_add C (sapling s) (sapling r)) Sapling (\<lambda>sa.
     run_try (amount_add C (orchard s) (orchard r)) Orchard (\<lambda>orc.
     run_try (amount_add C (deferred s) (deferred r)) Deferred (\<lambda>d.
     Some (Inr \<lparr>transparent = t, sprout = sp, sapling = sa, orchard = orc, deferred = d\<rparr>))))))"

definition vb_sub ::
  "Constraint \<Rightarrow> value_balance \<Rightarrow> value_balance \<Rightarrow> (ValueBalanceError + value_balance) option" where
  "vb_sub C s r =
     run_try (amount_sub C (transparent s) (transparent r)) Transparent (\<lambda>t.
     run_try (amount_sub C (sprout s) (sprout r)) Sprout (\<lambda>sp.
     run_try (amount_sub C (sapling s) (sapling r)) Sapling (\<lambda>sa.
     run_try (amount_sub C (orchard s) (orchard r)) Orchard (\<lambda>orc.
     run_try (amount_sub C (deferred s) (deferred r)) Deferred (\<lambda>d.
     Some (Inr \<lparr>transparent = t, sprout = sp, sapling = sa, orchard = orc, deferred = d\<rparr>))))))"

definition vb_neg :: "value_balance \<Rightarrow> value_balance option" where
  "vb_neg s = do {
     t \<leftarrow> amount_neg (transparent s);
     sp \<leftarrow> amount_neg (sprout s);
     sa \<leftarrow> amount_neg (sapling s);
     orc \<leftarrow> amount_neg (orchard s);
     d \<leftarrow> amount_neg (deferred s);
     Some \<lparr>transparent = t, sprout = sp, sapling = sa, orchard = orc, deferred = d\<rparr> }"

text \<open>The operators on \<^verbatim>\<open>Result<ValueBalance<C>, _>\<close> stop at an error on either side.\<close>

definition vb_result_add ::
  "Constraint \<Rightarrow> ValueBalanceError + value_balance \<Rightarrow> value_balance \<Rightarrow>
   (ValueBalanceError + value_balance) option" where
  "vb_result_add C r v = (case r of Inl e \<Rightarrow> Some (Inl e) | Inr s \<Rightarrow> vb_add C s v)"

definition vb_add_result ::
  "Constraint \<Rightarrow> value_balance \<Rightarrow> ValueBalanceError + value_balance \<Rightarrow>
   (ValueBalanceError + value_balance) option" where
  "vb_add_result C s r = (case r of Inl e \<Rightarrow> Some (Inl e) | Inr v \<Rightarrow> vb_add C s v)"

definition vb_result_sub ::
  "Constraint \<Rightarrow> ValueBalanceError + value_balance \<Rightarrow> value_balance \<Rightarrow>
   (ValueBalanceError + value_balance) option" where
  "vb_result_sub C r v = (case r of Inl e \<Rightarrow> Some (Inl e) | Inr s \<Rightarrow> vb_sub C s v)"

definition vb_sub_result ::
  "Constraint \<Rightarrow> value_balance \<Rightarrow> ValueBalanceError + value_balance \<Rightarrow>
   (ValueBalanceError + value_balance) option" where
  "vb_sub_result C s r = (case r of Inl e \<Rightarrow> Some (Inl e) | Inr v \<Rightarrow> vb_sub C s v)"

fun vb_sum_from ::
  "Constraint \<Rightarrow> value_balance \<Rightarrow> value_balance list \<Rightarrow> (ValueBalanceError + value_balance) option"
where
  "vb_sum_from C acc [] = Some (Inr acc)"
| "vb_sum_from C acc (v # vs) =
     (case vb_add C acc v of
        None \<Rightarrow> None
      | Some (Inl e) \<Rightarrow> Some (Inl e)
      | Some (Inr s) \<Rightarrow> vb_sum_from C s vs)"

definition vb_sum :: "Constraint \<Rightarrow> value_balance list \<Rightarrow> (ValueBalanceError + value_balance) option"
where
  "vb_sum C vs = vb_sum_from C vb_zero vs"

definition remaining_transaction_value :: "value_balance \<Rightarrow> (amount_error + amount) option" where
  "remaining_transaction_value s = do {
     r1 \<leftarrow> amount_add NegativeAllowed (transparent s) (sprout s);
     r2 \<leftarrow> result_add NegativeAllowed r1 (sapling s);
     r3 \<leftarrow> result_add NegativeAllowed r2 (orchard s);
     Some (try_bind r3 (constrain NonNegative)) }"

definition add_chain_value_pool_change ::
  "value_balance \<Rightarrow> value_balance \<Rightarrow> (ValueBalanceError + value_balance) option" where
  "add_chain_value_pool_change s change =
     (case vb_constrain NegativeAllowed s of
        Inl _ \<Rightarrow> None
      | Inr pool \<Rightarrow> (case vb_add NegativeAllowed pool change of
            None \<Rightarrow> None
          | Some r \<Rightarrow> Some (try_bind r (vb_constrain NonNegative))))"

section \<open>Byte encoding\<close>

definition vb_to_bytes :: "value_balance \<Rightarrow> bytes" where
  "vb_to_bytes s =
     concat [amount_to_bytes (transparent s), amount_to_bytes (sprout s),
       amount_to_bytes (sapling s), amount_to_bytes (orchard s), amount_to_bytes (deferred s)]"

definition vb_from_bytes :: "bytes \<Rightarrow> ValueBalanceError + value_balance" where
  "vb_from_bytes bs =
     (if length bs \<noteq> 32 \<and> length bs \<noteq> 40 then Inl Unparsable
      else
       try_bind (map_err Transparent (amount_from_bytes NonNegative (slice 0 8 bs))) (\<lambda>t.
       try_bind (map_err Sprout (amount_from_bytes NonNegative (slice 8 16 bs))) (\<lambda>sp.
       try_bind (map_err Sapling (amount_from_bytes NonNegative (slice 16 24 bs))) (\<lambda>sa.
       try_bind (map_err Orchard (amount_from_bytes NonNegative (slice 24 32 bs))) (\<lambda>orc.
       try_bind (if length bs = 32 then Inr 0
                 else if length bs = 40
                   then map_err Deferred (amount_from_bytes NonNegative (slice 32 40 bs))
                 else Inl Unparsable) (\<lambda>d.
       Inr \<lparr>transparent = t, sprout = sp, sapling = sa, orchard = orc, deferred = d\<rparr>))))))"

section \<open>The pool invariant\<close>

definition vb_valid :: "Constraint \<Rightarrow> value_balance \<Rightarrow> bool" where
  "vb_valid C s \<longleftrightarrow> valid C (transparent s) \<and> valid C (sprout s) \<and> valid C (sapling s) \<and>
     valid C (orchard s) \<and> valid C (deferred s)"

text \<open>Pool-wise addition on unbounded integers, the specification of the checked operations.\<close>

definition vb_plus :: "value_balance \<Rightarrow> value_balance \<Rightarrow> value_balance" where
  "vb_plus s r = \<lparr>transparent = transparent s + transparent r, sprout = sprout s + sprout r,
     sapling = sapling s + sapling r, orchard = orchard s + orchard r,
     deferred = deferred s + deferred r\<rparr>"

definition vb_uminus :: "value_balance \<Rightarrow> value_balance" where
  "vb_uminus s = \<lparr>transparent = - transparent s, sprout = - sprout s, sapling = - sapling s,
     orchard = - orchard s, deferred = - deferred s\<rparr>"

lemma vb_valid_zero [simp]: "vb_valid C vb_zero"
  by (simp add: vb_valid_def vb_zero_def)

lemma valid_NegativeAllowed: "valid C a \<Longrightarrow> valid NegativeAllowed a"
  using valid_bounds[of C a] by (simp add: valid_iff)

lemma vb_valid_NegativeAllowed: "vb_valid C s \<Longrightarrow> vb_valid NegativeAllowed s"
  by (auto simp: vb_valid_def intro: valid_NegativeAllowed)

lemma vb_constrain_ok_iff: "vb_constrain C s = Inr s' \<longleftrightarrow> vb_valid C s \<and> s' = s"
  by (cases s) (auto simp: vb_constrain_def vb_valid_def constrain_eq try_bind_Inr_iff)

lemma vb_constrain_valid [simp]: "vb_valid C s \<Longrightarrow> vb_constrain C s = Inr s"
  by (simp add: vb_constrain_ok_iff)

lemma vb_add_no_panic:
  assumes "vb_valid C s" and "vb_valid C r"
  shows "\<exists>x. vb_add C s r = Some x"
  using assms by (simp add: vb_add_def vb_valid_def amount_add_eq)

lemma vb_add_ok_iff:
  assumes "vb_valid C s" and "vb_valid C r"
  shows "vb_add C s r = Some (Inr v) \<longleftrightarrow> vb_valid C (vb_plus s r) \<and> v = vb_plus s r"
  using assms by (auto simp: vb_add_def vb_valid_def amount_add_eq vb_plus_def)

lemma vb_neg_eq: "vb_valid C s \<Longrightarrow> vb_neg s = Some (vb_uminus s)"
  by (auto simp: vb_neg_def vb_valid_def amount_neg_eq[of C] vb_uminus_def)

lemma vb_valid_uminus: "vb_valid NegativeAllowed s \<Longrightarrow> vb_valid NegativeAllowed (vb_uminus s)"
  by (simp add: vb_valid_def vb_uminus_def valid_iff)

lemma vb_plus_uminus: "vb_plus (vb_plus s c) (vb_uminus c) = s"
  by (cases s) (simp add: vb_plus_def vb_uminus_def)

lemma add_chain_value_pool_change_ok_iff:
  assumes "vb_valid NonNegative s" and "vb_valid NegativeAllowed c"
  shows "add_chain_value_pool_change s c = Some (Inr v) \<longleftrightarrow>
    vb_valid NonNegative (vb_plus s c) \<and> v = vb_plus s c"
proof -
  have s: "vb_valid NegativeAllowed s" using assms(1) by (rule vb_valid_NegativeAllowed)
  obtain x where x: "vb_add NegativeAllowed s c = Some x"
    using vb_add_no_panic[OF s assms(2)] by blast
  have "add_chain_value_pool_change s c = Some (try_bind x (vb_constrain NonNegative))"
    by (simp add: add_chain_value_pool_change_def s x)
  moreover have "try_bind x (vb_constrain NonNegative) = Inr v \<longleftrightarrow> x = Inr v \<and> vb_valid NonNegative v"
    by (auto simp: try_bind_Inr_iff vb_constrain_ok_iff)
  moreover have "x = Inr v \<longleftrightarrow> vb_valid NegativeAllowed (vb_plus s c) \<and> v = vb_plus s c"
    using vb_add_ok_iff[OF s assms(2), of v] x by simp
  ultimately show ?thesis
    using vb_valid_NegativeAllowed[of NonNegative "vb_plus s c"] by auto
qed

lemma add_chain_value_pool_change_no_panic:
  assumes "vb_valid NonNegative s" and "vb_valid NegativeAllowed c"
  shows "\<exists>r. add_chain_value_pool_change s c = Some r"
  using vb_add_no_panic[OF vb_valid_NegativeAllowed[OF assms(1)] assms(2)]
    vb_valid_NegativeAllowed[OF assms(1)]
  by (auto simp: add_chain_value_pool_change_def)

section \<open>Applying and reverting pool changes\<close>

text \<open>What a chain relies on to fork: applying a change and then its inverse gives the old
  state. Reverting a whole run in reverse order is then proved once.\<close>

locale invertible_ledger =
  fixes apply_change :: "'s \<Rightarrow> 'c \<Rightarrow> 's option"
    and inverse :: "'c \<Rightarrow> 'c"
    and inv_state :: "'s \<Rightarrow> bool"
    and inv_change :: "'c \<Rightarrow> bool"
  assumes apply_inv: "inv_state s \<Longrightarrow> inv_change c \<Longrightarrow> apply_change s c = Some s' \<Longrightarrow> inv_state s'"
    and apply_inverse: "inv_state s \<Longrightarrow> inv_change c \<Longrightarrow> apply_change s c = Some s' \<Longrightarrow>
      apply_change s' (inverse c) = Some s"
begin

fun apply_all :: "'s \<Rightarrow> 'c list \<Rightarrow> 's option" where
  "apply_all s [] = Some s"
| "apply_all s (c # cs) = Option.bind (apply_change s c) (\<lambda>s'. apply_all s' cs)"

lemma apply_all_append:
  "apply_all s (cs @ ds) = Option.bind (apply_all s cs) (\<lambda>s'. apply_all s' ds)"
  by (induction cs arbitrary: s) (auto simp: Option.bind_assoc)

lemma apply_all_inv:
  "inv_state s \<Longrightarrow> \<forall>c \<in> set cs. inv_change c \<Longrightarrow> apply_all s cs = Some s' \<Longrightarrow> inv_state s'"
  by (induction cs arbitrary: s) (auto elim!: bind_SomeE dest: apply_inv)

lemma revert_all:
  assumes "inv_state s" and "\<forall>c \<in> set cs. inv_change c" and "apply_all s cs = Some s'"
  shows "apply_all s' (map inverse (rev cs)) = Some s"
  using assms
proof (induction cs arbitrary: s)
  case (Cons c cs)
  then obtain t where t: "apply_change s c = Some t" "apply_all t cs = Some s'"
    by (auto elim!: bind_SomeE)
  with Cons.prems have "inv_state t" and "apply_change t (inverse c) = Some s"
    by (auto intro: apply_inv apply_inverse)
  with t Cons show ?case
    by (simp add: apply_all_append)
qed auto

end

definition apply_pool_change :: "value_balance \<Rightarrow> value_balance \<Rightarrow> value_balance option" where
  "apply_pool_change s c =
     (case add_chain_value_pool_change s c of Some (Inr s') \<Rightarrow> Some s' | _ \<Rightarrow> None)"

lemma apply_pool_change_Some_iff:
  assumes "vb_valid NonNegative s" and "vb_valid NegativeAllowed c"
  shows "apply_pool_change s c = Some s' \<longleftrightarrow> vb_valid NonNegative (vb_plus s c) \<and> s' = vb_plus s c"
  using add_chain_value_pool_change_ok_iff[OF assms]
  by (auto simp: apply_pool_change_def split: option.splits sum.splits)

interpretation chain_pools: invertible_ledger apply_pool_change vb_uminus
  "vb_valid NonNegative" "vb_valid NegativeAllowed"
proof unfold_locales
  fix s c s'
  assume s: "vb_valid NonNegative s" and c: "vb_valid NegativeAllowed c"
    and app: "apply_pool_change s c = Some s'"
  from app have s'_eq: "s' = vb_plus s c" and s': "vb_valid NonNegative s'"
    by (simp_all add: apply_pool_change_Some_iff[OF s c])
  show "vb_valid NonNegative s'" by (rule s')
  show "apply_pool_change s' (vb_uminus c) = Some s"
    using apply_pool_change_Some_iff[OF s' vb_valid_uminus[OF c]] s
    by (simp add: s'_eq vb_plus_uminus)
qed

section \<open>Bytes\<close>

lemma amount_from_bytes_i64_le:
  "valid C a \<Longrightarrow> amount_from_bytes C (i64_le a) = Inr a"
  by (simp add: amount_from_bytes_def try_from_i64_def i64_of_le_i64_le valid_in_i64)

lemma five_slices:
  assumes "length a = 8" "length b = 8" "length c = 8" "length d = 8"
  shows "slice 0 8 (a @ b @ c @ d @ e) = a" "slice 8 16 (a @ b @ c @ d @ e) = b"
    "slice 16 24 (a @ b @ c @ d @ e) = c" "slice 24 32 (a @ b @ c @ d @ e) = d"
    "slice 32 40 (a @ b @ c @ d @ e) = take 8 e"
  using assms by (auto simp: slice_def)

lemma vb_from_bytes_parts:
  assumes "length a = 8" "length b = 8" "length c = 8" "length d = 8"
    and "amount_from_bytes NonNegative a = Inr t" "amount_from_bytes NonNegative b = Inr sp"
    and "amount_from_bytes NonNegative c = Inr sa" "amount_from_bytes NonNegative d = Inr orc"
  shows "vb_from_bytes (a @ b @ c @ d) =
      Inr \<lparr>transparent = t, sprout = sp, sapling = sa, orchard = orc, deferred = 0\<rparr>"
    and "length e = 8 \<Longrightarrow> amount_from_bytes NonNegative e = Inr df \<Longrightarrow>
      vb_from_bytes (a @ b @ c @ d @ e) =
        Inr \<lparr>transparent = t, sprout = sp, sapling = sa, orchard = orc, deferred = df\<rparr>"
  using assms five_slices[OF assms(1-4), of e] five_slices[OF assms(1-4), of "[]"]
  by (simp_all add: vb_from_bytes_def)

section \<open>Properties\<close>

text \<open>C33: adding a block's pool change to the chain value pools never panics; it succeeds exactly
  when every one of the five pools stays between zero and \<^verbatim>\<open>MAX_MONEY\<close>, and the new pools are
  then the exact pool-wise sums (the consensus rule that no chain value pool may become negative).\<close>

theorem chain_value_pools_never_negative:
  assumes "vb_valid NonNegative s" and "vb_valid NegativeAllowed c"
  shows "add_chain_value_pool_change s c \<noteq> None \<and>
    (add_chain_value_pool_change s c = Some (Inr v) \<longleftrightarrow>
      vb_valid NonNegative (vb_plus s c) \<and> v = vb_plus s c)"
  using add_chain_value_pool_change_no_panic[OF assms] add_chain_value_pool_change_ok_iff[OF assms]
  by auto

theorem chain_value_pools_never_negative_witness:
  "vb_valid NonNegative (vb_zero\<lparr>sapling := 5\<rparr>) \<and> vb_valid NegativeAllowed (vb_zero\<lparr>sapling := - 6\<rparr>) \<and>
   add_chain_value_pool_change (vb_zero\<lparr>sapling := 5\<rparr>) (vb_zero\<lparr>sapling := - 6\<rparr>)
     \<noteq> Some (Inr (vb_zero\<lparr>sapling := - 1\<rparr>))"
  using chain_value_pools_never_negative
    [of "vb_zero\<lparr>sapling := 5\<rparr>" "vb_zero\<lparr>sapling := - 6\<rparr>" "vb_zero\<lparr>sapling := - 1\<rparr>"]
  by (simp add: vb_valid_def vb_zero_def valid_iff money_defs vb_plus_def)

text \<open>C34: popping blocks undoes their pool changes. When a run of changes was applied to valid
  pools, every change can be negated, and applying the negated changes in reverse order succeeds and gives
  back the pools the run started from.\<close>

theorem pool_changes_revert:
  assumes "vb_valid NonNegative s" and "\<forall>c \<in> set cs. vb_valid NegativeAllowed c"
    and "chain_pools.apply_all s cs = Some s'"
  shows "vb_valid NonNegative s' \<and>
    (\<exists>ns. map vb_neg (rev cs) = map Some ns \<and> chain_pools.apply_all s' ns = Some s)"
proof
  have "map vb_neg (rev cs) = map Some (map vb_uminus (rev cs))" using assms(2) by (simp add: vb_neg_eq[of NegativeAllowed])
  then show "\<exists>ns. map vb_neg (rev cs) = map Some ns \<and> chain_pools.apply_all s' ns = Some s"
    using chain_pools.revert_all[OF assms] by blast
qed (rule chain_pools.apply_all_inv[OF assms])

theorem pool_changes_revert_witness:
  "\<exists>ns. map vb_neg (rev [vb_zero\<lparr>orchard := 5\<rparr>, vb_zero\<lparr>orchard := - 2\<rparr>]) = map Some ns \<and>
     chain_pools.apply_all (vb_zero\<lparr>orchard := 3\<rparr>) ns = Some vb_zero"
proof -
  let ?cs = "[vb_zero\<lparr>orchard := 5\<rparr>, vb_zero\<lparr>orchard := - 2\<rparr>]"
  have cs: "\<forall>c \<in> set ?cs. vb_valid NegativeAllowed c"
    by (simp add: vb_valid_def vb_zero_def valid_iff money_defs)
  have "apply_pool_change vb_zero (vb_zero\<lparr>orchard := 5\<rparr>) = Some (vb_zero\<lparr>orchard := 5\<rparr>)"
    and "apply_pool_change (vb_zero\<lparr>orchard := 5\<rparr>) (vb_zero\<lparr>orchard := - 2\<rparr>) = Some (vb_zero\<lparr>orchard := 3\<rparr>)"
    by (subst apply_pool_change_Some_iff;
        simp add: vb_valid_def vb_zero_def valid_iff money_defs vb_plus_def)+
  then have "chain_pools.apply_all vb_zero ?cs = Some (vb_zero\<lparr>orchard := 3\<rparr>)" by simp
  from pool_changes_revert[OF vb_valid_zero cs this] show ?thesis by blast
qed

text \<open>Value balances survive their database encoding: the 40 bytes written are read back as
  the same balance, and the 32-byte rows written before the deferred pool existed are read as the
  same four pools with an empty deferred pool. Other lengths are refused.\<close>

theorem value_balance_bytes_roundtrip:
  assumes "vb_valid NonNegative s"
  shows "length (vb_to_bytes s) = 40 \<and> vb_from_bytes (vb_to_bytes s) = Inr s \<and>
    vb_from_bytes (take 32 (vb_to_bytes s)) = Inr (s\<lparr>deferred := 0\<rparr>) \<and>
    (length bs \<notin> {32, 40} \<longrightarrow> vb_from_bytes bs = Inl Unparsable)"
proof -
  note v = assms[unfolded vb_valid_def]
  have t: "take 32 (vb_to_bytes s) = i64_le (transparent s) @ i64_le (sprout s) @
      i64_le (sapling s) @ i64_le (orchard s)"
    by (simp add: vb_to_bytes_def amount_to_bytes_def)
  have "vb_from_bytes (take 32 (vb_to_bytes s)) = Inr (s\<lparr>deferred := 0\<rparr>)"
    unfolding t using v by (subst vb_from_bytes_parts(1)) (auto simp: amount_from_bytes_i64_le)
  moreover have "vb_from_bytes (vb_to_bytes s) = Inr s"
    unfolding vb_to_bytes_def amount_to_bytes_def concat.simps append_Nil2
    using v by (subst vb_from_bytes_parts(2)) (auto simp: amount_from_bytes_i64_le)
  moreover have "length (vb_to_bytes s) = 40"
    by (simp add: vb_to_bytes_def amount_to_bytes_def)
  ultimately show ?thesis by (simp add: vb_from_bytes_def)
qed

theorem value_balance_bytes_roundtrip_witness:
  "vb_from_bytes (vb_to_bytes (vb_zero\<lparr>deferred := 300\<rparr>)) = Inr (vb_zero\<lparr>deferred := 300\<rparr>)"
  using value_balance_bytes_roundtrip[of "vb_zero\<lparr>deferred := 300\<rparr>" "[]"]
  by (simp add: vb_valid_def vb_zero_def valid_iff money_defs)

end
