(* ===== verification/Wire_Format.thy ===== *)
theory Wire_Format
  imports Amount
begin

text \<open>
  The consensus-critical wire format (\<^verbatim>\<open>zebra-chain/src/serialization/\<close>): reading from a byte
  stream, the CompactSize length prefix, byte vectors and vectors of items, and the wire format of
  amounts. \<open>codec\<close> and \<open>canonical_codec\<close> are the contracts of a serializer and deserializer pair.

  A reader is the list of bytes still unread. A deserializer returns an error or a value and the
  rest of the stream. A serializer writes to a \<^verbatim>\<open>Vec\<close> or a hasher, which never fail, so it returns
  the bytes it appends; \<open>None\<close> stands for a panic.
\<close>

section \<open>Errors and primitive reads\<close>

datatype SerializationError =
    Io_UnexpectedEof
  | Parse string
  | Utf8Error
  | TryFromSliceError
  | TryFromIntError
  | FromHexError
  | Amount_Error amount_error
  | BadTransactionBalance

type_synonym 'a reader = "bytes \<Rightarrow> SerializationError + 'a \<times> bytes"

definition read_exact :: "nat \<Rightarrow> bytes reader" where
  "read_exact n bs = (if n \<le> length bs then Inr (take n bs, drop n bs) else Inl Io_UnexpectedEof)"

definition read_u8 :: "byte reader" where
  "read_u8 bs = (case bs of [] \<Rightarrow> Inl Io_UnexpectedEof | b # r \<Rightarrow> Inr (b, r))"

definition read_u16 :: "u16 reader" where
  "read_u16 bs = try_bind (read_exact 2 bs) (\<lambda>(a, r). Inr (u16_of_le a, r))"

definition read_u32 :: "u32 reader" where
  "read_u32 bs = try_bind (read_exact 4 bs) (\<lambda>(a, r). Inr (u32_of_le a, r))"

definition read_u64 :: "u64 reader" where
  "read_u64 bs = try_bind (read_exact 8 bs) (\<lambda>(a, r). Inr (u64_of_le a, r))"

definition read_i64 :: "int reader" where
  "read_i64 bs = try_bind (read_exact 8 bs) (\<lambda>(a, r). Inr (i64_of_le a, r))"

definition read_4_bytes :: "bytes reader" where "read_4_bytes = read_exact 4"

definition read_12_bytes :: "bytes reader" where "read_12_bytes = read_exact 12"

definition read_32_bytes :: "bytes reader" where "read_32_bytes = read_exact 32"

definition read_64_bytes :: "bytes reader" where "read_64_bytes = read_exact 64"

section \<open>CompactSize\<close>

definition MAX_PROTOCOL_MESSAGE_LEN :: nat where
  "MAX_PROTOCOL_MESSAGE_LEN = 2 * 1024 * 1024"

definition MAX_U8_ALLOCATION :: nat where
  "MAX_U8_ALLOCATION = MAX_PROTOCOL_MESSAGE_LEN - 5"

definition CompactSize64_serialize :: "u64 \<Rightarrow> bytes" where
  "CompactSize64_serialize n =
     (if n \<le> 0xfc then [ucast n]
      else if n \<le> 0xffff then 0xfd # u16_le (ucast n)
      else if n \<le> 0xffffffff then 0xfe # u32_le (ucast n)
      else 0xff # u64_le n)"

definition CompactSize64_deserialize :: "u64 reader" where
  "CompactSize64_deserialize bs =
     try_bind (read_u8 bs) (\<lambda>(flag_byte, r).
       if flag_byte \<le> 0xfc then Inr (ucast flag_byte, r)
       else if flag_byte = 0xfd then
         try_bind (read_u16 r) (\<lambda>(n, r). if 0xfd \<le> n then Inr (ucast n, r)
           else Inl (Parse ''non-canonical CompactSize''))
       else if flag_byte = 0xfe then
         try_bind (read_u32 r) (\<lambda>(n, r). if 0x10000 \<le> n then Inr (ucast n, r)
           else Inl (Parse ''non-canonical CompactSize''))
       else
         try_bind (read_u64 r) (\<lambda>(n, r). if 0x100000000 \<le> n then Inr (n, r)
           else Inl (Parse ''non-canonical CompactSize'')))"

text \<open>A \<^verbatim>\<open>CompactSizeMessage\<close> is a \<^verbatim>\<open>u32\<close>; \<^verbatim>\<open>usize\<close> has 64 bits.\<close>

definition CompactSizeMessage_try_from :: "nat \<Rightarrow> SerializationError + u32" where
  "CompactSizeMessage_try_from n =
     (if n \<ge> 2 ^ 32 then Inl TryFromIntError
      else if n > MAX_PROTOCOL_MESSAGE_LEN
        then Inl (Parse ''CompactSize larger than protocol message limit'')
      else Inr (of_nat n))"

definition CompactSizeMessage_serialize :: "u32 \<Rightarrow> bytes option" where
  "CompactSizeMessage_serialize s =
     (if unat s \<le> MAX_PROTOCOL_MESSAGE_LEN then Some (CompactSize64_serialize (ucast s)) else None)"

definition CompactSizeMessage_deserialize :: "u32 reader" where
  "CompactSizeMessage_deserialize bs =
     try_bind (CompactSize64_deserialize bs) (\<lambda>(n, r).
     try_bind (CompactSizeMessage_try_from (unat n)) (\<lambda>m. Inr (m, r)))"

section \<open>Vectors\<close>

fun zcash_serialize_external_count :: "('a \<Rightarrow> bytes option) \<Rightarrow> 'a list \<Rightarrow> bytes option" where
  "zcash_serialize_external_count ser [] = Some []"
| "zcash_serialize_external_count ser (x # xs) = do {
     b \<leftarrow> ser x;
     bs \<leftarrow> zcash_serialize_external_count ser xs;
     Some (b @ bs) }"

fun read_items :: "'a reader \<Rightarrow> nat \<Rightarrow> 'a list reader" where
  "read_items de 0 bs = Inr ([], bs)"
| "read_items de (Suc n) bs =
     try_bind (de bs) (\<lambda>(x, r). try_bind (read_items de n r) (\<lambda>(xs, r). Inr (x # xs, r)))"

lemma serialize_items_Some:
  "zcash_serialize_external_count (\<lambda>x. Some (f x)) xs = Some (concat (map f xs))"
  by (induction xs) auto

definition zcash_deserialize_external_count :: "nat \<Rightarrow> 'a reader \<Rightarrow> nat \<Rightarrow> 'a list reader" where
  "zcash_deserialize_external_count max_allocation de external_count bs =
     (if external_count > max_allocation then Inl (Parse ''Vector longer than max_allocation'')
      else read_items de external_count bs)"

definition zcash_serialize_vec :: "('a \<Rightarrow> bytes option) \<Rightarrow> 'a list \<Rightarrow> bytes option" where
  "zcash_serialize_vec ser xs =
     (case CompactSizeMessage_try_from (length xs) of
        Inl _ \<Rightarrow> None
      | Inr len \<Rightarrow> do {
          l \<leftarrow> CompactSizeMessage_serialize len;
          b \<leftarrow> zcash_serialize_external_count ser xs;
          Some (l @ b) })"

definition zcash_deserialize_vec :: "nat \<Rightarrow> 'a reader \<Rightarrow> 'a list reader" where
  "zcash_deserialize_vec max_allocation de bs =
     try_bind (CompactSizeMessage_deserialize bs) (\<lambda>(len, r).
       zcash_deserialize_external_count max_allocation de (unat len) r)"

definition AtLeastOne_try_from :: "'a list \<Rightarrow> SerializationError + 'a list" where
  "AtLeastOne_try_from v =
     (if v = [] then Inl (Parse ''expected at least one item'') else Inr v)"

definition AtLeastOne_deserialize :: "nat \<Rightarrow> 'a reader \<Rightarrow> 'a list reader" where
  "AtLeastOne_deserialize max_allocation de bs =
     try_bind (zcash_deserialize_vec max_allocation de bs) (\<lambda>(v, r).
     try_bind (AtLeastOne_try_from v) (\<lambda>v. Inr (v, r)))"

definition zcash_serialize_bytes :: "bytes \<Rightarrow> bytes option" where
  "zcash_serialize_bytes v =
     (case CompactSizeMessage_try_from (length v) of
        Inl _ \<Rightarrow> None
      | Inr len \<Rightarrow> do { l \<leftarrow> CompactSizeMessage_serialize len; Some (l @ v) })"

definition zcash_deserialize_bytes_external_count :: "nat \<Rightarrow> bytes reader" where
  "zcash_deserialize_bytes_external_count external_count bs =
     (if external_count > MAX_U8_ALLOCATION
      then Inl (Parse ''Byte vector longer than MAX_U8_ALLOCATION'')
      else read_exact external_count bs)"

definition zcash_deserialize_bytes :: "bytes reader" where
  "zcash_deserialize_bytes bs =
     try_bind (CompactSizeMessage_deserialize bs) (\<lambda>(len, r).
       zcash_deserialize_bytes_external_count (unat len) r)"

section \<open>Amounts on the wire\<close>

text \<open>The source has these for \<^verbatim>\<open>NegativeAllowed\<close> and \<^verbatim>\<open>NonNegative\<close> only.\<close>

definition amount_serialize :: "Constraint \<Rightarrow> amount \<Rightarrow> bytes option" where
  "amount_serialize C a =
     (case C of
        NonNegative \<Rightarrow> map_option u64_le (u64_from_amount a)
      | _ \<Rightarrow> Some (i64_le a))"

definition amount_deserialize :: "Constraint \<Rightarrow> amount reader" where
  "amount_deserialize C bs =
     (case C of
        NonNegative \<Rightarrow> try_bind (read_u64 bs) (\<lambda>(v, r).
          try_bind (map_err Amount_Error (try_from_u64 C v)) (\<lambda>a. Inr (a, r)))
      | _ \<Rightarrow> try_bind (read_i64 bs) (\<lambda>(v, r).
          try_bind (map_err Amount_Error (try_from_i64 C v)) (\<lambda>a. Inr (a, r))))"

section \<open>What the primitive reads accept\<close>

lemma read_exact_iff: "read_exact n bs = Inr (a, r) \<longleftrightarrow> bs = a @ r \<and> length a = n"
  by (auto simp: read_exact_def)

lemma read_u8_iff [wire_simps]: "read_u8 bs = Inr (b, r) \<longleftrightarrow> bs = b # r"
  by (auto simp: read_u8_def split: list.splits)

lemma read_word_iff [wire_simps]:
  "read_u16 bs = Inr (w, r) \<longleftrightarrow> bs = u16_le w @ r"
  "read_u32 bs = Inr (x, r) \<longleftrightarrow> bs = u32_le x @ r"
  "read_u64 bs = Inr (y, r) \<longleftrightarrow> bs = u64_le y @ r"
  by (auto simp: read_u16_def read_u32_def read_u64_def try_bind_Inr_iff read_exact_iff
      uN_of_le_le uN_le_of_le length_uN_le)

lemma read_bytes_iff [wire_simps]:
  "read_4_bytes bs = Inr (a, r) \<longleftrightarrow> bs = a @ r \<and> length a = 4"
  "read_12_bytes bs = Inr (a, r) \<longleftrightarrow> bs = a @ r \<and> length a = 12"
  "read_32_bytes bs = Inr (a, r) \<longleftrightarrow> bs = a @ r \<and> length a = 32"
  "read_64_bytes bs = Inr (a, r) \<longleftrightarrow> bs = a @ r \<and> length a = 64"
  by (simp_all add: read_4_bytes_def read_12_bytes_def read_32_bytes_def read_64_bytes_def
      read_exact_iff)

section \<open>Codec contracts\<close>

text \<open>A codec reads back what it wrote, whatever follows in the stream.\<close>

locale codec =
  fixes ser :: "'a \<Rightarrow> bytes option"
    and de :: "'a reader"
    and wf :: "'a \<Rightarrow> bool"
  assumes ser_total: "wf x \<Longrightarrow> \<exists>b. ser x = Some b"
    and de_ser: "wf x \<Longrightarrow> ser x = Some b \<Longrightarrow> de (b @ rest) = Inr (x, rest)"
begin

lemma prefix_free:
  assumes "wf x" "wf y" "ser x = Some a" "ser y = Some b" "a @ r = b @ s"
  shows "x = y \<and> a = b \<and> r = s"
  using de_ser[OF assms(1,3), of r] de_ser[OF assms(2,4), of s] assms by auto

lemma ser_items_total: "\<forall>x \<in> set xs. wf x \<Longrightarrow> \<exists>b. zcash_serialize_external_count ser xs = Some b"
proof (induction xs)
  case (Cons x xs)
  then show ?case using ser_total[of x] by auto
qed auto

lemma read_items_ser:
  assumes "\<forall>x \<in> set xs. wf x" and "zcash_serialize_external_count ser xs = Some b"
  shows "read_items de (length xs) (b @ rest) = Inr (xs, rest)"
  using assms
proof (induction xs arbitrary: b)
  case (Cons x xs)
  from Cons.prems(2) obtain b1 b2 where "ser x = Some b1"
    "zcash_serialize_external_count ser xs = Some b2" "b = b1 @ b2"
    by (auto elim!: bind_SomeE)
  with Cons show ?case by (simp add: de_ser[of x b1])
qed auto

end

text \<open>A canonical codec also accepts nothing else: each value has one encoding.\<close>

locale canonical_codec = codec +
  assumes ser_de: "de bs = Inr (x, rest) \<Longrightarrow> wf x \<and> (\<exists>b. ser x = Some b \<and> bs = b @ rest)"
begin

lemma de_iff: "de bs = Inr (x, rest) \<longleftrightarrow> wf x \<and> (\<exists>b. ser x = Some b \<and> bs = b @ rest)"
  using ser_de de_ser by blast

lemma read_items_iff:
  "read_items de n bs = Inr (xs, rest) \<longleftrightarrow> length xs = n \<and> (\<forall>x \<in> set xs. wf x) \<and>
     (\<exists>b. zcash_serialize_external_count ser xs = Some b \<and> bs = b @ rest)"
proof -
  have "length xs = n \<and> (\<forall>x \<in> set xs. wf x) \<and>
      (\<exists>b. zcash_serialize_external_count ser xs = Some b \<and> bs = b @ rest)"
    if "read_items de n bs = Inr (xs, rest)"
    using that
  proof (induction n arbitrary: bs xs)
    case (Suc n)
    then obtain x r ys where x: "de bs = Inr (x, r)" and ys: "read_items de n r = Inr (ys, rest)"
      and xs: "xs = x # ys"
      by (auto simp: try_bind_Inr_iff)
    from ser_de[OF x] Suc.IH[OF ys] xs show ?case by auto
  qed auto
  then show ?thesis using read_items_ser by auto
qed

end

section \<open>CompactSize is canonical\<close>

lemma unat_ucast_mod: "unat (ucast (w :: 'a::len word) :: 'b::len word) = unat w mod 2 ^ LENGTH('b)"
  by (simp add: unsigned_ucast_eq unsigned_take_bit_eq take_bit_eq_mod)

lemmas word_nat_defs = word_unat_eq_iff word_le_nat_alt word_less_nat_alt unat_ucast_mod

lemma narrow_u64:
  fixes n :: u64
  shows "n \<le> 0xfc \<Longrightarrow> ucast (ucast n :: byte) = n"
    and "n \<le> 0xffff \<Longrightarrow> ucast (ucast n :: u16) = n"
    and "n \<le> 0xffffffff \<Longrightarrow> ucast (ucast n :: u32) = n"
  by (simp_all add: word_nat_defs)

lemma widen_to_u64:
  "ucast (ucast (b :: byte) :: u64) = b" "ucast (ucast (w :: u16) :: u64) = w"
  "ucast (ucast (x :: u32) :: u64) = x"
  using unat_byte_less[of b] unat_uN_less(1)[of w] unat_uN_less(2)[of x]
  by (simp_all add: word_nat_defs)

lemma u64_size_classes:
  "(ucast (b :: byte) :: u64) \<le> 0xfc \<longleftrightarrow> b \<le> 0xfc"
  "(ucast (w :: u16) :: u64) \<le> 0xfc \<longleftrightarrow> \<not> 0xfd \<le> w" "(ucast w :: u64) \<le> 0xffff"
  "(ucast (x :: u32) :: u64) \<le> 0xffff \<longleftrightarrow> \<not> 0x10000 \<le> x"
  "0x10000 \<le> x \<Longrightarrow> \<not> (ucast x :: u64) \<le> 0xfc" "(ucast x :: u64) \<le> 0xffffffff"
  "0x100000000 \<le> (y :: u64) \<Longrightarrow> \<not> y \<le> 0xffffffff"
  "0x100000000 \<le> y \<Longrightarrow> \<not> y \<le> 0xffff" "0x100000000 \<le> y \<Longrightarrow> \<not> y \<le> 0xfc"
  using unat_byte_less[of b] unat_uN_less(1)[of w] unat_uN_less(2)[of x]
  by (auto simp: word_nat_defs)

lemma CompactSize64_de_ser: "CompactSize64_deserialize (CompactSize64_serialize n @ r) = Inr (n, r)"
proof -
  have rd: "read_u8 (b # s) = Inr (b, s)" "read_u16 (u16_le w @ s) = Inr (w, s)"
    "read_u32 (u32_le x @ s) = Inr (x, s)" "read_u64 (u64_le y @ s) = Inr (y, s)" for b w x y s
    by (simp_all add: wire_simps)
  consider "n \<le> 0xfc" | "\<not> n \<le> 0xfc" "n \<le> 0xffff" | "\<not> n \<le> 0xffff" "n \<le> 0xffffffff"
    | "\<not> n \<le> 0xffffffff" by blast
  then show ?thesis
  proof cases
    case 1
    then show ?thesis
      using u64_size_classes(1)[of "ucast n"]
      by (simp add: CompactSize64_serialize_def CompactSize64_deserialize_def rd narrow_u64)
  next
    case 2
    then show ?thesis
      using u64_size_classes(2)[of "ucast n"]
      by (simp add: CompactSize64_serialize_def CompactSize64_deserialize_def rd narrow_u64)
  next
    case 3
    then have "\<not> n \<le> 0xfc" by (auto simp: word_nat_defs)
    with 3 show ?thesis
      using u64_size_classes(4)[of "ucast n"]
      by (simp add: CompactSize64_serialize_def CompactSize64_deserialize_def rd narrow_u64)
  next
    case 4
    then have "0x100000000 \<le> n" by (auto simp: word_nat_defs)
    with 4 u64_size_classes(8,9)[of n] show ?thesis
      by (simp add: CompactSize64_serialize_def CompactSize64_deserialize_def rd)
  qed
qed

lemma CompactSize64_ser_de:
  assumes "CompactSize64_deserialize bs = Inr (n, r)"
  shows "bs = CompactSize64_serialize n @ r"
proof -
  have flags: "b \<le> 0xfc \<or> b = 0xfd \<or> b = 0xfe \<or> b = 0xff" for b :: byte
    using unat_byte_less[of b] by (auto simp: word_nat_defs)
  obtain b s where bs: "bs = b # s"
    using assms by (auto simp: CompactSize64_deserialize_def try_bind_Inr_iff wire_simps)
  then show ?thesis
    using assms flags[of b]
    by (auto simp: CompactSize64_deserialize_def CompactSize64_serialize_def try_bind_Inr_iff
        wire_simps widen_to_u64 u64_size_classes split: if_splits)
qed

interpretation compact_size64: canonical_codec
  "\<lambda>n. Some (CompactSize64_serialize n)" CompactSize64_deserialize "\<lambda>_. True"
  by unfold_locales (auto simp: CompactSize64_de_ser CompactSize64_ser_de)

section \<open>Message sizes and byte vectors\<close>

lemmas size_limits = MAX_PROTOCOL_MESSAGE_LEN_def MAX_U8_ALLOCATION_def

lemma CompactSizeMessage_try_from_iff:
  "CompactSizeMessage_try_from n = Inr m \<longleftrightarrow> n \<le> MAX_PROTOCOL_MESSAGE_LEN \<and> unat m = n"
proof -
  have "unat (of_nat n :: u32) = n" if "n \<le> MAX_PROTOCOL_MESSAGE_LEN"
    using that by (simp add: unat_of_nat size_limits)
  then show ?thesis
    by (auto simp: CompactSizeMessage_try_from_def size_limits)
qed

lemma unat_ucast_u32 [simp]: "unat (ucast (m :: u32) :: u64) = unat m"
  using unat_uN_less(2)[of m] by (simp add: unat_ucast_mod)

lemma CompactSizeMessage_de_iff:
  "CompactSizeMessage_deserialize bs = Inr (m, r) \<longleftrightarrow>
    unat m \<le> MAX_PROTOCOL_MESSAGE_LEN \<and>
    (\<exists>b. CompactSizeMessage_serialize m = Some b \<and> bs = b @ r)"
proof -
  have "unat m = unat (n :: u64) \<longleftrightarrow> n = ucast m" for n
    using unat_uN_less(2)[of m] by (auto simp: word_nat_defs)
  then show ?thesis
    by (auto simp: CompactSizeMessage_deserialize_def CompactSizeMessage_serialize_def
        try_bind_Inr_iff compact_size64.de_iff CompactSizeMessage_try_from_iff)
qed

interpretation compact_size_message: canonical_codec
  CompactSizeMessage_serialize CompactSizeMessage_deserialize
  "\<lambda>m. unat m \<le> MAX_PROTOCOL_MESSAGE_LEN"
  by unfold_locales (auto simp: CompactSizeMessage_de_iff, simp add: CompactSizeMessage_serialize_def)

lemma vec_length_prefix:
  assumes "n \<le> MAX_PROTOCOL_MESSAGE_LEN"
  obtains l where "CompactSizeMessage_try_from n = Inr (of_nat n)"
    and "CompactSizeMessage_serialize (of_nat n) = Some l"
    and "\<And>bs m r. CompactSizeMessage_deserialize bs = Inr (m, r) \<and> unat m = n \<longleftrightarrow>
      m = of_nat n \<and> bs = l @ r"
proof -
  have n: "unat (of_nat n :: u32) = n" using assms by (simp add: unat_of_nat size_limits)
  obtain l where l: "CompactSizeMessage_serialize (of_nat n) = Some l"
    using compact_size_message.ser_total[of "of_nat n"] assms n by auto
  have "unat m = n \<Longrightarrow> m = of_nat n" for m :: u32 using n by auto
  then have "CompactSizeMessage_deserialize bs = Inr (m, r) \<and> unat m = n \<longleftrightarrow>
      m = of_nat n \<and> bs = l @ r" for bs m r
    using assms l by (auto simp: CompactSizeMessage_de_iff n)
  then show thesis
    using that[of l] assms n l by (simp add: CompactSizeMessage_try_from_iff)
qed

lemma bytes_external_count_iff:
  "zcash_deserialize_bytes_external_count n bs = Inr (v, r) \<longleftrightarrow>
    length v \<le> MAX_U8_ALLOCATION \<and> n = length v \<and> bs = v @ r"
  by (auto simp: zcash_deserialize_bytes_external_count_def read_exact_iff)

lemma zcash_bytes_de_iff:
  "zcash_deserialize_bytes bs = Inr (v, r) \<longleftrightarrow>
    length v \<le> MAX_U8_ALLOCATION \<and> (\<exists>b. zcash_serialize_bytes v = Some b \<and> bs = b @ r)"
proof (cases "length v \<le> MAX_U8_ALLOCATION")
  case True
  then obtain l where l: "CompactSizeMessage_try_from (length v) = Inr (of_nat (length v))"
    "CompactSizeMessage_serialize (of_nat (length v)) = Some l"
    "\<And>bs m r. CompactSizeMessage_deserialize bs = Inr (m, r) \<and> unat m = length v \<longleftrightarrow>
      m = of_nat (length v) \<and> bs = l @ r"
    using vec_length_prefix[of "length v"] by (auto simp: size_limits)
  have "zcash_deserialize_bytes bs = Inr (v, r) \<longleftrightarrow>
      (\<exists>m. CompactSizeMessage_deserialize bs = Inr (m, v @ r) \<and> unat m = length v)"
    using True
    by (auto simp: zcash_deserialize_bytes_def try_bind_Inr_iff bytes_external_count_iff)
  with True show ?thesis by (simp add: l zcash_serialize_bytes_def)
next
  case False
  then show ?thesis
    by (auto simp: zcash_deserialize_bytes_def try_bind_Inr_iff bytes_external_count_iff)
qed

lemma zcash_serialize_bytes_total:
  "length v \<le> MAX_U8_ALLOCATION \<Longrightarrow> \<exists>b. zcash_serialize_bytes v = Some b"
  by (rule vec_length_prefix[of "length v"]) (auto simp: zcash_serialize_bytes_def size_limits)

interpretation byte_vec: canonical_codec
  zcash_serialize_bytes zcash_deserialize_bytes "\<lambda>v. length v \<le> MAX_U8_ALLOCATION"
  by unfold_locales (auto simp: zcash_bytes_de_iff zcash_serialize_bytes_total)

section \<open>Vectors of items\<close>

text \<open>A vector of canonically encoded items is canonically encoded, up to the item type's
  \<^verbatim>\<open>TrustedPreallocate::max_allocation\<close>.\<close>

locale canonical_vec = canonical_codec +
  fixes max_allocation :: nat
begin

definition wf_vec where
  "wf_vec xs \<longleftrightarrow> (\<forall>x \<in> set xs. wf x) \<and> length xs \<le> max_allocation \<and>
     length xs \<le> MAX_PROTOCOL_MESSAGE_LEN"

lemma external_count_iff:
  "zcash_deserialize_external_count max_allocation de n bs = Inr (xs, r) \<longleftrightarrow>
    n = length xs \<and> length xs \<le> max_allocation \<and> (\<forall>x \<in> set xs. wf x) \<and>
    (\<exists>b. zcash_serialize_external_count ser xs = Some b \<and> bs = b @ r)"
  by (auto simp: zcash_deserialize_external_count_def read_items_iff)

lemma vec_de_iff:
  "zcash_deserialize_vec max_allocation de bs = Inr (xs, r) \<longleftrightarrow>
    wf_vec xs \<and> (\<exists>b. zcash_serialize_vec ser xs = Some b \<and> bs = b @ r)"
proof (cases "length xs \<le> MAX_PROTOCOL_MESSAGE_LEN")
  case True
  then obtain l where l: "CompactSizeMessage_try_from (length xs) = Inr (of_nat (length xs))"
    "CompactSizeMessage_serialize (of_nat (length xs)) = Some l"
    "\<And>bs m r. CompactSizeMessage_deserialize bs = Inr (m, r) \<and> unat m = length xs \<longleftrightarrow>
      m = of_nat (length xs) \<and> bs = l @ r"
    using vec_length_prefix[of "length xs"] by blast
  have "zcash_deserialize_vec max_allocation de bs = Inr (xs, r) \<longleftrightarrow>
      length xs \<le> max_allocation \<and> (\<forall>x \<in> set xs. wf x) \<and>
      (\<exists>b. zcash_serialize_external_count ser xs = Some b \<and>
        (\<exists>m. CompactSizeMessage_deserialize bs = Inr (m, b @ r) \<and> unat m = length xs))"
    by (auto simp: zcash_deserialize_vec_def try_bind_Inr_iff external_count_iff)
  with True show ?thesis
    by (auto simp: l zcash_serialize_vec_def wf_vec_def elim!: bind_SomeE)
next
  case False
  have "length xs \<le> MAX_PROTOCOL_MESSAGE_LEN"
    if "zcash_deserialize_vec max_allocation de bs = Inr (xs, r)"
    using that by (auto simp: zcash_deserialize_vec_def try_bind_Inr_iff external_count_iff
        CompactSizeMessage_de_iff)
  with False show ?thesis by (auto simp: wf_vec_def)
qed

lemma vec_ser_total: "wf_vec xs \<Longrightarrow> \<exists>b. zcash_serialize_vec ser xs = Some b"
  using ser_items_total[of xs]
  by (auto simp: wf_vec_def zcash_serialize_vec_def intro: vec_length_prefix[of "length xs"])

end

sublocale canonical_vec \<subseteq> vec: canonical_codec
  "zcash_serialize_vec ser" "zcash_deserialize_vec max_allocation de" wf_vec
  by unfold_locales (auto simp: vec_de_iff vec_ser_total)

section \<open>Amounts\<close>

lemma i64_le_of_le:
  assumes "length bs = 8"
  shows "i64_le (i64_of_le bs) = bs" and "in_i64 (i64_of_le bs)"
proof -
  have lt: "le_value bs < 2 ^ 64" using le_value_less[of bs] assms by simp
  then have "i64_of_le bs mod 2 ^ 64 = int (le_value bs)"
    by (auto simp: i64_of_le_def Let_def)
  then show "i64_le (i64_of_le bs) = bs"
    using le_bytes_le_value[of bs] assms by (simp add: i64_le_def del: le_bytes_le_value)
  show "in_i64 (i64_of_le bs)"
    using lt by (auto simp: i64_of_le_def Let_def i64_defs)
qed

lemma read_i64_iff [wire_simps]: "read_i64 bs = Inr (v, r) \<longleftrightarrow> in_i64 v \<and> bs = i64_le v @ r"
  by (auto simp: read_i64_def try_bind_Inr_iff read_exact_iff i64_le_of_le i64_of_le_i64_le)

lemma u64_from_amount_iff: "u64_from_amount a = Some v \<longleftrightarrow> a = uint v"
proof -
  have "uint v < 2 ^ 64" using uint_lt2p[of v] by simp
  then show ?thesis 
    by (auto simp: u64_from_amount_def uint_word_of_int_eq take_bit_int_eq_self)
qed

lemma amount_de_iff:
  "amount_deserialize C bs = Inr (a, r) \<longleftrightarrow>
    valid C a \<and> (\<exists>b. amount_serialize C a = Some b \<and> bs = b @ r)"
proof (cases C)
  case NonNegative
  have "try_from_u64 NonNegative v = Inr a \<longleftrightarrow> valid NonNegative a \<and> a = uint v" for v
    by (auto simp: try_from_u64_def try_bind_Inr_iff valid_in_i64 split: if_splits)
  then show ?thesis
    by (auto simp: NonNegative amount_deserialize_def amount_serialize_def try_bind_Inr_iff
        wire_simps u64_from_amount_iff)
qed (auto simp: amount_deserialize_def amount_serialize_def try_bind_Inr_iff wire_simps
    try_from_i64_def valid_in_i64)

lemma amount_serialize_total: "valid C a \<Longrightarrow> \<exists>b. amount_serialize C a = Some b"
  by (cases C) (auto simp: amount_serialize_def u64_from_amount_def valid_iff money_defs)

interpretation amount_codec: canonical_codec "amount_serialize C" "amount_deserialize C" "valid C"
  for C
  by unfold_locales (auto simp: amount_de_iff amount_serialize_total)

section \<open>Properties\<close>

text \<open>C35: the CompactSize reader accepts exactly the bytes the writer produces: every \<^verbatim>\<open>u64\<close> is
  read back, whatever follows it, and every longer-than-needed encoding is refused.\<close>

theorem compact_size_canonical:
  "CompactSize64_deserialize bs = Inr (n, rest) \<longleftrightarrow> bs = CompactSize64_serialize n @ rest"
  using CompactSize64_de_ser CompactSize64_ser_de by blast

text \<open>Message sizes are bounded: a \<^verbatim>\<open>CompactSizeMessage\<close> that is read is at most
  \<^verbatim>\<open>MAX_PROTOCOL_MESSAGE_LEN\<close>, so serializing it does not hit the assertion, and the byte vector
  that follows it is read exactly when it is at most \<^verbatim>\<open>MAX_U8_ALLOCATION\<close> bytes long and present.\<close>

theorem byte_vector_bounded_and_canonical:
  "zcash_deserialize_bytes bs = Inr (v, rest) \<longleftrightarrow>
    length v \<le> MAX_U8_ALLOCATION \<and> (\<exists>b. zcash_serialize_bytes v = Some b \<and> bs = b @ rest)"
  by (rule byte_vec.de_iff)

text \<open>An amount is read from the wire exactly when its eight bytes are the encoding of a
  value that meets the constraint, and serializing a valid amount never panics.\<close>

theorem amount_wire_canonical:
  assumes "valid C a"
  shows "\<exists>b. amount_serialize C a = Some b \<and> length b = 8 \<and>
    (\<forall>bs rest. amount_deserialize C bs = Inr (a, rest) \<longleftrightarrow> bs = b @ rest)"
proof -
  obtain b where "amount_serialize C a = Some b" using amount_serialize_total[OF assms] by blast
  moreover from this have "length b = 8"
    by (cases C) (auto simp: amount_serialize_def)
  ultimately show ?thesis using assms by (simp add: amount_de_iff)
qed

theorem amount_wire_canonical_witness:
  "valid NonNegative 1 \<and> (\<exists>b. amount_serialize NonNegative 1 = Some b \<and> length b = 8)"
  using amount_wire_canonical[of NonNegative 1] by (auto simp: valid_iff money_defs)

end
