(* ===== verification/Height.thy ===== *)
theory Height
  imports Wire_Format
begin

text \<open>
  Block heights (\<^verbatim>\<open>zebra-chain/src/block/height.rs\<close>): a \<^verbatim>\<open>u32\<close> whose valid range ends at
  \<^verbatim>\<open>u32::MAX / 2\<close>, with differences in \<^verbatim>\<open>i64\<close>. Arithmetic in \<^verbatim>\<open>i64\<close> wraps.
\<close>

section \<open>Heights and their order\<close>

datatype Height = Height (height_u32: u32)

instantiation Height :: linorder
begin

definition less_eq_Height :: "Height \<Rightarrow> Height \<Rightarrow> bool" where
  "less_eq_Height a b \<longleftrightarrow> height_u32 a \<le> height_u32 b"

definition less_Height :: "Height \<Rightarrow> Height \<Rightarrow> bool" where
  "less_Height a b \<longleftrightarrow> height_u32 a < height_u32 b"

instance
  by standard (auto simp: less_eq_Height_def less_Height_def Height.expand)

end

abbreviation height_nat :: "Height \<Rightarrow> nat" where
  "height_nat h \<equiv> unat (height_u32 h)"

definition Height_MIN :: Height where "Height_MIN = Height 0"

definition Height_MAX :: Height where "Height_MAX = Height 0x7fffffff"

definition MAX_AS_U32 :: u32 where "MAX_AS_U32 = height_u32 Height_MAX"

definition MAX_EXPIRY_HEIGHT :: Height where "MAX_EXPIRY_HEIGHT = Height 499999999"

datatype HeightError = Overflow | Underflow

section \<open>Operations\<close>

definition wrap_i64 :: "int \<Rightarrow> int" where
  "wrap_i64 v = (v + 2 ^ 63) mod 2 ^ 64 - 2 ^ 63"

definition height_try_from :: "u32 \<Rightarrow> string + Height" where
  "height_try_from h =
     (if h \<le> height_u32 Height_MAX then Inr (Height h)
      else Inl ''heights must be less than or equal to Height::MAX'')"

definition u32_try_from_int :: "int \<Rightarrow> u32 option" where
  "u32_try_from_int v = (if 0 \<le> v \<and> v < 2 ^ 32 then Some (of_int v) else None)"

definition try_into_height :: "int \<Rightarrow> Height option" where
  "try_into_height v = do {
     h \<leftarrow> u32_try_from_int v;
     case height_try_from h of Inl _ \<Rightarrow> None | Inr x \<Rightarrow> Some x }"

definition height_diff :: "Height \<Rightarrow> Height \<Rightarrow> int" where
  "height_diff a b = wrap_i64 (uint (height_u32 a) - uint (height_u32 b))"

definition height_sub :: "Height \<Rightarrow> int \<Rightarrow> Height option" where
  "height_sub h d = do {
     res \<leftarrow> u32_try_from_int (wrap_i64 (uint (height_u32 h) - d));
     case height_try_from res of Inl _ \<Rightarrow> None | Inr x \<Rightarrow> Some x }"

definition height_add :: "Height \<Rightarrow> int \<Rightarrow> Height option" where
  "height_add h d = do {
     res \<leftarrow> u32_try_from_int (wrap_i64 (uint (height_u32 h) + d));
     case height_try_from res of Inl _ \<Rightarrow> None | Inr x \<Rightarrow> Some x }"

definition height_next :: "Height \<Rightarrow> HeightError + Height" where
  "height_next h = (case height_add h 1 of None \<Rightarrow> Inl Overflow | Some x \<Rightarrow> Inr x)"

definition height_previous :: "Height \<Rightarrow> HeightError + Height" where
  "height_previous h = (case height_sub h 1 of None \<Rightarrow> Inl Underflow | Some x \<Rightarrow> Inr x)"

definition height_is_min :: "Height \<Rightarrow> bool" where
  "height_is_min h \<longleftrightarrow> h = Height_MIN"

definition as_usize :: "Height \<Rightarrow> nat" where
  "as_usize h = unat (height_u32 h)"

text \<open>\<^verbatim>\<open>str::parse::<u32>\<close>: an optional plus sign, then at least one decimal digit, in range.\<close>

fun parse_digits :: "nat \<Rightarrow> string \<Rightarrow> nat option" where
  "parse_digits acc [] = Some acc"
| "parse_digits acc (c # cs) =
     (let d = of_char c :: nat in
      if 48 \<le> d \<and> d \<le> 57 then
        (if acc * 10 + (d - 48) < 2 ^ 32 then parse_digits (acc * 10 + (d - 48)) cs else None)
      else None)"

definition parse_u32 :: "string \<Rightarrow> u32 option" where
  "parse_u32 s =
     (let digits = (case s of c # cs \<Rightarrow> if c = CHR ''+'' then cs else s | [] \<Rightarrow> [])
      in if digits = [] then None else map_option of_nat (parse_digits 0 digits))"

definition height_from_str :: "string \<Rightarrow> SerializationError + Height" where
  "height_from_str s = (case parse_u32 s of
      Some h \<Rightarrow> if Height h \<le> Height_MAX then Inr (Height h)
               else Inl (Parse ''Height exceeds maximum height'')
    | None \<Rightarrow> Inl (Parse ''Height(u32) integer parse error''))"

section \<open>Arithmetic is exact\<close>

lemma wrap_i64_eq: "in_i64 v \<Longrightarrow> wrap_i64 v = v"
  by (simp add: wrap_i64_def i64_defs)

lemma height_uint_bounds: "0 \<le> uint (w :: u32)" "uint (w :: u32) < 2 ^ 32"
  using uint_lt2p[of w] by simp_all

lemma height_try_from_ok:
  "u32_try_from_int v \<bind> (\<lambda>h. case height_try_from h of Inl _ \<Rightarrow> None | Inr x \<Rightarrow> Some x) =
    (if 0 \<le> v \<and> v \<le> 0x7fffffff then Some (Height (of_int v)) else None)"
proof -
  have "(of_int v :: u32) \<le> 0x7fffffff \<longleftrightarrow> v \<le> 0x7fffffff" if "0 \<le> v" "v < 2 ^ 32"
    using that by (simp add: word_le_def uint_word_of_int_eq take_bit_int_eq_self)
  then show ?thesis
    by (auto simp: u32_try_from_int_def height_try_from_def Height_MAX_def)
qed

lemma wrapped_height:
  assumes "in_i64 d" and "0 \<le> u" and "u < 2 ^ 32"
  shows "0 \<le> wrap_i64 (u + d) \<and> wrap_i64 (u + d) \<le> 0x7fffffff \<longleftrightarrow> 0 \<le> u + d \<and> u + d \<le> 0x7fffffff"
    and "0 \<le> u + d \<Longrightarrow> u + d \<le> 0x7fffffff \<Longrightarrow> wrap_i64 (u + d) = u + d"
    and "0 \<le> wrap_i64 (u - d) \<and> wrap_i64 (u - d) \<le> 0x7fffffff \<longleftrightarrow> 0 \<le> u - d \<and> u - d \<le> 0x7fffffff"
    and "0 \<le> u - d \<Longrightarrow> u - d \<le> 0x7fffffff \<Longrightarrow> wrap_i64 (u - d) = u - d"
proof -
  have wrap: "wrap_i64 v = (if in_i64 v then v else if v < 0 then v + 2 ^ 64 else v - 2 ^ 64)"
    if "- (2 ^ 64) < v" "v < 2 ^ 64" for v
  proof -
    have "(v + 2 ^ 63) mod 2 ^ 64 = v + 2 ^ 63 + 2 ^ 64" if "v < - (2 ^ 63)"
    proof -
      have "(v + 2 ^ 63 + 2 ^ 64) mod 2 ^ 64 = v + 2 ^ 63 + 2 ^ 64"
        by (rule mod_pos_pos_trivial) (use that \<open>- (2 ^ 64) < v\<close> in simp_all)
      then show ?thesis by (simp only: mod_add_self2)
    qed
    moreover have "(v + 2 ^ 63) mod 2 ^ 64 = v + 2 ^ 63 - 2 ^ 64" if "2 ^ 63 \<le> v"
    proof -
      have "(v + 2 ^ 63 - 2 ^ 64) mod 2 ^ 64 = v + 2 ^ 63 - 2 ^ 64"
        by (rule mod_pos_pos_trivial) (use that \<open>v < 2 ^ 64\<close> in simp_all)
      then show ?thesis by (simp only: minus_mod_self2)
    qed
    ultimately show ?thesis
      using wrap_i64_eq[of v] by (auto simp: wrap_i64_def i64_defs)
  qed
  show "0 \<le> wrap_i64 (u + d) \<and> wrap_i64 (u + d) \<le> 0x7fffffff \<longleftrightarrow> 0 \<le> u + d \<and> u + d \<le> 0x7fffffff"
    and "0 \<le> wrap_i64 (u - d) \<and> wrap_i64 (u - d) \<le> 0x7fffffff \<longleftrightarrow> 0 \<le> u - d \<and> u - d \<le> 0x7fffffff"
    using assms wrap[of "u + d"] wrap[of "u - d"] by (auto simp: i64_defs)
  show "0 \<le> u + d \<Longrightarrow> u + d \<le> 0x7fffffff \<Longrightarrow> wrap_i64 (u + d) = u + d"
    and "0 \<le> u - d \<Longrightarrow> u - d \<le> 0x7fffffff \<Longrightarrow> wrap_i64 (u - d) = u - d"
    by (simp_all add: wrap_i64_eq i64_defs)
qed

lemma height_add_eq:
  assumes "in_i64 d"
  shows "height_add h d = (let v = int (height_nat h) + d in
    if 0 \<le> v \<and> v \<le> 0x7fffffff then Some (Height (of_int v)) else None)"
  unfolding height_add_def height_try_from_ok Let_def
  using wrapped_height(1,2)[OF assms height_uint_bounds, of "height_u32 h"] by auto

lemma height_sub_eq:
  assumes "in_i64 d"
  shows "height_sub h d = (let v = int (height_nat h) - d in
    if 0 \<le> v \<and> v \<le> 0x7fffffff then Some (Height (of_int v)) else None)"
  unfolding height_sub_def height_try_from_ok Let_def
  using wrapped_height(3,4)[OF assms height_uint_bounds, of "height_u32 h"] by auto

lemma uint_diff_in_i64: "in_i64 (uint (a :: u32) - uint (b :: u32))"
proof -
  have "in_i64 (x - y)" if "0 \<le> x" "x < 2 ^ 32" "0 \<le> y" "y < 2 ^ 32" for x y
    using that by (simp add: i64_defs)
  then show ?thesis using height_uint_bounds[of a] height_uint_bounds[of b] by blast
qed

lemma height_diff_eq: "height_diff a b = int (height_nat a) - int (height_nat b)"
  by (simp add: height_diff_def wrap_i64_eq uint_diff_in_i64)

lemma height_nat_of_int [simp]:
  "0 \<le> v \<Longrightarrow> v \<le> 0x7fffffff \<Longrightarrow> int (height_nat (Height (of_int v))) = v"
  by (simp add: uint_word_of_int_eq take_bit_int_eq_self)

lemma unat_of_int_u32: "0 \<le> v \<Longrightarrow> v \<le> 0x7fffffff \<Longrightarrow> unat (of_int v :: u32) = nat v"
  using height_nat_of_int[of v] by (metis Height.sel nat_int)

lemma height_nat_if:
  "map_option height_nat (if 0 \<le> v \<and> v \<le> 0x7fffffff then Some (Height (of_int v)) else None) =
    (if 0 \<le> v \<and> v \<le> 0x7fffffff then Some (nat v) else None)"
  by (simp add: unat_of_int_u32)

lemma Height_le_iff: "a \<le> b \<longleftrightarrow> height_nat a \<le> height_nat b"
  by (simp add: less_eq_Height_def word_le_nat_alt)

lemma Height_less_iff: "a < b \<longleftrightarrow> height_nat a < height_nat b"
  by (simp add: less_Height_def word_less_nat_alt)

lemma Height_MAX_nat [simp]: "height_nat Height_MAX = 0x7fffffff"
  by (simp add: Height_MAX_def)

section \<open>Properties\<close>

text \<open>C37: adding or subtracting any \<^verbatim>\<open>i64\<close> difference gives the exact height when that lies in the
  valid range and \<open>None\<close> otherwise (the wrap-around of the \<^verbatim>\<open>i64\<close> intermediate is never visible),
  the difference of two heights is exact, and adding it back gives the first height.\<close>

theorem height_arithmetic_exact:
  assumes "in_i64 d" and "a \<le> Height_MAX"
  shows "map_option height_nat (height_add h d) =
      (if 0 \<le> int (height_nat h) + d \<and> int (height_nat h) + d \<le> int (height_nat Height_MAX)
       then Some (nat (int (height_nat h) + d)) else None) \<and>
    map_option height_nat (height_sub h d) =
      (if 0 \<le> int (height_nat h) - d \<and> int (height_nat h) - d \<le> int (height_nat Height_MAX)
       then Some (nat (int (height_nat h) - d)) else None) \<and>
    height_diff a b = int (height_nat a) - int (height_nat b) \<and>
    height_add b (height_diff a b) = Some a"
proof -
  have d: "in_i64 (height_diff a b)"
    by (simp add: height_diff_eq uint_diff_in_i64)
  have "height_nat a \<le> 0x7fffffff" using assms(2) by (simp add: Height_le_iff)
  then have "height_add b (height_diff a b) = Some a"
    unfolding height_add_eq[OF d] Let_def unfolding height_diff_eq
    by (cases a) (simp add: uint_nat del: of_nat_unat, simp)
  moreover have "int (height_nat Height_MAX) = 0x7fffffff" by simp
  ultimately show ?thesis
    unfolding height_add_eq[OF assms(1)] height_sub_eq[OF assms(1)] Let_def height_nat_if
    by (simp only: height_diff_eq simp_thms)
qed

theorem height_arithmetic_exact_witness:
  "in_i64 (2 ^ 63 - 1) \<and> height_add (Height 5) (2 ^ 63 - 1) = None \<and>
   height_add (Height 4) (height_diff (Height 9) (Height 4)) = Some (Height 9)"
  using height_arithmetic_exact[of "2 ^ 63 - 1" "Height 9" "Height 5" "Height 4"]
  by (auto simp: i64_defs Height_le_iff)

text \<open>Every checked way to make a height gives one at most \<^verbatim>\<open>Height::MAX\<close>: the conversion
  from \<^verbatim>\<open>u32\<close> and wider integers, parsing, \<^verbatim>\<open>next\<close> and \<^verbatim>\<open>previous\<close>; \<^verbatim>\<open>next\<close> fails exactly at or above
  the maximum and returns an error there rather than panicking.\<close>

theorem heights_stay_in_range:
  "(height_try_from w = Inr h \<longrightarrow> h \<le> Height_MAX) \<and>
   (try_into_height v = Some h \<longrightarrow> h \<le> Height_MAX) \<and>
   (height_from_str s = Inr h \<longrightarrow> h \<le> Height_MAX) \<and>
   (height_next g = Inr h \<longleftrightarrow> g < Height_MAX \<and> height_nat h = height_nat g + 1) \<and>
   (height_next g = Inl Overflow \<longleftrightarrow> g \<ge> Height_MAX)"
proof -
  have one: "in_i64 1" by (simp add: i64_defs)
  have "k \<le> 2147483646 \<longleftrightarrow> n < 2147483647" if "k = int n" for k :: int and n using that by auto
  then have g: "uint (height_u32 g) \<le> 2147483646 \<longleftrightarrow> height_nat g < 2147483647"
    by (metis uint_nat)
  have "height_next g = (if g < Height_MAX then Inr (Height (of_int (int (height_nat g) + 1)))
      else Inl Overflow)"
    using g by (simp add: height_next_def height_add_eq[OF one] Let_def Height_less_iff)
  moreover have "height_nat (Height (of_int (int (height_nat g) + 1))) = height_nat g + 1"
    if "g < Height_MAX"
    using that unat_of_int_u32[of "int (height_nat g) + 1"]
    unfolding Height_less_iff Height_MAX_nat Height.sel by linarith
  moreover have "h = Height (of_int (int (height_nat g) + 1))" if "height_nat h = height_nat g + 1"
  proof -
    have "int (height_nat g) + 1 = int (height_nat h)" unfolding that by simp
    then show ?thesis by (simp only:) (cases h, simp)
  qed
  ultimately have "(height_next g = Inr h \<longleftrightarrow> g < Height_MAX \<and> height_nat h = height_nat g + 1) \<and>
      (height_next g = Inl Overflow \<longleftrightarrow> g \<ge> Height_MAX)"
    by (auto simp: not_less)
  moreover have "height_try_from w = Inr h \<Longrightarrow> h \<le> Height_MAX" for w
    by (auto simp: height_try_from_def less_eq_Height_def split: if_splits)
  moreover from this have "try_into_height v = Some h \<Longrightarrow> h \<le> Height_MAX"
    by (auto simp: try_into_height_def split: sum.splits elim!: bind_SomeE)
  ultimately show ?thesis
    by (auto simp: height_from_str_def split: option.splits if_splits)
qed

theorem heights_stay_in_range_witness:
  "height_from_str ''+42'' = Inr (Height 42) \<and> Height 42 \<le> Height_MAX \<and>
   height_next (Height 5) = Inr (Height 6)"
proof -
  have parse: "height_from_str ''+42'' = Inr (Height 42)"
    by (simp add: height_from_str_def parse_u32_def Let_def less_eq_Height_def Height_MAX_def)
  show ?thesis
    using heights_stay_in_range[of 0 "Height 42" 0 "''+42''" "Height 5"]
      heights_stay_in_range[of 0 "Height 6" 0 "''''" "Height 5"] parse
    by (simp add: Height_less_iff)
qed

end
