(* ===== verification/Fat_Pointer.thy ===== *)
theory Fat_Pointer
  imports Wire_Format
begin

text \<open>
  Votes and fat pointers. A fat pointer is the part of a vote that all finalizers share, with the
  signatures of those who cast it. \<^verbatim>\<open>zebra-chain/src/block/header.rs\<close> has the type that block
  headers carry, \<^verbatim>\<open>zebra-crosslink/src/lib.rs\<close> the one that BFT blocks and the finality service
  use (suffix 2) and the 76-byte vote. Fixed-size arrays are byte lists; \<open>wf_\<dots>\<close> fixes the lengths.
  Ed25519 batch verification is a parameter.
\<close>

section \<open>Fat pointers in block headers\<close>

record FatPointerSignature =
  public_key :: bytes
  vote_signature :: bytes

record FatPointerToBftBlock =
  vote_for_block_without_finalizer_public_key :: bytes
  signatures :: "FatPointerSignature list"

definition FatPointerSignature_to_bytes :: "FatPointerSignature \<Rightarrow> bytes" where
  "FatPointerSignature_to_bytes s = public_key s @ vote_signature s"

definition FatPointerSignature_from_bytes :: "bytes \<Rightarrow> FatPointerSignature" where
  "FatPointerSignature_from_bytes bs =
     \<lparr>public_key = slice 0 32 bs, vote_signature = slice 32 (32 + 64) bs\<rparr>"

definition FatPointer_null :: FatPointerToBftBlock where
  "FatPointer_null =
     \<lparr>vote_for_block_without_finalizer_public_key = replicate (76 - 32) 0, signatures = []\<rparr>"

definition FatPointer_to_bytes :: "FatPointerToBftBlock \<Rightarrow> bytes" where
  "FatPointer_to_bytes p =
     vote_for_block_without_finalizer_public_key p @ u16_le (of_nat (length (signatures p))) @
     concat (map FatPointerSignature_to_bytes (signatures p))"

fun chunks_exact :: "nat \<Rightarrow> 'a list \<Rightarrow> 'a list list" where
  "chunks_exact n xs =
     (if n = 0 \<or> length xs < n then [] else take n xs # chunks_exact n (drop n xs))"

declare chunks_exact.simps [simp del]

definition FatPointer_try_from_bytes :: "bytes \<Rightarrow> FatPointerToBftBlock option option" where
  "FatPointer_try_from_bytes bs =
     (if length bs < 76 - 32 + 2 then Some None
      else do {
        v \<leftarrow> index_range 0 (76 - 32) bs;
        l \<leftarrow> index_range (76 - 32) 2 bs;
        let len = unat (u16_of_le l) in
        if 76 - 32 + 2 + len * (32 + 64) > length bs then Some None
        else Some (Some \<lparr>vote_for_block_without_finalizer_public_key = v,
               signatures = map FatPointerSignature_from_bytes
                 (chunks_exact (32 + 64) (drop (76 - 32 + 2) bs))\<rparr>) })"

definition FatPointer_points_at_block_hash :: "FatPointerToBftBlock \<Rightarrow> bytes" where
  "FatPointer_points_at_block_hash p = slice 0 32 (vote_for_block_without_finalizer_public_key p)"

definition FatPointer_serialize :: "FatPointerToBftBlock \<Rightarrow> bytes" where
  "FatPointer_serialize p =
     vote_for_block_without_finalizer_public_key p @ u16_le (of_nat (length (signatures p))) @
     concat (map FatPointerSignature_to_bytes (signatures p))"

definition read_FatPointerSignature :: "FatPointerSignature reader" where
  "read_FatPointerSignature bs =
     try_bind (read_exact (32 + 64) bs) (\<lambda>(b, r). Inr (FatPointerSignature_from_bytes b, r))"

definition FatPointer_deserialize :: "FatPointerToBftBlock reader" where
  "FatPointer_deserialize bs =
     try_bind (read_exact (76 - 32) bs) (\<lambda>(v, r).
     try_bind (read_u16 r) (\<lambda>(len, r).
     try_bind (read_items read_FatPointerSignature (unat len) r) (\<lambda>(sigs, r).
     Inr (\<lparr>vote_for_block_without_finalizer_public_key = v, signatures = sigs\<rparr>, r))))"

section \<open>Fat pointers and votes of the finality layer\<close>

record FatPointerSignature2 =
  public_key2 :: bytes
  vote_signature2 :: bytes

record FatPointerToBftBlock2 =
  vote_for_block2 :: bytes
  signatures2 :: "FatPointerSignature2 list"

text \<open>\<open>round\<close> is an \<^verbatim>\<open>i32\<close> in two's complement.\<close>

record MalVote =
  validator_address :: bytes
  vote_value :: bytes
  vote_height :: u64
  vote_typ :: bool
  vote_round :: u32

definition FatPointerSignature2_to_bytes :: "FatPointerSignature2 \<Rightarrow> bytes" where
  "FatPointerSignature2_to_bytes s = public_key2 s @ vote_signature2 s"

definition FatPointerSignature2_from_bytes :: "bytes \<Rightarrow> FatPointerSignature2" where
  "FatPointerSignature2_from_bytes bs =
     \<lparr>public_key2 = slice 0 32 bs, vote_signature2 = slice 32 (32 + 64) bs\<rparr>"

definition MalVote_to_bytes :: "MalVote \<Rightarrow> bytes" where
  "MalVote_to_bytes v =
     validator_address v @ vote_value v @ u64_le (vote_height v) @
     u32_le (let merged_round_val = and (vote_round v) 0x7fffffff in
             if vote_typ v then or merged_round_val 0x80000000 else merged_round_val)"

definition MalVote_from_bytes :: "bytes \<Rightarrow> MalVote" where
  "MalVote_from_bytes bs =
     (let merged_round_val = u32_of_le (slice 72 76 bs) in
      \<lparr>validator_address = slice 0 32 bs, vote_value = slice 32 64 bs,
       vote_height = u64_of_le (slice 64 72 bs),
       vote_typ = (and merged_round_val 0x80000000 \<noteq> 0),
       vote_round = and merged_round_val 0x7fffffff\<rparr>)"

definition to_non_two :: "FatPointerToBftBlock2 \<Rightarrow> FatPointerToBftBlock" where
  "to_non_two p =
     \<lparr>vote_for_block_without_finalizer_public_key = vote_for_block2 p,
      signatures = map (\<lambda>s. \<lparr>public_key = public_key2 s, vote_signature = vote_signature2 s\<rparr>)
        (signatures2 p)\<rparr>"

definition FatPointer2_null :: FatPointerToBftBlock2 where
  "FatPointer2_null = \<lparr>vote_for_block2 = replicate (76 - 32) 0, signatures2 = []\<rparr>"

definition FatPointer2_to_bytes :: "FatPointerToBftBlock2 \<Rightarrow> bytes" where
  "FatPointer2_to_bytes p =
     vote_for_block2 p @ u16_le (of_nat (length (signatures2 p))) @
     concat (map FatPointerSignature2_to_bytes (signatures2 p))"

definition FatPointer2_try_from_bytes :: "bytes \<Rightarrow> FatPointerToBftBlock2 option option" where
  "FatPointer2_try_from_bytes bs =
     (if length bs < 76 - 32 + 2 then Some None
      else do {
        v \<leftarrow> index_range 0 (76 - 32) bs;
        l \<leftarrow> index_range (76 - 32) 2 bs;
        let len = unat (u16_of_le l) in
        if 76 - 32 + 2 + len * (32 + 64) > length bs then Some None
        else Some (Some \<lparr>vote_for_block2 = v,
               signatures2 = map FatPointerSignature2_from_bytes
                 (chunks_exact (32 + 64) (drop (76 - 32 + 2) bs))\<rparr>) })"

definition get_vote_template :: "FatPointerToBftBlock2 \<Rightarrow> MalVote" where
  "get_vote_template p = MalVote_from_bytes (replicate 32 0 @ vote_for_block2 p)"

definition inflate :: "FatPointerToBftBlock2 \<Rightarrow> (MalVote \<times> bytes) list" where
  "inflate p =
     (let vote_template = get_vote_template p in
      map (\<lambda>s. (vote_template\<lparr>validator_address := public_key2 s\<rparr>, vote_signature2 s))
        (signatures2 p))"

text \<open>The batch is the list of (key, signature, message) in the order they are queued.\<close>

definition validate_signatures ::
  "((bytes \<times> bytes \<times> bytes) list \<Rightarrow> bool) \<Rightarrow> FatPointerToBftBlock2 \<Rightarrow> bool" where
  "validate_signatures batch_verify p =
     batch_verify (map (\<lambda>(vote, signature).
       (validator_address vote, signature, MalVote_to_bytes vote)) (inflate p))"

definition points_at_block_hash :: "FatPointerToBftBlock2 \<Rightarrow> bytes" where
  "points_at_block_hash p = slice 0 32 (vote_for_block2 p)"

definition FatPointer2_serialize :: "FatPointerToBftBlock2 \<Rightarrow> bytes" where
  "FatPointer2_serialize p =
     vote_for_block2 p @ u16_le (of_nat (length (signatures2 p))) @
     concat (map FatPointerSignature2_to_bytes (signatures2 p))"

definition read_FatPointerSignature2 :: "FatPointerSignature2 reader" where
  "read_FatPointerSignature2 bs =
     try_bind (read_exact (32 + 64) bs) (\<lambda>(b, r). Inr (FatPointerSignature2_from_bytes b, r))"

definition FatPointer2_deserialize :: "FatPointerToBftBlock2 reader" where
  "FatPointer2_deserialize bs =
     try_bind (read_exact (76 - 32) bs) (\<lambda>(v, r).
     try_bind (read_u16 r) (\<lambda>(len, r).
     try_bind (read_items read_FatPointerSignature2 (unat len) r) (\<lambda>(sigs, r).
     Inr (\<lparr>vote_for_block2 = v, signatures2 = sigs\<rparr>, r))))"

section \<open>Well-formedness: the array lengths\<close>

definition wf_signature :: "FatPointerSignature \<Rightarrow> bool" where
  "wf_signature s \<longleftrightarrow> length (public_key s) = 32 \<and> length (vote_signature s) = 64"

definition wf_fat_pointer :: "FatPointerToBftBlock \<Rightarrow> bool" where
  "wf_fat_pointer p \<longleftrightarrow> length (vote_for_block_without_finalizer_public_key p) = 44 \<and>
     (\<forall>s \<in> set (signatures p). wf_signature s)"

definition wf_signature2 :: "FatPointerSignature2 \<Rightarrow> bool" where
  "wf_signature2 s \<longleftrightarrow> length (public_key2 s) = 32 \<and> length (vote_signature2 s) = 64"

definition wf_fat_pointer2 :: "FatPointerToBftBlock2 \<Rightarrow> bool" where
  "wf_fat_pointer2 p \<longleftrightarrow> length (vote_for_block2 p) = 44 \<and>
     (\<forall>s \<in> set (signatures2 p). wf_signature2 s)"

definition wf_vote :: "MalVote \<Rightarrow> bool" where
  "wf_vote v \<longleftrightarrow> length (validator_address v) = 32 \<and> length (vote_value v) = 32"

section \<open>Fat pointers round trip\<close>

lemma signature_bytes_of_array:
  "length b = 96 \<Longrightarrow> wf_signature (FatPointerSignature_from_bytes b)"
  "length b = 96 \<Longrightarrow> FatPointerSignature_to_bytes (FatPointerSignature_from_bytes b) = b"
  "length b = 96 \<Longrightarrow> wf_signature2 (FatPointerSignature2_from_bytes b)"
  "length b = 96 \<Longrightarrow> FatPointerSignature2_to_bytes (FatPointerSignature2_from_bytes b) = b"
  by (auto simp: FatPointerSignature_from_bytes_def FatPointerSignature_to_bytes_def
      FatPointerSignature2_from_bytes_def FatPointerSignature2_to_bytes_def
      wf_signature_def wf_signature2_def slice_append)

lemma signature_array_of_bytes:
  "wf_signature s \<Longrightarrow> FatPointerSignature_from_bytes (FatPointerSignature_to_bytes s) = s"
  "wf_signature2 s2 \<Longrightarrow> FatPointerSignature2_from_bytes (FatPointerSignature2_to_bytes s2) = s2"
  by (auto simp: FatPointerSignature_from_bytes_def FatPointerSignature_to_bytes_def
      FatPointerSignature2_from_bytes_def FatPointerSignature2_to_bytes_def
      wf_signature_def wf_signature2_def)

lemma length_signature_bytes [simp, len_simps]:
  "wf_signature s \<Longrightarrow> length (FatPointerSignature_to_bytes s) = 96"
  "wf_signature2 s2 \<Longrightarrow> length (FatPointerSignature2_to_bytes s2) = 96"
  by (simp_all add: FatPointerSignature_to_bytes_def FatPointerSignature2_to_bytes_def
      wf_signature_def wf_signature2_def)

lemma read_signature_iff:
  "read_FatPointerSignature bs = Inr (s, r) \<longleftrightarrow>
    wf_signature s \<and> bs = FatPointerSignature_to_bytes s @ r"
  "read_FatPointerSignature2 bs = Inr (s2, r) \<longleftrightarrow>
    wf_signature2 s2 \<and> bs = FatPointerSignature2_to_bytes s2 @ r"
  by (auto simp: read_FatPointerSignature_def read_FatPointerSignature2_def try_bind_Inr_iff
      read_exact_iff signature_bytes_of_array signature_array_of_bytes)

interpretation signature_codec: canonical_codec
  "\<lambda>s. Some (FatPointerSignature_to_bytes s)" read_FatPointerSignature wf_signature
  by unfold_locales (auto simp: read_signature_iff)

interpretation signature2_codec: canonical_codec
  "\<lambda>s. Some (FatPointerSignature2_to_bytes s)" read_FatPointerSignature2 wf_signature2
  by unfold_locales (auto simp: read_signature_iff)

lemma u16_count_iff: "n = unat (w :: u16) \<longleftrightarrow> n \<le> 65535 \<and> w = of_nat n"
  using unat_uN_less(1)[of w] by (auto simp: unat_of_nat)

lemma FatPointer_de_iff:
  "FatPointer_deserialize bs = Inr (p, r) \<longleftrightarrow>
    (wf_fat_pointer p \<and> length (signatures p) \<le> 65535) \<and> bs = FatPointer_serialize p @ r"
  by (cases p) (auto simp: FatPointer_deserialize_def FatPointer_serialize_def try_bind_Inr_iff
      read_exact_iff wire_simps signature_codec.read_items_iff serialize_items_Some wf_fat_pointer_def
      u16_count_iff)

lemma FatPointer2_de_iff:
  "FatPointer2_deserialize bs = Inr (p, r) \<longleftrightarrow>
    (wf_fat_pointer2 p \<and> length (signatures2 p) \<le> 65535) \<and> bs = FatPointer2_serialize p @ r"
  by (cases p) (auto simp: FatPointer2_deserialize_def FatPointer2_serialize_def try_bind_Inr_iff
      read_exact_iff wire_simps signature2_codec.read_items_iff serialize_items_Some
      wf_fat_pointer2_def u16_count_iff)

interpretation fat_pointer_codec: canonical_codec
  "\<lambda>p. Some (FatPointer_serialize p)" FatPointer_deserialize
  "\<lambda>p. wf_fat_pointer p \<and> length (signatures p) \<le> 65535"
  by unfold_locales (auto simp: FatPointer_de_iff)

interpretation fat_pointer2_codec: canonical_codec
  "\<lambda>p. Some (FatPointer2_serialize p)" FatPointer2_deserialize
  "\<lambda>p. wf_fat_pointer2 p \<and> length (signatures2 p) \<le> 65535"
  by unfold_locales (auto simp: FatPointer2_de_iff)

lemma serialize_to_non_two: "FatPointer_serialize (to_non_two p) = FatPointer2_serialize p"
  by (simp add: FatPointer_serialize_def FatPointer2_serialize_def to_non_two_def comp_def
      FatPointerSignature_to_bytes_def FatPointerSignature2_to_bytes_def cong: map_cong)

section \<open>Votes\<close>

lemma u32_top_bit: "and (m :: u32) 0x80000000 = (if bit m 31 then 0x80000000 else 0)"
proof -
  have "(0x80000000 :: u32) = 2 ^ 31" by simp
  then have b: "bit (0x80000000 :: u32) n \<longleftrightarrow> n = 31" for n
    by (simp only: bit_exp_iff) (auto simp: possible_bit_word)
  show ?thesis
    by (rule bit_eqI) (simp only: bit_and_iff b split: if_split,
        auto simp: b simp del: bit_numeral_iff)
qed

lemma u32_split_top: "or (and (m :: u32) 0x7fffffff) (and m 0x80000000) = m"
proof -
  have "or (and m 0x7fffffff) (and m 0x80000000) = and m (or 0x7fffffff 0x80000000)"
    by (rule bit.conj_disj_distrib[symmetric])
  also have "or (0x7fffffff :: u32) 0x80000000 = - 1" by simp
  finally show ?thesis by simp
qed

lemma u32_low_bits: "\<not> bit (and (m :: u32) 0x7fffffff) 31" "bit (or m 0x80000000) 31"
proof -
  have "(0x7fffffff :: u32) = mask 31" by (simp add: mask_eq_exp_minus_1)
  then show "\<not> bit (and (m :: u32) 0x7fffffff) 31" by (simp only:) (simp add: bit_simps)
  show "bit (or m 0x80000000) 31" by (simp add: bit_simps)
qed

lemma u32_low_of_merged: "and (or (and (m :: u32) 0x7fffffff) 0x80000000) 0x7fffffff = and m 0x7fffffff"
proof -
  have "and (or (and m 0x7fffffff) 0x80000000) 0x7fffffff =
      or (and (and m 0x7fffffff) 0x7fffffff) (and 0x80000000 0x7fffffff)"
    by (rule bit.conj_disj_distrib2)
  also have "and (0x80000000 :: u32) 0x7fffffff = 0" by simp
  finally show ?thesis by (simp add: and.assoc)
qed

lemma MalVote_from_to_bytes:
  assumes "wf_vote v"
  shows "length (MalVote_to_bytes v) = 76"
    and "MalVote_from_bytes (MalVote_to_bytes v) = v\<lparr>vote_round := and (vote_round v) 0x7fffffff\<rparr>"
  using assms
  by (simp_all add: MalVote_to_bytes_def MalVote_from_bytes_def Let_def wf_vote_def u32_top_bit
      u32_low_bits u32_low_of_merged and.assoc)

lemma MalVote_to_from_bytes:
  assumes "length bs = 76"
  shows "wf_vote (MalVote_from_bytes bs)" and "MalVote_to_bytes (MalVote_from_bytes bs) = bs"
proof -
  show "wf_vote (MalVote_from_bytes bs)"
    using assms by (simp add: wf_vote_def MalVote_from_bytes_def Let_def)
  let ?m = "u32_of_le (slice 72 76 bs)"
  have "(if and ?m 0x80000000 \<noteq> 0 then or (and ?m 0x7fffffff) 0x80000000 else and ?m 0x7fffffff) = ?m"
    using u32_split_top[of ?m] by (simp add: u32_top_bit split: if_splits)
  moreover have "slice 0 32 bs @ slice 32 64 bs @ slice 64 72 bs @ slice 72 76 bs = bs"
    using assms by (simp add: slice_append)
  ultimately show "MalVote_to_bytes (MalVote_from_bytes bs) = bs"
    using assms by (simp add: MalVote_to_bytes_def MalVote_from_bytes_def Let_def and.assoc uN_le_of_le)
qed

lemma inflated_vote_bytes:
  assumes "length (vote_for_block2 p) = 44" and "length k = 32"
  shows "MalVote_to_bytes ((get_vote_template p)\<lparr>validator_address := k\<rparr>) = k @ vote_for_block2 p"
proof -
  let ?t = "replicate 32 0 @ vote_for_block2 p"
  have t: "length ?t = 76" using assms(1) by simp
  have addr: "MalVote_to_bytes (v\<lparr>validator_address := k\<rparr>) = k @ drop 32 (MalVote_to_bytes v)"
    if "wf_vote v" for v
    using that by (simp add: MalVote_to_bytes_def wf_vote_def)
  show ?thesis
    unfolding get_vote_template_def addr[OF MalVote_to_from_bytes(1)[OF t]]
    by (simp add: MalVote_to_from_bytes(2)[OF t])
qed

section \<open>Properties\<close>

text \<open>The 76-byte vote layout is exact: every array of 76 bytes is the encoding of the vote
  read from it, and a vote is read back from its encoding exactly when its round is not negative
  (the commit flag takes the sign bit; a negative round loses it).\<close>

theorem vote_bytes_bijection:
  assumes "length bs = 76" and "wf_vote v"
  shows "MalVote_to_bytes (MalVote_from_bytes bs) = bs \<and> length (MalVote_to_bytes v) = 76 \<and>
    (MalVote_from_bytes (MalVote_to_bytes v) = v \<longleftrightarrow> \<not> bit (vote_round v) 31)"
proof -
  have "and (vote_round v) 0x7fffffff = vote_round v \<longleftrightarrow> \<not> bit (vote_round v) 31"
    using u32_low_bits(1)[of "vote_round v"] u32_split_top[of "vote_round v"]
    by (auto simp: u32_top_bit split: if_splits)
  then show ?thesis
    using MalVote_from_to_bytes[OF assms(2)] MalVote_to_from_bytes[OF assms(1)]
    by (cases v) (auto simp: u32_low_bits)
qed

theorem vote_bytes_bijection_witness:
  "MalVote_to_bytes (MalVote_from_bytes (replicate 76 7)) = replicate 76 7"
  using vote_bytes_bijection[of "replicate 76 7" "MalVote_from_bytes (replicate 76 7)"]
    MalVote_to_from_bytes(1)[of "replicate 76 7"]
  by simp

text \<open>C25: fat pointers are read from the wire exactly as they are written, by both the header
  and the finality-layer code, and the bytes a BFT fat pointer is written as are read into a block
  header as its \<^verbatim>\<open>to_non_two\<close> image. The signature count is a \<^verbatim>\<open>u16\<close>, so this holds up to 65535
  signatures and never beyond.\<close>

theorem fat_pointer_wire_canonical:
  assumes "wf_fat_pointer2 p"
  shows "(FatPointer2_deserialize bs = Inr (p, rest) \<longleftrightarrow>
      length (signatures2 p) \<le> 65535 \<and> bs = FatPointer2_serialize p @ rest) \<and>
    (FatPointer_deserialize bs = Inr (to_non_two p, rest) \<longleftrightarrow>
      length (signatures2 p) \<le> 65535 \<and> bs = FatPointer2_serialize p @ rest)"
proof -
  have "wf_fat_pointer (to_non_two p)" "length (signatures (to_non_two p)) = length (signatures2 p)"
    using assms by (auto simp: wf_fat_pointer_def wf_fat_pointer2_def wf_signature_def
        wf_signature2_def to_non_two_def)
  then show ?thesis
    using assms by (simp add: FatPointer2_de_iff FatPointer_de_iff serialize_to_non_two)
qed

theorem fat_pointer_wire_canonical_witness:
  "FatPointer2_deserialize (FatPointer2_serialize FatPointer2_null @ [1, 2]) = Inr (FatPointer2_null, [1, 2])"
  using fat_pointer_wire_canonical
    [of FatPointer2_null "FatPointer2_serialize FatPointer2_null @ [1, 2]" "[1, 2]"]
  by (simp add: wf_fat_pointer2_def FatPointer2_null_def)

text \<open>\<^verbatim>\<open>try_from_bytes\<close> never returns a fat pointer. It returns nothing below 46 bytes and
  panics on every longer input, because it indexes the reversed range \<^verbatim>\<open>[44..2]\<close>; in particular it
  panics on every output of \<^verbatim>\<open>to_bytes\<close>.\<close>

theorem try_from_bytes_never_returns:
  assumes "wf_fat_pointer2 p"
  shows "FatPointer2_try_from_bytes bs = (if length bs < 46 then Some None else None) \<and>
    FatPointer_try_from_bytes bs = (if length bs < 46 then Some None else None) \<and>
    FatPointer2_try_from_bytes (FatPointer2_to_bytes p) = None"
proof -
  have panics: "FatPointer2_try_from_bytes bs = (if length bs < 46 then Some None else None)"
    "FatPointer_try_from_bytes bs = (if length bs < 46 then Some None else None)" for bs
    by (simp_all add: FatPointer2_try_from_bytes_def FatPointer_try_from_bytes_def index_range_def)
  moreover have "\<not> length (FatPointer2_to_bytes p) < 46"
    using assms by (simp add: FatPointer2_to_bytes_def wf_fat_pointer2_def)
  ultimately show ?thesis by simp
qed

theorem try_from_bytes_never_returns_witness:
  "FatPointer2_try_from_bytes (FatPointer2_to_bytes FatPointer2_null) = None"
  using try_from_bytes_never_returns[of FatPointer2_null "[]"]
  by (simp add: wf_fat_pointer2_def FatPointer2_null_def)

text \<open>C21: validating a fat pointer checks every signature against exactly the signer's key
  followed by the shared 44 vote bytes. When batch verification accepts a batch exactly if each
  entry verifies, a fat pointer validates exactly if each of its signatures does; one with no
  signatures always validates.\<close>

theorem validate_signatures_iff:
  assumes "\<And>xs. batch_verify xs = list_all (\<lambda>(k, s, m). verify k s m) xs"
    and "wf_fat_pointer2 p"
  shows "validate_signatures batch_verify p \<longleftrightarrow>
    (\<forall>s \<in> set (signatures2 p).
      verify (public_key2 s) (vote_signature2 s) (public_key2 s @ vote_for_block2 p))"
proof -
  have "MalVote_to_bytes ((get_vote_template p)\<lparr>validator_address := public_key2 s\<rparr>) =
      public_key2 s @ vote_for_block2 p" if "s \<in> set (signatures2 p)" for s
    using that assms(2) by (intro inflated_vote_bytes) (auto simp: wf_fat_pointer2_def wf_signature2_def)
  then show ?thesis
    by (auto simp: validate_signatures_def assms(1) inflate_def Let_def list_all_iff)
qed

theorem validate_signatures_iff_witness:
  "\<not> validate_signatures (list_all (\<lambda>(k, s, m). s = take 64 m))
     (FatPointer2_null\<lparr>signatures2 := [\<lparr>public_key2 = replicate 32 1, vote_signature2 = replicate 64 0\<rparr>]\<rparr>)"
proof -
  let ?v = "\<lambda>k s m :: bytes. s = take 64 m"
  let ?p = "FatPointer2_null\<lparr>signatures2 := [\<lparr>public_key2 = replicate 32 1, vote_signature2 = replicate 64 0\<rparr>]\<rparr>"
  have "wf_fat_pointer2 ?p"
    by (simp add: wf_fat_pointer2_def wf_signature2_def FatPointer2_null_def)
  moreover have "\<not> ?v (replicate 32 1) (replicate 64 0) (replicate 32 1 @ vote_for_block2 ?p)"
    by (simp add: FatPointer2_null_def numeral_eq_Suc)
  ultimately show ?thesis
    using validate_signatures_iff[of "list_all (\<lambda>(k, s, m). ?v k s m)" ?v ?p] by simp
qed

end
