(* ===== verification/Block_Header.thy ===== *)
theory Block_Header
  imports Fat_Pointer Height
begin

text \<open>
  Proof-of-work block headers: \<^verbatim>\<open>zebra-chain/src/block/header.rs\<close>, \<^verbatim>\<open>block/serialize.rs\<close>,
  \<^verbatim>\<open>block/hash.rs\<close> and the solution type of \<^verbatim>\<open>work/equihash.rs\<close>. A header of logical version 5 or
  more carries a fat pointer to a BFT block. The hash function and the Equihash verifier are
  parameters.
\<close>

section \<open>Block hashes and Equihash solutions\<close>

definition Hash_serialize :: "bytes \<Rightarrow> bytes" where
  "Hash_serialize h = h"

definition Hash_deserialize :: "bytes reader" where
  "Hash_deserialize = read_32_bytes"

definition Hash_max_allocation :: nat where
  "Hash_max_allocation = (MAX_PROTOCOL_MESSAGE_LEN - 1) div 32"

definition bytes_in_display_order :: "bytes \<Rightarrow> bytes" where
  "bytes_in_display_order h = rev h"

definition from_bytes_in_display_order :: "bytes \<Rightarrow> bytes" where
  "from_bytes_in_display_order bs = rev bs"

definition SOLUTION_SIZE :: nat where "SOLUTION_SIZE = 1344"

definition REGTEST_SOLUTION_SIZE :: nat where "REGTEST_SOLUTION_SIZE = 36"

definition INPUT_LENGTH :: nat where "INPUT_LENGTH = 4 + 32 * 3 + 4 * 2"

datatype Solution = Common bytes | Regtest bytes

fun Solution_value :: "Solution \<Rightarrow> bytes" where
  "Solution_value (Common s) = s"
| "Solution_value (Regtest s) = s"

definition Solution_from_bytes :: "bytes \<Rightarrow> SerializationError + Solution" where
  "Solution_from_bytes s =
     (if length s = SOLUTION_SIZE then Inr (Common s)
      else if length s = REGTEST_SOLUTION_SIZE then Inr (Regtest s)
      else Inl (Parse ''incorrect equihash solution size''))"

definition Solution_for_proposal :: Solution where
  "Solution_for_proposal = Common (replicate SOLUTION_SIZE 0)"

definition Solution_serialize :: "Solution \<Rightarrow> bytes option" where
  "Solution_serialize s = zcash_serialize_bytes (Solution_value s)"

definition Solution_deserialize :: "Solution reader" where
  "Solution_deserialize bs =
     try_bind (zcash_deserialize_bytes bs) (\<lambda>(s, r).
     try_bind (Solution_from_bytes s) (\<lambda>x. Inr (x, r)))"

section \<open>Headers\<close>

text \<open>\<open>time\<close> is the Unix timestamp in seconds: the nanoseconds of a \<^verbatim>\<open>DateTime\<close>, which the encoding drops and a
  header that was read does not have, are not part of the model.\<close>

record Header =
  version :: u32
  previous_block_hash :: bytes
  merkle_root :: bytes
  commitment_bytes :: bytes
  time :: int
  difficulty_threshold :: u32
  nonce :: bytes
  solution :: Solution
  fat_pointer_to_bft_block :: FatPointerToBftBlock

definition ZCASH_BLOCK_VERSION :: u32 where "ZCASH_BLOCK_VERSION = 4"

definition check_version :: "u32 \<Rightarrow> string + unit" where
  "check_version v =
     (if drop_bit 31 v \<noteq> 0 then Inl ''high bit was set in version field''
      else if v < ZCASH_BLOCK_VERSION then Inl ''version must be at least 4''
      else Inr ())"

definition reverse_bits :: "u32 \<Rightarrow> u32" where
  "reverse_bits w = fold (\<lambda>i acc. 2 * acc + (if bit w i then 1 else 0)) [0..<32] 0"

definition logical_version :: "u32 \<Rightarrow> u32" where
  "logical_version v = (if and v 0xffff0000 \<noteq> 0 then reverse_bits v else v)"

text \<open>An error of \<^verbatim>\<open>check_version\<close> is returned as an \<^verbatim>\<open>io::Error\<close>; a timestamp outside \<^verbatim>\<open>u32\<close> panics.\<close>

definition Header_zcash_serialize :: "Header \<Rightarrow> (string + bytes) option" where
  "Header_zcash_serialize h =
     (case check_version (version h) of
        Inl e \<Rightarrow> Some (Inl e)
      | Inr _ \<Rightarrow> do {
          t \<leftarrow> u32_try_from_int (time h);
          s \<leftarrow> Solution_serialize (solution h);
          Some (Inr (u32_le (version h) @ Hash_serialize (previous_block_hash h) @ merkle_root h @
            commitment_bytes h @ u32_le t @ u32_le (difficulty_threshold h) @ nonce h @ s @
            (if 5 \<le> logical_version (version h)
             then FatPointer_serialize (fat_pointer_to_bft_block h) else []))) })"

definition Header_zcash_deserialize :: "Header reader" where
  "Header_zcash_deserialize bs =
     try_bind (read_u32 bs) (\<lambda>(v, r).
     try_bind (map_err Parse (check_version v)) (\<lambda>_.
     try_bind (Hash_deserialize r) (\<lambda>(prev, r).
     try_bind (read_32_bytes r) (\<lambda>(root, r).
     try_bind (read_32_bytes r) (\<lambda>(commitment, r).
     try_bind (read_u32 r) (\<lambda>(t, r).
     try_bind (read_u32 r) (\<lambda>(threshold, r).
     try_bind (read_32_bytes r) (\<lambda>(n, r).
     try_bind (Solution_deserialize r) (\<lambda>(s, r).
     try_bind (if 5 \<le> logical_version v then FatPointer_deserialize r
               else Inr (FatPointer_null, r)) (\<lambda>(fp, r).
     Inr (\<lparr>version = v, previous_block_hash = prev, merkle_root = root,
           commitment_bytes = commitment, time = uint t, difficulty_threshold = threshold,
           nonce = n, solution = s, fat_pointer_to_bft_block = fp\<rparr>, r)))))))))))"

definition Header_serialize :: "Header \<Rightarrow> bytes option" where
  "Header_serialize h = (case Header_zcash_serialize h of Some (Inr b) \<Rightarrow> Some b | _ \<Rightarrow> None)"

text \<open>Hashing panics when serialization fails (\<^verbatim>\<open>expect\<close>).\<close>

definition Header_hash :: "(bytes \<Rightarrow> bytes) \<Rightarrow> Header \<Rightarrow> bytes option" where
  "Header_hash sha256d h = map_option sha256d (Header_serialize h)"

definition Solution_check ::
  "(nat \<Rightarrow> nat \<Rightarrow> bytes \<Rightarrow> bytes \<Rightarrow> bytes \<Rightarrow> bool) \<Rightarrow> Solution \<Rightarrow> Header \<Rightarrow> bool option" where
  "Solution_check is_valid_solution s h = do {
     input \<leftarrow> Header_serialize h;
     input \<leftarrow> index_range 0 INPUT_LENGTH input;
     Some (is_valid_solution 200 9 input (nonce h) (Solution_value s)) }"

text \<open>The current time is in seconds; \<open>max_time\<close> is the latest representable \<^verbatim>\<open>DateTime<Utc>\<close>.\<close>

definition time_is_valid_at :: "int \<Rightarrow> Header \<Rightarrow> int \<Rightarrow> ((int \<times> int) + unit) option" where
  "time_is_valid_at max_time h now =
     (let two_hours_in_the_future = now + 2 * 60 * 60 in
      if two_hours_in_the_future > max_time then None
      else Some (if time h \<le> two_hours_in_the_future then Inr ()
                 else Inl (time h, two_hours_in_the_future)))"

definition BLOCK_HEADER_LENGTH :: nat where
  "BLOCK_HEADER_LENGTH = INPUT_LENGTH + 32 + 3 + SOLUTION_SIZE + (76 - 32 + 2) + 128"

definition MIN_COUNTED_HEADER_LEN :: nat where
  "MIN_COUNTED_HEADER_LEN = BLOCK_HEADER_LENGTH + 1"

definition CountedHeader_max_allocation :: nat where
  "CountedHeader_max_allocation = (MAX_PROTOCOL_MESSAGE_LEN - 1) div MIN_COUNTED_HEADER_LEN"

definition CountedHeader_serialize :: "Header \<Rightarrow> bytes option" where
  "CountedHeader_serialize h = do {
     b \<leftarrow> Header_serialize h;
     zero \<leftarrow> (case CompactSizeMessage_try_from 0 of Inl _ \<Rightarrow> None | Inr z \<Rightarrow> Some z);
     c \<leftarrow> CompactSizeMessage_serialize zero;
     Some (b @ c) }"

definition CountedHeader_deserialize :: "Header reader" where
  "CountedHeader_deserialize bs =
     try_bind (Header_zcash_deserialize bs) (\<lambda>(h, r).
     try_bind (CompactSizeMessage_deserialize r) (\<lambda>(_, r). Inr (h, r)))"

section \<open>Well-formed headers\<close>

fun wf_solution :: "Solution \<Rightarrow> bool" where
  "wf_solution (Common s) \<longleftrightarrow> length s = SOLUTION_SIZE"
| "wf_solution (Regtest s) \<longleftrightarrow> length s = REGTEST_SOLUTION_SIZE"

definition wf_header :: "Header \<Rightarrow> bool" where
  "wf_header h \<longleftrightarrow> check_version (version h) = Inr () \<and> length (previous_block_hash h) = 32 \<and>
     length (merkle_root h) = 32 \<and> length (commitment_bytes h) = 32 \<and> 0 \<le> time h \<and>
     time h < 2 ^ 32 \<and> length (nonce h) = 32 \<and> wf_solution (solution h) \<and>
     (if 5 \<le> logical_version (version h)
      then wf_fat_pointer (fat_pointer_to_bft_block h) \<and>
        length (signatures (fat_pointer_to_bft_block h)) \<le> 65535
      else fat_pointer_to_bft_block h = FatPointer_null)"

lemma Hash_de_iff: "Hash_deserialize bs = Inr (h, r) \<longleftrightarrow> length h = 32 \<and> bs = Hash_serialize h @ r"
  by (auto simp: Hash_deserialize_def Hash_serialize_def wire_simps)

interpretation hash_codec: canonical_codec
  "\<lambda>h. Some (Hash_serialize h)" Hash_deserialize "\<lambda>h. length h = 32"
  by unfold_locales (auto simp: Hash_de_iff)

interpretation hash_vec: canonical_vec
  "\<lambda>h. Some (Hash_serialize h)" Hash_deserialize "\<lambda>h. length h = 32" Hash_max_allocation
  by unfold_locales

lemmas solution_sizes = SOLUTION_SIZE_def REGTEST_SOLUTION_SIZE_def

lemma Solution_from_bytes_iff:
  "Solution_from_bytes b = Inr s \<longleftrightarrow> wf_solution s \<and> b = Solution_value s"
  by (cases s) (auto simp: Solution_from_bytes_def solution_sizes)

lemma wf_solution_length: "wf_solution s \<Longrightarrow> length (Solution_value s) \<le> MAX_U8_ALLOCATION"
  by (cases s) (simp_all add: solution_sizes size_limits)

lemma Solution_de_iff:
  "Solution_deserialize bs = Inr (s, r) \<longleftrightarrow>
    wf_solution s \<and> (\<exists>b. Solution_serialize s = Some b \<and> bs = b @ r)"
  by (auto simp: Solution_deserialize_def Solution_serialize_def try_bind_Inr_iff
      byte_vec.de_iff Solution_from_bytes_iff wf_solution_length)

interpretation solution_codec: canonical_codec Solution_serialize Solution_deserialize wf_solution
  by unfold_locales (auto simp: Solution_de_iff,
      simp add: Solution_serialize_def byte_vec.ser_total wf_solution_length)

lemma u32_try_from_int_iff: "u32_try_from_int v = Some t \<longleftrightarrow> v = uint t"
proof -
  have "uint t < 2 ^ 32" using uint_lt2p[of t] by simp
  then show ?thesis
    by (auto simp: u32_try_from_int_def uint_word_of_int_eq take_bit_int_eq_self)
qed

lemma Header_serialize_Some:
  "Header_serialize h = Some b \<longleftrightarrow> check_version (version h) = Inr () \<and>
    (\<exists>t s. time h = uint t \<and> Solution_serialize (solution h) = Some s \<and>
      b = u32_le (version h) @ Hash_serialize (previous_block_hash h) @ merkle_root h @
        commitment_bytes h @ u32_le t @ u32_le (difficulty_threshold h) @ nonce h @ s @
        (if 5 \<le> logical_version (version h)
         then FatPointer_serialize (fat_pointer_to_bft_block h) else []))"
  unfolding Header_serialize_def Header_zcash_serialize_def u32_try_from_int_iff[symmetric]
  by (cases "check_version (version h)"; cases "u32_try_from_int (time h)";
      cases "Solution_serialize (solution h)")
    auto

lemma header_fat_pointer_iff:
  "(if 5 \<le> logical_version v then FatPointer_deserialize bs else Inr (FatPointer_null, bs)) =
    Inr (fp, r) \<longleftrightarrow>
    (if 5 \<le> logical_version v
     then (wf_fat_pointer fp \<and> length (signatures fp) \<le> 65535) \<and> bs = FatPointer_serialize fp @ r
     else fp = FatPointer_null \<and> bs = r)"
  by (auto simp: FatPointer_de_iff)

lemma Header_de_ser:
  assumes "wf_header h" and "Header_serialize h = Some b"
  shows "Header_zcash_deserialize (b @ r) = Inr (h, r)"
proof -
  from assms(2) obtain t s where b: "check_version (version h) = Inr ()" "time h = uint t"
    "Solution_serialize (solution h) = Some s"
    "b = u32_le (version h) @ Hash_serialize (previous_block_hash h) @ merkle_root h @
        commitment_bytes h @ u32_le t @ u32_le (difficulty_threshold h) @ nonce h @ s @
        (if 5 \<le> logical_version (version h)
         then FatPointer_serialize (fat_pointer_to_bft_block h) else [])"
    by (auto simp: Header_serialize_Some)
  have rd: "read_u32 (u32_le x @ q) = Inr (x, q)" "length c = 32 \<Longrightarrow> read_32_bytes (c @ q) = Inr (c, q)"
    "length c = 32 \<Longrightarrow> Hash_deserialize (Hash_serialize c @ q) = Inr (c, q)" for x c q
    by (simp_all add: wire_simps Hash_de_iff)
  have "Solution_deserialize (s @ q) = Inr (solution h, q)" for q
    using assms(1) b(3) by (simp add: solution_codec.de_ser wf_header_def)
  moreover have "(if 5 \<le> logical_version (version h)
      then FatPointer_deserialize ((if 5 \<le> logical_version (version h)
         then FatPointer_serialize (fat_pointer_to_bft_block h) else []) @ r)
      else Inr (FatPointer_null, (if 5 \<le> logical_version (version h)
         then FatPointer_serialize (fat_pointer_to_bft_block h) else []) @ r)) =
      Inr (fat_pointer_to_bft_block h, r)"
    using assms(1) by (auto simp: wf_header_def FatPointer_de_iff)
  ultimately show ?thesis
    using assms(1) b by (simp add: Header_zcash_deserialize_def rd wf_header_def del: if_split)
qed

lemma Header_ser_de:
  assumes "Header_zcash_deserialize bs = Inr (h, r)"
  shows "wf_header h \<and> (\<exists>b. Header_serialize h = Some b \<and> bs = b @ r)"
proof -
  from assms obtain t s where bs: "check_version (version h) = Inr ()"
    "length (previous_block_hash h) = 32" "length (merkle_root h) = 32"
    "length (commitment_bytes h) = 32" "length (nonce h) = 32" "time h = uint t"
    "wf_solution (solution h)" "Solution_serialize (solution h) = Some s"
    and fp: "if 5 \<le> logical_version (version h)
       then (wf_fat_pointer (fat_pointer_to_bft_block h) \<and>
         length (signatures (fat_pointer_to_bft_block h)) \<le> 65535)
       else fat_pointer_to_bft_block h = FatPointer_null"
    and eq: "bs = (u32_le (version h) @ Hash_serialize (previous_block_hash h) @ merkle_root h @
        commitment_bytes h @ u32_le t @ u32_le (difficulty_threshold h) @ nonce h @ s @
        (if 5 \<le> logical_version (version h)
         then FatPointer_serialize (fat_pointer_to_bft_block h) else [])) @ r"
    unfolding Header_zcash_deserialize_def
    by (auto simp: try_bind_Inr_iff wire_simps Hash_de_iff Solution_de_iff header_fat_pointer_iff
        split: if_splits)
  have "uint t < 2 ^ 32" using uint_lt2p[of t] by simp
  then have "wf_header h" using bs fp by (simp add: wf_header_def)
  moreover have "\<exists>b. Header_serialize h = Some b \<and> bs = b @ r"
    unfolding Header_serialize_Some eq using bs by blast
  ultimately show ?thesis by blast
qed

lemma Header_serialize_total:
  assumes "wf_header h"
  shows "\<exists>b. Header_serialize h = Some b"
proof -
  obtain s where "Solution_serialize (solution h) = Some s"
    using assms solution_codec.ser_total by (auto simp: wf_header_def)
  moreover have "time h = uint (of_int (time h) :: u32)"
    using assms by (simp add: wf_header_def uint_word_of_int_eq take_bit_int_eq_self)
  ultimately show ?thesis
    using assms unfolding Header_serialize_Some wf_header_def by blast
qed

interpretation header_codec: canonical_codec Header_serialize Header_zcash_deserialize wf_header
  by unfold_locales (simp_all add: Header_serialize_total Header_de_ser Header_ser_de)

lemma CountedHeader_de_ser:
  assumes "wf_header h" and "CountedHeader_serialize h = Some b"
  shows "CountedHeader_deserialize (b @ r) = Inr (h, r)"
proof -
  obtain b1 c where b: "Header_serialize h = Some b1" "CompactSizeMessage_serialize 0 = Some c"
    "b = b1 @ c"
    using assms(2) by (auto simp: CountedHeader_serialize_def CompactSizeMessage_try_from_def
        elim!: bind_SomeE)
  then show ?thesis
    using header_codec.de_ser[OF assms(1) b(1), of "c @ r"]
      compact_size_message.de_ser[of 0 c r] b(2)
    by (simp add: CountedHeader_deserialize_def)
qed

interpretation counted_header_codec: codec CountedHeader_serialize CountedHeader_deserialize wf_header
proof unfold_locales
  fix x assume x: "wf_header x"
  then obtain b where "Header_serialize x = Some b" using Header_serialize_total by blast
  then show "\<exists>b. CountedHeader_serialize x = Some b"
    by (simp add: CountedHeader_serialize_def CompactSizeMessage_try_from_def
        CompactSizeMessage_serialize_def)
qed (rule CountedHeader_de_ser)

lemma Common_solution_length:
  assumes "length c = SOLUTION_SIZE" and "Solution_serialize (Common c) = Some s"
  shows "length s = 1347"
  using assms
  by (auto simp: Solution_serialize_def zcash_serialize_bytes_def CompactSizeMessage_try_from_def
      CompactSizeMessage_serialize_def CompactSize64_serialize_def size_limits solution_sizes
      elim!: bind_SomeE)

lemma Header_serialize_length:
  assumes "wf_header h" and "solution h = Common c" and "Header_serialize h = Some b"
  shows "length b = 1487 + (if 5 \<le> logical_version (version h)
    then length (FatPointer_serialize (fat_pointer_to_bft_block h)) else 0)"
  using assms Common_solution_length[of c]
  by (auto simp: Header_serialize_Some wf_header_def Hash_serialize_def split: if_splits)

section \<open>Properties\<close>

text \<open>C23: the header reader accepts exactly the bytes that the header writer produces for
  well-formed headers: valid version, a fat pointer exactly from logical version 5 on, and a
  solution of one of the two sizes. Every well-formed header can be written.\<close>

theorem header_wire_canonical:
  "(Header_zcash_deserialize bs = Inr (h, rest) \<longleftrightarrow>
     wf_header h \<and> (\<exists>b. Header_zcash_serialize h = Some (Inr b) \<and> bs = b @ rest)) \<and>
   (wf_header h \<longrightarrow> (\<exists>b. Header_zcash_serialize h = Some (Inr b)))"
proof -
  have "Header_serialize h = Some b \<longleftrightarrow> Header_zcash_serialize h = Some (Inr b)" for b
    by (auto simp: Header_serialize_def split: option.splits sum.splits)
  then show ?thesis
    using header_codec.de_iff[of bs h rest] header_codec.ser_total[of h] by simp
qed

definition sample_header :: "u32 \<Rightarrow> FatPointerToBftBlock \<Rightarrow> Header" where
  "sample_header v fp =
     \<lparr>version = v, previous_block_hash = replicate 32 1, merkle_root = replicate 32 2,
      commitment_bytes = replicate 32 3, time = 1700000000, difficulty_threshold = 0x2007ffff,
      nonce = replicate 32 4, solution = Regtest (replicate 36 5), fat_pointer_to_bft_block = fp\<rparr>"

lemma wf_sample_header:
  "wf_header (sample_header 4 FatPointer_null)" "wf_header (sample_header 5 FatPointer_null)"
  by (simp_all add: wf_header_def sample_header_def check_version_def ZCASH_BLOCK_VERSION_def
      logical_version_def solution_sizes wf_fat_pointer_def FatPointer_null_def)

theorem header_wire_canonical_witness:
  "\<exists>b. Header_zcash_serialize (sample_header 5 FatPointer_null) = Some (Inr b)"
  using header_wire_canonical[of "[]" "sample_header 5 FatPointer_null" "[]"] wf_sample_header(2)
  by blast

text \<open>C38: a header of logical version below 5 is written without its fat pointer, whatever the
  pointer is: headers that differ only there have the same bytes and the same hash, and what is
  read back has the null fat pointer.\<close>

theorem old_headers_drop_fat_pointer:
  assumes "logical_version (version h) < 5" and "wf_header (h\<lparr>fat_pointer_to_bft_block := FatPointer_null\<rparr>)"
  shows "Header_serialize h = Header_serialize (h\<lparr>fat_pointer_to_bft_block := fp\<rparr>) \<and>
    (\<forall>b rest. Header_serialize h = Some b \<longrightarrow> Header_zcash_deserialize (b @ rest) =
      Inr (h\<lparr>fat_pointer_to_bft_block := FatPointer_null\<rparr>, rest))"
proof -
  have drop: "Header_serialize h = Header_serialize (h\<lparr>fat_pointer_to_bft_block := fp\<rparr>)" for fp
    using assms(1) by (cases "check_version (version h)")
      (simp_all add: Header_serialize_def Header_zcash_serialize_def not_le[symmetric])
  then show ?thesis
    using header_codec.de_ser[OF assms(2)] drop[of FatPointer_null] by auto
qed

theorem old_headers_drop_fat_pointer_witness:
  "Header_serialize (sample_header 4 FatPointer_null) =
   Header_serialize ((sample_header 4 FatPointer_null)\<lparr>fat_pointer_to_bft_block :=
     \<lparr>vote_for_block_without_finalizer_public_key = replicate 44 9, signatures = []\<rparr>\<rparr>)"
  using old_headers_drop_fat_pointer[of "sample_header 4 FatPointer_null"] wf_sample_header(1)
  by (simp add: sample_header_def logical_version_def)

text \<open>The constant that is meant to be the serialized size of a header is not: a header with a
  full-size solution takes 1487 bytes below logical version 5 and 1487 plus its fat pointer from
  there on, while the constant counts 174 bytes more (an always-present empty fat pointer and a
  removed 128-byte buffer), so the preallocation limit for header messages is below the number of
  headers that fit in a message.\<close>

theorem header_length_constant_too_large:
  assumes "wf_header h" and "solution h = Common c" and "Header_serialize h = Some b"
  shows "length b = (if 5 \<le> logical_version (version h)
      then 1487 + length (FatPointer_serialize (fat_pointer_to_bft_block h)) else 1487) \<and>
    BLOCK_HEADER_LENGTH = 1487 + 46 + 128 \<and>
    CountedHeader_max_allocation < (MAX_PROTOCOL_MESSAGE_LEN - 1) div (1487 + 1)"
  using Header_serialize_length[OF assms]
  by (simp add: BLOCK_HEADER_LENGTH_def INPUT_LENGTH_def solution_sizes
      CountedHeader_max_allocation_def MIN_COUNTED_HEADER_LEN_def size_limits)

theorem header_length_constant_too_large_witness:
  "\<exists>b. Header_serialize ((sample_header 4 FatPointer_null)\<lparr>solution := Solution_for_proposal\<rparr>) = Some b
     \<and> length b = 1487"
proof -
  let ?h = "(sample_header 4 FatPointer_null)\<lparr>solution := Solution_for_proposal\<rparr>"
  have wf: "wf_header ?h"
    using wf_sample_header(1) by (simp add: wf_header_def Solution_for_proposal_def)
  then obtain b where b: "Header_serialize ?h = Some b" using Header_serialize_total by blast
  have s: "solution ?h = Common (replicate SOLUTION_SIZE 0)" by (simp add: Solution_for_proposal_def)
  have "logical_version (version ?h) = 4" by (simp add: sample_header_def logical_version_def)
  with header_length_constant_too_large[OF wf s b] b show ?thesis by simp
qed

end
