(* ===== verification/Bft_Block.thy ===== *)
theory Bft_Block
  imports Block_Header
begin

text \<open>
  BFT blocks (\<^verbatim>\<open>zebra-crosslink/src/chain.rs\<close>): a height, a fat pointer to the previous BFT block and
  a list of proof-of-work headers, of which the first is finalized when the block is decided.
  BLAKE3 is a parameter, as is the flag that selects its unkeyed mode in tests.
\<close>

section \<open>Data\<close>

record BftBlock =
  bft_version :: u32
  bft_height :: u32
  previous_block_fat_ptr :: FatPointerToBftBlock2
  finalization_candidate_height :: u32
  headers :: "Header list"

datatype InvalidBftBlock = IncorrectConfirmationDepth u64 u64

record ZcashCrosslinkParameters =
  bc_confirmation_depth_sigma :: u64
  finalization_gap_bound :: u64

definition PROTOTYPE_PARAMETERS :: ZcashCrosslinkParameters where
  "PROTOTYPE_PARAMETERS = \<lparr>bc_confirmation_depth_sigma = 3, finalization_gap_bound = 7\<rparr>"

record BftBlockAndFatPointerToIt =
  block :: BftBlock
  fat_ptr :: FatPointerToBftBlock2

text \<open>The hash functions the code calls: \<^verbatim>\<open>blake3::Hasher::new()\<close>, the hasher keyed with
  \<^verbatim>\<open>HashKeys::default().value_id\<close>, and the \<^verbatim>\<open>TEST_MODE\<close> flag that chooses between them.\<close>

record hashers =
  TEST_MODE :: bool
  blake3_new :: "bytes \<Rightarrow> bytes"
  blake3_new_keyed :: "bytes \<Rightarrow> bytes"

section \<open>Operations\<close>

text \<open>Writing stops at the first header that fails; what was written before it stays written.\<close>

fun write_headers :: "Header list \<Rightarrow> (string option \<times> bytes) option" where
  "write_headers [] = Some (None, [])"
| "write_headers (h # hs) =
     (case Header_zcash_serialize h of
        None \<Rightarrow> None
      | Some (Inl e) \<Rightarrow> Some (Some e, [])
      | Some (Inr b) \<Rightarrow> map_option (\<lambda>(e, bs). (e, b @ bs)) (write_headers hs))"

definition BftBlock_write :: "BftBlock \<Rightarrow> (string option \<times> bytes) option" where
  "BftBlock_write b = do {
     n \<leftarrow> (if length (headers b) < 2 ^ 32 then Some (of_nat (length (headers b)) :: u32) else None);
     (e, hs) \<leftarrow> write_headers (headers b);
     Some (e, u32_le (bft_version b) @ u32_le (bft_height b) @
       FatPointer2_serialize (previous_block_fat_ptr b) @
       u32_le (finalization_candidate_height b) @ u32_le n @ hs) }"

definition BftBlock_zcash_serialize :: "BftBlock \<Rightarrow> (string + bytes) option" where
  "BftBlock_zcash_serialize b =
     map_option (\<lambda>(e, bs). case e of None \<Rightarrow> Inr bs | Some e \<Rightarrow> Inl e) (BftBlock_write b)"

definition BftBlock_zcash_deserialize :: "BftBlock reader" where
  "BftBlock_zcash_deserialize bs =
     try_bind (read_u32 bs) (\<lambda>(v, r).
     try_bind (read_u32 r) (\<lambda>(h, r).
     try_bind (FatPointer2_deserialize r) (\<lambda>(fp, r).
     try_bind (read_u32 r) (\<lambda>(fch, r).
     try_bind (read_u32 r) (\<lambda>(header_count, r).
     if header_count > 2048 then Inl (Parse ''header_count was greater than 2048.'')
     else try_bind (read_items Header_zcash_deserialize (unat header_count) r) (\<lambda>(array, r).
     Inr (\<lparr>bft_version = v, bft_height = h, previous_block_fat_ptr = fp,
           finalization_candidate_height = fch, headers = array\<rparr>, r)))))))"

definition finalization_candidate :: "BftBlock \<Rightarrow> Header option" where
  "finalization_candidate b = (if headers b = [] then None else Some (last (headers b)))"

definition BftBlock_try_from ::
  "ZcashCrosslinkParameters \<Rightarrow> u32 \<Rightarrow> FatPointerToBftBlock2 \<Rightarrow> u32 \<Rightarrow> Header list \<Rightarrow>
   InvalidBftBlock + BftBlock" where
  "BftBlock_try_from params h fp fch hs =
     (let expected = bc_confirmation_depth_sigma params; actual = of_nat (length hs) in
      if actual \<noteq> expected then Inl (IncorrectConfirmationDepth expected actual)
      else Inr \<lparr>bft_version = 1, bft_height = h, previous_block_fat_ptr = fp,
                finalization_candidate_height = fch, headers = hs\<rparr>)"

definition BftBlock_serialize :: "BftBlock \<Rightarrow> bytes option" where
  "BftBlock_serialize b = (case BftBlock_zcash_serialize b of Some (Inr bs) \<Rightarrow> Some bs | _ \<Rightarrow> None)"

definition blake3_hash :: "hashers \<Rightarrow> BftBlock \<Rightarrow> bytes option" where
  "blake3_hash H b =
     map_option (if TEST_MODE H then blake3_new H else blake3_new_keyed H) (BftBlock_serialize b)"

definition bft_previous_block_hash :: "BftBlock \<Rightarrow> bytes" where
  "bft_previous_block_hash b = points_at_block_hash (previous_block_fat_ptr b)"

definition Blake3Hash_serialize :: "bytes \<Rightarrow> bytes" where
  "Blake3Hash_serialize h = h"

definition Blake3Hash_deserialize :: "bytes reader" where
  "Blake3Hash_deserialize = read_32_bytes"

text \<open>The pair ignores the result of writing the block and always succeeds.\<close>

definition BftBlockAndFatPointerToIt_serialize :: "BftBlockAndFatPointerToIt \<Rightarrow> bytes option" where
  "BftBlockAndFatPointerToIt_serialize p = do {
     (_, bs) \<leftarrow> BftBlock_write (block p);
     Some (bs @ FatPointer2_serialize (fat_ptr p)) }"

definition BftBlockAndFatPointerToIt_deserialize :: "BftBlockAndFatPointerToIt reader" where
  "BftBlockAndFatPointerToIt_deserialize bs =
     try_bind (BftBlock_zcash_deserialize bs) (\<lambda>(b, r).
     try_bind (FatPointer2_deserialize r) (\<lambda>(fp, r).
     Inr (\<lparr>block = b, fat_ptr = fp\<rparr>, r)))"

section \<open>Round trip\<close>

definition wf_bft_block :: "BftBlock \<Rightarrow> bool" where
  "wf_bft_block b \<longleftrightarrow> wf_fat_pointer2 (previous_block_fat_ptr b) \<and>
     length (signatures2 (previous_block_fat_ptr b)) \<le> 65535 \<and>
     length (headers b) \<le> 2048 \<and> (\<forall>h \<in> set (headers b). wf_header h)"

lemma write_headers_ok_iff:
  "write_headers hs = Some (None, bs) \<longleftrightarrow> zcash_serialize_external_count Header_serialize hs = Some bs"
proof (induction hs arbitrary: bs)
  case (Cons h hs)
  show ?case
  proof (cases "Header_zcash_serialize h")
    case (Some r)
    with Cons show ?thesis
      by (cases r; cases "write_headers hs";
          cases "zcash_serialize_external_count Header_serialize hs")
        (force simp: Header_serialize_def)+
  qed (simp add: Header_serialize_def)
qed simp

lemma BftBlock_serialize_Some:
  "BftBlock_serialize b = Some bs \<longleftrightarrow> length (headers b) < 2 ^ 32 \<and>
    (\<exists>hs. zcash_serialize_external_count Header_serialize (headers b) = Some hs \<and>
      bs = u32_le (bft_version b) @ u32_le (bft_height b) @
        FatPointer2_serialize (previous_block_fat_ptr b) @
        u32_le (finalization_candidate_height b) @ u32_le (of_nat (length (headers b))) @ hs)"
proof -
  have "BftBlock_serialize b = Some bs \<longleftrightarrow> BftBlock_write b = Some (None, bs)"
    by (auto simp: BftBlock_serialize_def BftBlock_zcash_serialize_def
        split: option.splits sum.splits)
  also have "\<dots> \<longleftrightarrow> length (headers b) < 2 ^ 32 \<and> (\<exists>hs. write_headers (headers b) = Some (None, hs) \<and>
      bs = u32_le (bft_version b) @ u32_le (bft_height b) @
        FatPointer2_serialize (previous_block_fat_ptr b) @
        u32_le (finalization_candidate_height b) @ u32_le (of_nat (length (headers b))) @ hs)"
    by (cases "write_headers (headers b)") (auto simp: BftBlock_write_def)
  finally show ?thesis by (simp only: write_headers_ok_iff)
qed

lemma u32_count_iff: "n = unat (w :: u32) \<and> \<not> w > 2048 \<longleftrightarrow> n \<le> 2048 \<and> w = of_nat n"
  by (auto simp: unat_of_nat word_less_nat_alt)

lemma BftBlock_de_iff:
  "BftBlock_zcash_deserialize bs = Inr (b, r) \<longleftrightarrow>
    wf_bft_block b \<and> (\<exists>c. BftBlock_serialize b = Some c \<and> bs = c @ r)"
proof -
  let ?pre = "\<lambda>n. u32_le (bft_version b) @ u32_le (bft_height b) @
        FatPointer2_serialize (previous_block_fat_ptr b) @
        u32_le (finalization_candidate_height b) @ u32_le n"
  have "BftBlock_zcash_deserialize bs = Inr (b, r) \<longleftrightarrow>
      wf_fat_pointer2 (previous_block_fat_ptr b) \<and>
      length (signatures2 (previous_block_fat_ptr b)) \<le> 65535 \<and>
      (\<forall>h \<in> set (headers b). wf_header h) \<and>
      (\<exists>n. (length (headers b) = unat n \<and> \<not> n > 2048) \<and>
        (\<exists>hs. zcash_serialize_external_count Header_serialize (headers b) = Some hs \<and>
          bs = ?pre n @ hs @ r))"
    unfolding BftBlock_zcash_deserialize_def
    by (cases b) (auto simp: try_bind_Inr_iff wire_simps FatPointer2_de_iff guard_Inr_iff
        header_codec.read_items_iff, blast)
  also have "\<dots> \<longleftrightarrow> wf_bft_block b \<and> (\<exists>c. BftBlock_serialize b = Some c \<and> bs = c @ r)"
    unfolding u32_count_iff by (auto simp: wf_bft_block_def BftBlock_serialize_Some)
  finally show ?thesis .
qed

lemma BftBlock_serialize_total: "wf_bft_block b \<Longrightarrow> \<exists>c. BftBlock_serialize b = Some c"
  using header_codec.ser_items_total[of "headers b"]
  by (auto simp: wf_bft_block_def BftBlock_serialize_Some)

interpretation bft_block_codec: canonical_codec
  BftBlock_serialize BftBlock_zcash_deserialize wf_bft_block
  by unfold_locales (auto simp: BftBlock_de_iff BftBlock_serialize_total)

lemma BftBlock_write_ok: "BftBlock_serialize b = Some c \<Longrightarrow> BftBlock_write b = Some (None, c)"
  by (auto simp: BftBlock_serialize_def BftBlock_zcash_serialize_def
      split: option.splits sum.splits)

definition wf_bft_pair :: "BftBlockAndFatPointerToIt \<Rightarrow> bool" where
  "wf_bft_pair p \<longleftrightarrow> wf_bft_block (block p) \<and> wf_fat_pointer2 (fat_ptr p) \<and>
     length (signatures2 (fat_ptr p)) \<le> 65535"

lemma bft_pair_serialize:
  assumes "wf_bft_pair p"
  obtains c where "BftBlock_serialize (block p) = Some c"
    and "BftBlockAndFatPointerToIt_serialize p = Some (c @ FatPointer2_serialize (fat_ptr p))"
proof -
  obtain c where c: "BftBlock_serialize (block p) = Some c"
    using assms BftBlock_serialize_total by (auto simp: wf_bft_pair_def)
  then show thesis
    using that by (simp add: BftBlockAndFatPointerToIt_serialize_def BftBlock_write_ok)
qed

lemma bft_pair_de_iff:
  "BftBlockAndFatPointerToIt_deserialize bs = Inr (p, r) \<longleftrightarrow>
    wf_bft_pair p \<and> (\<exists>c. BftBlockAndFatPointerToIt_serialize p = Some c \<and> bs = c @ r)"
proof (cases "wf_bft_pair p")
  case True
  then obtain c where c: "BftBlock_serialize (block p) = Some c"
    "BftBlockAndFatPointerToIt_serialize p = Some (c @ FatPointer2_serialize (fat_ptr p))"
    by (rule bft_pair_serialize)
  with True show ?thesis
    by (cases p) (auto simp: BftBlockAndFatPointerToIt_deserialize_def try_bind_Inr_iff
        BftBlock_de_iff FatPointer2_de_iff wf_bft_pair_def)
next
  case False
  then show ?thesis
    by (auto simp: BftBlockAndFatPointerToIt_deserialize_def try_bind_Inr_iff
        BftBlock_de_iff FatPointer2_de_iff wf_bft_pair_def)
qed

interpretation bft_pair_codec: canonical_codec
  BftBlockAndFatPointerToIt_serialize BftBlockAndFatPointerToIt_deserialize wf_bft_pair
  by unfold_locales (auto simp: bft_pair_de_iff elim: bft_pair_serialize)

section \<open>Properties\<close>

text \<open>C22: BFT blocks, and BFT blocks paired with the fat pointer that certifies them, are read
  from the wire exactly as they are written: at most 2048 headers, each well formed, and at most
  65535 signatures. Every well-formed pair can be written.\<close>

theorem bft_block_wire_canonical:
  "(BftBlock_zcash_deserialize bs = Inr (b, rest) \<longleftrightarrow>
     wf_bft_block b \<and> (\<exists>c. BftBlock_serialize b = Some c \<and> bs = c @ rest)) \<and>
   (BftBlockAndFatPointerToIt_deserialize bs = Inr (p, rest) \<longleftrightarrow>
     wf_bft_pair p \<and> (\<exists>c. BftBlockAndFatPointerToIt_serialize p = Some c \<and> bs = c @ rest)) \<and>
   (wf_bft_pair p \<longrightarrow> BftBlockAndFatPointerToIt_serialize p \<noteq> None)"
  using bft_block_codec.de_iff bft_pair_codec.de_iff bft_pair_codec.ser_total[of p] by auto

definition sample_bft_block :: BftBlock where
  "sample_bft_block =
     \<lparr>bft_version = 1, bft_height = 1, previous_block_fat_ptr = FatPointer2_null,
      finalization_candidate_height = 2000, headers = [sample_header 5 FatPointer_null]\<rparr>"

lemma wf_sample_bft_block: "wf_bft_block sample_bft_block"
  using wf_sample_header
  by (simp add: wf_bft_block_def sample_bft_block_def wf_fat_pointer2_def FatPointer2_null_def)

theorem bft_block_wire_canonical_witness:
  "BftBlockAndFatPointerToIt_serialize \<lparr>block = sample_bft_block, fat_ptr = FatPointer2_null\<rparr> \<noteq> None"
  using bft_block_wire_canonical[of "[]" sample_bft_block "[]"
      "\<lparr>block = sample_bft_block, fat_ptr = FatPointer2_null\<rparr>"] wf_sample_bft_block
  by (simp add: wf_bft_pair_def wf_fat_pointer2_def FatPointer2_null_def)

text \<open>No two of the given blocks have different encodings with the same hash. Then equal hashes mean equal
  blocks.\<close>

definition collision_free :: "hashers \<Rightarrow> BftBlock set \<Rightarrow> bool" where
  "collision_free H B \<longleftrightarrow> (\<forall>a\<in>B. \<forall>b\<in>B. blake3_hash H a = blake3_hash H b \<longrightarrow> BftBlock_serialize a = BftBlock_serialize b)"

lemma blake3_hash_commits:
  assumes "collision_free H B" "a \<in> B" "b \<in> B" "wf_bft_block a" "wf_bft_block b" "blake3_hash H a = blake3_hash H b"
  shows "a = b"
proof -
  obtain c where c: "BftBlock_serialize a = Some c" using assms(4) bft_block_codec.ser_total by blast
  have d: "BftBlock_serialize b = Some c"
    using assms(1)[unfolded collision_free_def, rule_format, OF assms(2,3,6)] c by simp
  from bft_block_codec.prefix_free[OF assms(4,5) c d refl] show ?thesis by (rule conjunct1)
qed

text \<open>Neither way to obtain a BFT block checks more than the number of headers. Any list of
  up to 2048 well-formed headers, the empty list included and whatever block each one names as its
  parent, is the header list of a block that the deserializer returns; and \<^verbatim>\<open>try_from\<close> accepts any list
  of exactly \<^verbatim>\<open>bc_confirmation_depth_sigma\<close> headers and refuses every other length below 2 to the 64.\<close>

theorem bft_block_construction_unchecked:
  assumes "length hs \<le> 2048" and "\<forall>h \<in> set hs. wf_header h"
  shows "(\<exists>bs b. BftBlock_zcash_deserialize bs = Inr (b, []) \<and> headers b = hs) \<and>
    (unat (bc_confirmation_depth_sigma params) = length hs \<longleftrightarrow>
      (\<exists>b. BftBlock_try_from params n fp fch hs = Inr b \<and> headers b = hs))"
proof -
  let ?b = "sample_bft_block\<lparr>headers := hs\<rparr>"
  have "wf_bft_block ?b" using assms wf_sample_bft_block by (simp add: wf_bft_block_def)
  then obtain c where "BftBlock_zcash_deserialize (c @ []) = Inr (?b, [])"
    using bft_block_codec.ser_total bft_block_codec.de_ser by blast
  then have "\<exists>bs b. BftBlock_zcash_deserialize bs = Inr (b, []) \<and> headers b = hs" by force
  moreover have "unat s = length hs \<longleftrightarrow> of_nat (length hs) = s" for s :: u64
    using assms(1) by (auto simp: unat_of_nat dest: sym)
  ultimately show ?thesis by (auto simp: BftBlock_try_from_def Let_def)
qed

theorem bft_block_construction_unchecked_witness:
  "\<exists>bs b. BftBlock_zcash_deserialize bs = Inr (b, []) \<and> headers b = []"
  using bft_block_construction_unchecked[of "[]"] by simp

end
