(* ===== verification/Roster.thy ===== *)
theory Roster
  imports Crosslink_Prelude "HOL-Library.Product_Lexorder" "HOL-Library.List_Lexorder"
    "HOL-Library.Multiset"
begin

text \<open>
  The finalizer roster (\<^verbatim>\<open>zebra-crosslink/src/lib.rs\<close>): stake commands, the reward for each
  finalized proof-of-work block, and the sorted roster handed to the BFT engine. Voting powers are
  64-bit words whose sums wrap. The engine's order on public keys is a parameter, as is the
  conversion of keys; a staking action is the record of the fields that the code reads.
\<close>

section \<open>Data\<close>

record MalValidator =
  address :: bytes
  val_public_key :: bytes
  voting_power :: u64

definition MalValidator_new :: "bytes \<Rightarrow> u64 \<Rightarrow> MalValidator" where
  "MalValidator_new k p = \<lparr>address = k, val_public_key = k, voting_power = p\<rparr>"

datatype StakingActionKind = Add | Sub | Clear | Move | MoveClear

record StakingAction =
  action_kind :: StakingActionKind
  action_val :: u64
  action_target :: bytes
  action_source :: bytes
  insecure_target_name :: string
  insecure_source_name :: string

type_synonym key_names = "bytes \<rightharpoonup> string"

text \<open>A transaction, as far as the roster reads it.\<close>

datatype pow_transaction = VCrosslink "StakingAction option" | OtherTransaction

record SortedRosterMember =
  pub_key :: bytes
  stake :: u64
  cumulative_stake :: u64

section \<open>Stake commands\<close>

text \<open>\<^verbatim>\<open>iter_mut().find(p)\<close> and an update of what it finds.\<close>

fun update_first :: "('a \<Rightarrow> bool) \<Rightarrow> ('a \<Rightarrow> 'a) \<Rightarrow> 'a list \<Rightarrow> 'a list" where
  "update_first P f [] = []"
| "update_first P f (x # xs) = (if P x then f x # xs else x # update_first P f xs)"

definition has_key :: "bytes \<Rightarrow> MalValidator \<Rightarrow> bool" where
  "has_key k v \<longleftrightarrow> val_public_key v = k"

definition add_power :: "u64 \<Rightarrow> MalValidator \<Rightarrow> MalValidator" where
  "add_power p v = v\<lparr>voting_power := voting_power v + p\<rparr>"

definition sub_power :: "u64 \<Rightarrow> MalValidator \<Rightarrow> MalValidator" where
  "sub_power p v = v\<lparr>voting_power := voting_power v - p\<rparr>"

definition command_parts :: "StakingAction \<Rightarrow> bool \<times> bytes option \<times> bool" where
  "command_parts action = (case action_kind action of
      Add \<Rightarrow> (True, None, False)
    | Sub \<Rightarrow> (False, Some (action_target action), False)
    | Clear \<Rightarrow> (False, Some (action_target action), True)
    | Move \<Rightarrow> (True, Some (action_source action), False)
    | MoveClear \<Rightarrow> (True, Some (action_source action), True))"

text \<open>The subtraction: \<open>None\<close> is the early return of zero with nothing changed, otherwise the roster
  and the amount to add to the target.\<close>

definition subtract_stake ::
  "bytes \<Rightarrow> bool \<Rightarrow> u64 \<Rightarrow> MalValidator list \<Rightarrow> (MalValidator list \<times> u64) option" where
  "subtract_stake sub_key is_clear val roster =
     (case find (has_key sub_key) roster of
        None \<Rightarrow> None
      | Some member \<Rightarrow>
          if voting_power member < val then None
          else let amount = (if is_clear then voting_power member - val else val) in
               Some (update_first (has_key sub_key) (sub_power amount) roster, amount))"

definition add_stake ::
  "bytes \<Rightarrow> string \<Rightarrow> u64 \<Rightarrow> MalValidator list \<Rightarrow> key_names \<Rightarrow> MalValidator list \<times> key_names" where
  "add_stake add_key name amount roster names =
     (case find (has_key add_key) roster of
        Some _ \<Rightarrow> (update_first (has_key add_key) (add_power amount) roster, names)
      | None \<Rightarrow> (roster @ [MalValidator_new add_key amount], names(add_key \<mapsto> name)))"

definition update_roster_for_cmd ::
  "MalValidator list \<Rightarrow> key_names \<Rightarrow> StakingAction \<Rightarrow> MalValidator list \<times> key_names \<times> nat" where
  "update_roster_for_cmd roster names action =
     (let (has_add, sub_key, is_clear) = command_parts action in
      case (case sub_key of
              None \<Rightarrow> Some (roster, action_val action)
            | Some k \<Rightarrow> subtract_stake k is_clear (action_val action) roster) of
        None \<Rightarrow> (roster, names, 0)
      | Some (roster', amount) \<Rightarrow>
          if has_add then
            let (r, n) = add_stake (action_target action) (insecure_target_name action)
                           amount roster' names
            in (r, n, 1)
          else (roster', names, 1))"

fun update_roster_for_block ::
  "MalValidator list \<Rightarrow> key_names \<Rightarrow> pow_transaction list \<Rightarrow> MalValidator list \<times> key_names \<times> nat" where
  "update_roster_for_block roster names [] = (roster, names, 0)"
| "update_roster_for_block roster names (tx # txs) =
     (let (r, n, c) = (case tx of
          VCrosslink (Some action) \<Rightarrow> update_roster_for_cmd roster names action
        | _ \<Rightarrow> (roster, names, 0));
        (r', n', c') = update_roster_for_block r n txs
      in (r', n', c + c'))"

section \<open>Rewards\<close>

definition pos_total_reward :: u64 where "pos_total_reward = 6000"

text \<open>One step of the loop that finds the total voting power and the first largest finalizer.\<close>

definition scan_step :: "MalValidator list \<Rightarrow> nat \<Rightarrow> u64 \<times> nat option \<Rightarrow> u64 \<times> nat option" where
  "scan_step finalizers i acc =
     (let (total_voting_power, mx) = acc; p = voting_power (finalizers ! i) in
      if p = 0 then (total_voting_power, mx)
      else (total_voting_power + p,
            case mx of None \<Rightarrow> Some i
            | Some m \<Rightarrow> if voting_power (finalizers ! m) < p then Some i else Some m))"

definition scan_finalizers :: "MalValidator list \<Rightarrow> u64 \<times> nat option" where
  "scan_finalizers finalizers = fold (scan_step finalizers) [0..<length finalizers] (0, None)"

text \<open>\<^verbatim>\<open>mul\<close> is computed in \<^verbatim>\<open>u128\<close> and the quotient truncated to \<^verbatim>\<open>u64\<close>; a zero total panics.\<close>

definition reward_share :: "u64 \<Rightarrow> u64 \<Rightarrow> u64 option" where
  "reward_share p total_voting_power =
     (if total_voting_power = 0 then None
      else Some (ucast (((ucast p :: u128) * ucast pos_total_reward) div ucast total_voting_power)))"

definition share_step ::
  "u64 \<Rightarrow> nat option \<Rightarrow> nat \<Rightarrow> MalValidator list \<times> u64 \<Rightarrow> (MalValidator list \<times> u64) option" where
  "share_step total_voting_power mx i acc =
     (let (finalizers, sum_reward) = acc; p = voting_power (finalizers ! i) in
      if p = 0 then Some acc
      else case mx of
          None \<Rightarrow> None
        | Some m \<Rightarrow>
            if i = m then Some acc
            else do {
              reward \<leftarrow> reward_share p total_voting_power;
              Some (finalizers[i := add_power reward (finalizers ! i)], sum_reward + reward) })"

fun share_loop ::
  "u64 \<Rightarrow> nat option \<Rightarrow> nat list \<Rightarrow> MalValidator list \<times> u64 \<Rightarrow> (MalValidator list \<times> u64) option" where
  "share_loop total_voting_power mx [] acc = Some acc"
| "share_loop total_voting_power mx (i # is) acc = Option.bind (share_step total_voting_power mx i acc) (share_loop total_voting_power mx is)"

definition distribute_reward :: "MalValidator list \<Rightarrow> MalValidator list option" where
  "distribute_reward finalizers =
     (let (total_voting_power, mx) = scan_finalizers finalizers in
      Option.bind (share_loop total_voting_power mx [0..<length finalizers] (finalizers, 0))
        (\<lambda>(finalizers, sum_reward).
          case mx of
            None \<Rightarrow> Some finalizers
          | Some m \<Rightarrow> do {
              reward \<leftarrow> reward_share (voting_power (finalizers ! m)) total_voting_power;
              let rem_reward = pos_total_reward - sum_reward in
              if reward \<le> rem_reward
              then Some (finalizers[m := add_power rem_reward (finalizers ! m)])
              else None }))"

section \<open>The roster given to the BFT engine\<close>

fun set_cumulative :: "u64 \<Rightarrow> SortedRosterMember list \<Rightarrow> SortedRosterMember list" where
  "set_cumulative acc [] = []"
| "set_cumulative acc (m # ms) =
     m\<lparr>cumulative_stake := acc + stake m\<rparr> # set_cumulative (acc + stake m) ms"

text \<open>\<open>pub_key_id\<close> converts a key to the engine's type, whose order is the class instance. A stable
  sort by \<^verbatim>\<open>Reverse(key)\<close> is a stable ascending sort of the reversed list, reversed.\<close>

definition tenderlink_roster_from_internal ::
  "(bytes \<Rightarrow> 'k :: linorder) \<Rightarrow> MalValidator list \<Rightarrow> SortedRosterMember list" where
  "tenderlink_roster_from_internal pub_key_id vals =
     (let ret = map (\<lambda>v. \<lparr>pub_key = val_public_key v, stake = voting_power v, cumulative_stake = 0\<rparr>) vals
      in set_cumulative 0
           (rev (sort_key (\<lambda>m. (stake m, pub_key_id (pub_key m))) (rev ret))))"

definition current_validator_set :: "bytes \<Rightarrow> MalValidator list \<Rightarrow> MalValidator list" where
  "current_validator_set my_public_key vals =
     (if find (\<lambda>v. address v = my_public_key) vals = None
      then vals @ [\<lparr>address = my_public_key, val_public_key = my_public_key, voting_power = 0\<rparr>]
      else vals)"

section \<open>Stake of a key and in total\<close>

definition stake_of :: "MalValidator list \<Rightarrow> bytes \<Rightarrow> u64" where
  "stake_of roster k = (case find (has_key k) roster of None \<Rightarrow> 0 | Some v \<Rightarrow> voting_power v)"

definition roster_keys :: "MalValidator list \<Rightarrow> bytes list" where
  "roster_keys roster = map val_public_key roster"

definition total_stake :: "MalValidator list \<Rightarrow> nat" where
  "total_stake roster = sum_list (map (\<lambda>v. unat (voting_power v)) roster)"

text \<open>No key twice, and the sum of all voting powers does not wrap.\<close>

definition roster_ok :: "MalValidator list \<Rightarrow> bool" where
  "roster_ok roster \<longleftrightarrow> distinct (roster_keys roster) \<and> total_stake roster < 2 ^ 64"

section \<open>Rewards are exact\<close>

abbreviation power_at :: "MalValidator list \<Rightarrow> nat \<Rightarrow> nat" where
  "power_at fs i \<equiv> unat (voting_power (fs ! i))"

lemma total_stake_sum: "total_stake fs = (\<Sum>i < length fs. power_at fs i)"
  by (simp add: total_stake_def sum_list_sum_nth atLeast0LessThan)

lemma scan_prefix:
  assumes "fold (scan_step fs) [0..<n] (0, None) = (t, mx)"
  shows "t = of_nat (\<Sum>i < n. power_at fs i) \<and> (case mx of None \<Rightarrow> \<forall>i < n. power_at fs i = 0
      | Some m \<Rightarrow> m < n \<and> power_at fs m \<noteq> 0 \<and> (\<forall>i < n. power_at fs i \<le> power_at fs m))"
  using assms
proof (induction n arbitrary: t mx)
  case (Suc n)
  obtain t' mx' where acc: "fold (scan_step fs) [0..<n] (0, None) = (t', mx')" by fastforce
  have step: "scan_step fs n (t', mx') = (t, mx)" using Suc.prems acc by simp
  note IH = Suc.IH[OF acc]
  have "t = of_nat (\<Sum>i < Suc n. power_at fs i)"
    using IH step by (auto simp: scan_step_def Let_def split: if_splits)
  moreover have "case mx of None \<Rightarrow> \<forall>i < Suc n. power_at fs i = 0
      | Some m \<Rightarrow> m < Suc n \<and> power_at fs m \<noteq> 0 \<and> (\<forall>i < Suc n. power_at fs i \<le> power_at fs m)"
    using IH step
    by (cases mx') (auto simp: scan_step_def Let_def less_Suc_eq word_less_nat_alt unat_eq_0
        split: if_splits, meson le_less_trans less_imp_le)
  ultimately show ?case by blast
qed auto

lemma reward_share_eq:
  assumes "t \<noteq> 0"
  shows "reward_share p t = Some (of_nat (unat p * 6000 div unat t))"
proof -
  have "unat (ucast p :: u128) = unat p" "unat (ucast t :: u128) = unat t" for p t :: u64
    using unat_uN_less(3)[of p] unat_uN_less(3)[of t]
    by (simp_all add: unsigned_ucast_eq unsigned_take_bit_eq take_bit_eq_mod)
  then have "unat (((ucast p :: u128) * ucast pos_total_reward) div ucast t) = unat p * 6000 div unat t"
    using unat_uN_less(3)[of p]
    by (simp add: unat_div_distrib unat_word_ariths pos_total_reward_def)
  then show ?thesis
    using assms by (simp add: reward_share_def) (metis of_nat_unat)
qed

definition shared :: "MalValidator list \<Rightarrow> (nat \<Rightarrow> nat) \<Rightarrow> nat \<Rightarrow> nat \<Rightarrow> MalValidator list" where
  "shared fs sh m n =
     map (\<lambda>i. if i < n \<and> i \<noteq> m then add_power (of_nat (sh i)) (fs ! i) else fs ! i) [0..<length fs]"

lemma share_loop_snoc:
  "share_loop t mx (xs @ [i]) acc = Option.bind (share_loop t mx xs acc) (share_step t mx i)"
proof (induction xs arbitrary: acc)
  case Nil
  show ?case by (cases "share_step t mx i acc") auto
next
  case (Cons x xs)
  then show ?case by (cases "share_step t mx x acc") auto
qed

lemma add_power_0: "add_power 0 v = v"
  by (simp add: add_power_def)

lemma shared_0: "shared fs sh m 0 = fs"
  by (simp add: shared_def map_nth)

lemma shared_nth: "i < length fs \<Longrightarrow> shared fs sh m n ! i =
    (if i < n \<and> i \<noteq> m then add_power (of_nat (sh i)) (fs ! i) else fs ! i)"
  by (simp add: shared_def)

lemma shared_Suc:
  assumes "n < length fs"
  shows "shared fs sh m (Suc n) = (if n = m then shared fs sh m n
    else (shared fs sh m n)[n := add_power (of_nat (sh n)) (fs ! n)])"
proof (rule nth_equalityI)
  show "length (shared fs sh m (Suc n)) = length (if n = m then shared fs sh m n
      else (shared fs sh m n)[n := add_power (of_nat (sh n)) (fs ! n)])"
    by (simp add: shared_def)
  fix i assume "i < length (shared fs sh m (Suc n))"
  then have "i < length fs" by (simp add: shared_def)
  then show "shared fs sh m (Suc n) ! i = (if n = m then shared fs sh m n
      else (shared fs sh m n)[n := add_power (of_nat (sh n)) (fs ! n)]) ! i"
    using assms by (auto simp: shared_nth nth_list_update less_Suc_eq shared_def)
qed

lemma share_step_shared:
  assumes "reward_share (voting_power (fs ! n)) t = Some (of_nat (sh n))"
    and "voting_power (fs ! n) = 0 \<Longrightarrow> sh n = 0" and "n < length fs"
  shows "share_step t (Some m) n (shared fs sh m n, s) =
    Some (shared fs sh m (Suc n), s + (if n = m then 0 else of_nat (sh n)))"
  using assms by (auto simp: share_step_def Let_def shared_nth shared_Suc add_power_0)
    (metis (no_types, lifting) list_update_id nth_list_update_eq shared_nth less_irrefl)

lemma sum_less_Suc_minus:
  "(\<Sum>i \<in> {..<Suc n} - {m}. f i) = (\<Sum>i \<in> {..<n} - {m}. f i) + (if n = m then 0 else f n :: nat)"
proof -
  have "{..<Suc n} - {m} = (if n = m then {..<n} - {m} else insert n ({..<n} - {m}))" by auto
  then show ?thesis by simp
qed

lemma share_loop_prefix:
  assumes "\<And>i. i < n \<Longrightarrow> reward_share (voting_power (fs ! i)) t = Some (of_nat (sh i))"
    and "\<And>i. i < n \<Longrightarrow> voting_power (fs ! i) = 0 \<Longrightarrow> sh i = 0" and "n \<le> length fs"
  shows "share_loop t (Some m) [0..<n] (fs, 0) =
    Some (shared fs sh m n, of_nat (\<Sum>i \<in> {..<n} - {m}. sh i))"
  using assms
proof (induction n)
  case 0
  show ?case by (simp add: shared_0)
next
  case (Suc n)
  have "share_loop t (Some m) [0..<Suc n] (fs, 0) =
      share_step t (Some m) n (shared fs sh m n, of_nat (\<Sum>i \<in> {..<n} - {m}. sh i))"
    using Suc by (simp add: share_loop_snoc del: of_nat_sum)
  also have "\<dots> = Some (shared fs sh m (Suc n), of_nat (\<Sum>i \<in> {..<Suc n} - {m}. sh i))"
    using Suc.prems by (subst share_step_shared)
      (auto simp: sum_less_Suc_minus simp del: of_nat_sum)
  finally show ?case .
qed

lemma sum_div_le: "finite A \<Longrightarrow> (\<Sum>i \<in> A. f i div T) \<le> (\<Sum>i \<in> A. f i) div (T :: nat)"
proof (induction rule: finite_induct)
  case (insert x A)
  have "f x div T + (\<Sum>i \<in> A. f i) div T \<le> (f x + (\<Sum>i \<in> A. f i)) div T"
    by (subst div_add1_eq) simp
  with insert show ?case by simp
qed simp

text \<open>The floor shares of all finalizers together are at most the reward.\<close>

lemma shares_le_reward:
  assumes "m < length fs"
  shows "power_at fs m * 6000 div total_stake fs +
    (\<Sum>i \<in> {..<length fs} - {m}. power_at fs i * 6000 div total_stake fs) \<le> 6000"
proof -
  have "(\<Sum>i < length fs. power_at fs i * 6000 div total_stake fs) \<le>
      (\<Sum>i < length fs. power_at fs i * 6000) div total_stake fs"
    by (rule sum_div_le) simp
  also have "\<dots> \<le> 6000"
    by (simp add: total_stake_sum sum_distrib_right[symmetric])
  finally show ?thesis
    using assms by (simp add: sum.remove[of _ m])
qed

definition rewarded :: "MalValidator list \<Rightarrow> (nat \<Rightarrow> nat) \<Rightarrow> MalValidator list" where
  "rewarded fs gain = map (\<lambda>i. add_power (of_nat (gain i)) (fs ! i)) [0..<length fs]"

lemma power_le_total: "i < length fs \<Longrightarrow> power_at fs i \<le> total_stake fs"
  unfolding total_stake_sum by (rule member_le_sum) auto

lemma unat_add_of_nat:
  assumes "unat (w :: u64) + n < 2 ^ 64"
  shows "unat (w + of_nat n) = unat w + n"
proof -
  have "unat (of_nat n :: u64) = n" using assms by (simp add: unat_of_nat)
  then show ?thesis using assms by (simp add: unat_word_ariths)
qed

lemma rewarded_facts:
  assumes "total_stake fs + (\<Sum>i < length fs. gain i) < 2 ^ 64"
  shows "length (rewarded fs gain) = length fs"
    and "roster_keys (rewarded fs gain) = roster_keys fs"
    and "\<forall>i < length fs. power_at (rewarded fs gain) i = power_at fs i + gain i"
    and "total_stake (rewarded fs gain) = total_stake fs + (\<Sum>i < length fs. gain i)"
proof -
  show len: "length (rewarded fs gain) = length fs" by (simp add: rewarded_def)
  show "roster_keys (rewarded fs gain) = roster_keys fs"
    by (rule nth_equalityI) (simp_all add: rewarded_def roster_keys_def add_power_def)
  have bound: "power_at fs i + gain i < 2 ^ 64" if "i < length fs" for i
  proof -
    have "gain i \<le> (\<Sum>i < length fs. gain i)"
      using that by (intro member_le_sum) auto
    with power_le_total[OF that] assms show ?thesis by linarith
  qed
  have "power_at (rewarded fs gain) i = power_at fs i + gain i" if "i < length fs" for i
    using that unat_add_of_nat[OF bound[OF that]] by (simp add: rewarded_def add_power_def)
  then show pw: "\<forall>i < length fs. power_at (rewarded fs gain) i = power_at fs i + gain i"
    by blast
  then show "total_stake (rewarded fs gain) = total_stake fs + (\<Sum>i < length fs. gain i)"
    by (simp add: total_stake_sum len sum.distrib)
qed

definition reward_gain :: "MalValidator list \<Rightarrow> nat \<Rightarrow> nat \<Rightarrow> nat" where
  "reward_gain fs m i =
     (if i = m then 6000 - (\<Sum>j \<in> {..<length fs} - {m}. power_at fs j * 6000 div total_stake fs)
      else power_at fs i * 6000 div total_stake fs)"

lemma sum_reward_gain:
  assumes "m < length fs"
  shows "(\<Sum>i < length fs. reward_gain fs m i) = 6000"
    and "power_at fs m * 6000 div total_stake fs \<le> reward_gain fs m m"
proof -
  have "(\<Sum>i < length fs. reward_gain fs m i) =
      reward_gain fs m m + (\<Sum>i \<in> {..<length fs} - {m}. reward_gain fs m i)"
    by (rule sum.remove) (use assms in auto)
  also have "(\<Sum>i \<in> {..<length fs} - {m}. reward_gain fs m i) =
      (\<Sum>i \<in> {..<length fs} - {m}. power_at fs i * 6000 div total_stake fs)"
    by (rule sum.cong) (auto simp: reward_gain_def)
  finally show "(\<Sum>i < length fs. reward_gain fs m i) = 6000"
    using shares_le_reward[OF assms] by (simp add: reward_gain_def)
  show "power_at fs m * 6000 div total_stake fs \<le> reward_gain fs m m"
    using shares_le_reward[OF assms] by (simp add: reward_gain_def)
qed

lemma distribute_reward_eq:
  assumes "total_stake fs < 2 ^ 64" and "0 < total_stake fs"
  obtains m where "m < length fs" and "\<forall>i < length fs. power_at fs i \<le> power_at fs m"
    and "distribute_reward fs = Some (rewarded fs (reward_gain fs m))"
proof -
  let ?sh = "\<lambda>i. power_at fs i * 6000 div total_stake fs"
  obtain t mx where scan: "scan_finalizers fs = (t, mx)" by fastforce
  note sp = scan_prefix[OF scan[unfolded scan_finalizers_def]]
  then have t: "unat t = total_stake fs"
    using assms(1) by (simp add: total_stake_sum unat_of_nat del: of_nat_sum)
  then have t0: "t \<noteq> 0" using assms(2) by auto
  obtain m where m: "mx = Some m" "m < length fs" "\<forall>i < length fs. power_at fs i \<le> power_at fs m"
    using sp assms(2) by (cases mx) (auto simp: total_stake_sum)
  let ?S = "\<Sum>i \<in> {..<length fs} - {m}. ?sh i"
  have S: "?sh m + ?S \<le> 6000" by (rule shares_le_reward[OF m(2)])
  have loop: "share_loop t mx [0..<length fs] (fs, 0) = Some (shared fs ?sh m (length fs), of_nat ?S)"
    unfolding m(1) by (rule share_loop_prefix) (auto simp: reward_share_eq[OF t0] t)
  have rem: "pos_total_reward - of_nat ?S = of_nat (6000 - ?S)"
    using S by (simp add: pos_total_reward_def of_nat_diff del: of_nat_sum)
  have "(of_nat a :: u64) \<le> of_nat b" if "a \<le> b" "b \<le> 6000" for a b
    using that by (simp add: word_le_nat_alt unat_of_nat)
  then have le: "(of_nat (?sh m) :: u64) \<le> of_nat (6000 - ?S)"
    using S by (simp del: of_nat_sum of_nat_diff)
  have "distribute_reward fs =
      Some ((shared fs ?sh m (length fs))[m := add_power (of_nat (6000 - ?S)) (fs ! m)])"
    using m(2) le by (simp add: distribute_reward_def scan loop[unfolded m(1)] m(1) shared_nth rem
        reward_share_eq[OF t0] t del: of_nat_sum)
  also have "(shared fs ?sh m (length fs))[m := add_power (of_nat (6000 - ?S)) (fs ! m)] =
      rewarded fs (reward_gain fs m)"
    using m(2) by (intro nth_equalityI)
      (auto simp: rewarded_def reward_gain_def shared_def nth_list_update simp del: of_nat_sum)
  finally show thesis using that m by blast
qed

section \<open>Stake commands refine updates of a stake table\<close>

text \<open>The abstract roster: a stake for every key and the set of keys that are present.\<close>

type_synonym stake_table = "(bytes \<Rightarrow> u64) \<times> bytes set"

definition abs_roster :: "MalValidator list \<Rightarrow> stake_table" where
  "abs_roster roster = (stake_of roster, set (roster_keys roster))"

definition spec_sub :: "bytes \<Rightarrow> u64 \<Rightarrow> u64 \<Rightarrow> stake_table \<Rightarrow> stake_table option" where
  "spec_sub k val new s = (if k \<in> snd s \<and> val \<le> fst s k then Some ((fst s)(k := new), snd s) else None)"

definition spec_add :: "bytes \<Rightarrow> u64 \<Rightarrow> stake_table \<Rightarrow> stake_table" where
  "spec_add k val s = ((fst s)(k := fst s k + val), insert k (snd s))"

definition cmd_spec :: "StakingAction \<Rightarrow> stake_table \<Rightarrow> stake_table option" where
  "cmd_spec a s =
     (let val = action_val a; tgt = action_target a; src = action_source a in
      case action_kind a of
        Add \<Rightarrow> Some (spec_add tgt val s)
      | Sub \<Rightarrow> spec_sub tgt val (fst s tgt - val) s
      | Clear \<Rightarrow> spec_sub tgt val val s
      | Move \<Rightarrow> map_option (spec_add tgt val) (spec_sub src val (fst s src - val) s)
      | MoveClear \<Rightarrow> map_option (spec_add tgt (fst s src - val)) (spec_sub src val val s))"

lemma find_has_key_None: "find (has_key k) r = None \<longleftrightarrow> k \<notin> set (roster_keys r)"
  by (auto simp: find_None_iff has_key_def roster_keys_def)

lemma find_has_key_Some:
  assumes "find (has_key k) r = Some v"
  shows "k \<in> set (roster_keys r)" and "stake_of r k = voting_power v" and "val_public_key v = k"
proof -
  show "k \<in> set (roster_keys r)" using assms find_has_key_None[of k r] by auto
  show "stake_of r k = voting_power v" using assms by (simp add: stake_of_def)
  show "val_public_key v = k" using assms by (auto simp: find_Some_iff has_key_def)
qed

lemma update_first_keys [simp]:
  "roster_keys (update_first P (add_power p) r) = roster_keys r"
  "roster_keys (update_first P (sub_power p) r) = roster_keys r"
  by (induction r) (auto simp: roster_keys_def add_power_def sub_power_def)

lemma update_first_stake:
  assumes "find (has_key k) r = Some v" and "\<And>x. val_public_key (f x) = val_public_key x"
  shows "stake_of (update_first (has_key k) f r) = (stake_of r)(k := voting_power (f v))"
proof
  fix j
  show "stake_of (update_first (has_key k) f r) j = ((stake_of r)(k := voting_power (f v))) j"
    using assms by (induction r) (auto simp: stake_of_def has_key_def split: if_splits)
qed

lemma update_first_total:
  assumes "find (has_key k) r = Some v"
  shows "total_stake (update_first (has_key k) f r) + unat (voting_power v) =
    total_stake r + unat (voting_power (f v))"
  using assms by (induction r) (auto simp: total_stake_def split: if_splits)

lemma stake_le_total: "find (has_key k) r = Some v \<Longrightarrow> unat (voting_power v) \<le> total_stake r"
  by (induction r) (auto simp: total_stake_def split: if_splits)

lemma stake_of_append_new:
  "k \<notin> set (roster_keys r) \<Longrightarrow>
    stake_of (r @ [MalValidator_new k p]) = (stake_of r)(k := stake_of r k + p)"
  by (rule ext) (induction r, auto simp: stake_of_def has_key_def MalValidator_new_def roster_keys_def)

lemma power_keys [simp]:
  "val_public_key (add_power p x) = val_public_key x" "val_public_key (sub_power p x) = val_public_key x"
  "voting_power (add_power p x) = voting_power x + p"
  "voting_power (sub_power p x) = voting_power x - p"
  by (simp_all add: add_power_def sub_power_def)

lemma add_stake_spec: "abs_roster (fst (add_stake k name p r names)) = spec_add k p (abs_roster r)"
proof (cases "find (has_key k) r")
  case None
  then have "k \<notin> set (roster_keys r)" by (rule find_has_key_None[THEN iffD1])
  from stake_of_append_new[OF this] None show ?thesis
    by (auto simp: add_stake_def abs_roster_def spec_add_def roster_keys_def MalValidator_new_def)
next
  case (Some v)
  then show ?thesis
    using find_has_key_Some[OF Some]
    by (auto simp: add_stake_def abs_roster_def spec_add_def update_first_stake[OF Some])
qed

lemma subtract_stake_spec:
  "map_option (\<lambda>(r', a). (abs_roster r', a)) (subtract_stake k is_clear val r) =
    map_option (\<lambda>s. (s, if is_clear then stake_of r k - val else val))
      (spec_sub k val (if is_clear then val else stake_of r k - val) (abs_roster r))"
proof (cases "find (has_key k) r")
  case None
  then have "k \<notin> set (roster_keys r)" by (rule find_has_key_None[THEN iffD1])
  with None show ?thesis by (simp add: subtract_stake_def spec_sub_def abs_roster_def)
next
  case (Some v)
  then show ?thesis
    using find_has_key_Some[OF Some]
    by (auto simp: subtract_stake_def spec_sub_def abs_roster_def update_first_stake[OF Some] Let_def)
qed

lemma move_spec:
  assumes "has_add \<Longrightarrow> P = map_option (spec_add tgt (if c then stake_of r k - v else v))
      (spec_sub k v (if c then v else stake_of r k - v) (abs_roster r))"
    and "\<not> has_add \<Longrightarrow> P = spec_sub k v (if c then v else stake_of r k - v) (abs_roster r)"
  shows "case P of
     None \<Rightarrow> subtract_stake k c v r = None
   | Some s \<Rightarrow> \<exists>r1 amount. subtract_stake k c v r = Some (r1, amount) \<and>
       (if has_add then abs_roster (fst (add_stake tgt name amount r1 names)) = s
        else abs_roster r1 = s)"
  using subtract_stake_spec[of k c v r] assms
  by (cases "subtract_stake k c v r"; cases has_add;
      cases "spec_sub k v (if c then v else stake_of r k - v) (abs_roster r)")
    (simp_all add: add_stake_spec split: prod.splits)

lemma update_roster_for_cmd_spec:
  "case cmd_spec a (abs_roster r) of
     None \<Rightarrow> update_roster_for_cmd r names a = (r, names, 0)
   | Some s \<Rightarrow> \<exists>r' names'. update_roster_for_cmd r names a = (r', names', 1) \<and> abs_roster r' = s"
proof -
  note defs = update_roster_for_cmd_def command_parts_def cmd_spec_def Let_def case_prod_beta
  have stake: "fst (abs_roster r) k = stake_of r k" for k by (simp add: abs_roster_def)
  let ?v = "action_val a" let ?t = "action_target a" let ?s = "action_source a"
  let ?n = "insecure_target_name a"
  show ?thesis
  proof (cases "action_kind a")
    case Add
    then show ?thesis by (simp add: defs add_stake_spec)
  next
    case Sub
    then show ?thesis
      using move_spec[of False "cmd_spec a (abs_roster r)" ?t False r ?t ?v ?n names]
      by (auto simp: defs stake split: option.splits)
  next
    case Clear
    then show ?thesis
      using move_spec[of False "cmd_spec a (abs_roster r)" ?t True r ?t ?v ?n names]
      by (auto simp: defs stake split: option.splits)
  next
    case Move
    then show ?thesis
      using move_spec[of True "cmd_spec a (abs_roster r)" ?t False r ?s ?v ?n names]
      by (auto simp: defs stake split: option.splits)
  next
    case MoveClear
    then show ?thesis
      using move_spec[of True "cmd_spec a (abs_roster r)" ?t True r ?s ?v ?n names]
      by (auto simp: defs stake split: option.splits)
  qed
qed

section \<open>Stake is conserved\<close>

lemma add_stake_total:
  assumes "total_stake r + unat p < 2 ^ 64"
  shows "total_stake (fst (add_stake k nm p r names)) = total_stake r + unat p"
proof (cases "find (has_key k) r")
  case None
  then show ?thesis by (simp add: add_stake_def total_stake_def MalValidator_new_def)
next
  case (Some v)
  have "unat (voting_power v + p) = unat (voting_power v) + unat p"
    using stake_le_total[OF Some] assms by (simp add: unat_word_ariths)
  then show ?thesis
    using update_first_total[OF Some, of "add_power p"] Some by (simp add: add_stake_def)
qed

lemma subtract_stake_total:
  assumes "subtract_stake k c v r = Some (r', p)"
  shows "total_stake r' + unat p = total_stake r"
    and "unat p = (if c then unat (stake_of r k) - unat v else unat v)"
    and "unat v \<le> unat (stake_of r k)"
proof -
  obtain m where m: "find (has_key k) r = Some m"
    using assms by (cases "find (has_key k) r") (auto simp: subtract_stake_def)
  with assms have v: "v \<le> voting_power m"
    and p: "p = (if c then voting_power m - v else v)"
    and r': "r' = update_first (has_key k) (sub_power p) r"
    by (auto simp: subtract_stake_def Let_def split: if_splits)
  have "unat (voting_power m - v) = unat (voting_power m) - unat v"
    using v by (simp add: unat_sub_if_size word_le_nat_alt)
  then show "unat p = (if c then unat (stake_of r k) - unat v else unat v)"
    using p find_has_key_Some(2)[OF m] by simp
  show "unat v \<le> unat (stake_of r k)"
    using v find_has_key_Some(2)[OF m] by (simp add: word_le_nat_alt)
  have "p \<le> voting_power m"
    using v p by (auto simp: word_le_nat_alt unat_sub_if_size)
  then have "unat (voting_power m - p) + unat p = unat (voting_power m)"
    by (simp add: unat_sub_if_size word_le_nat_alt)
  then show "total_stake r' + unat p = total_stake r"
    using update_first_total[OF m, of "sub_power p"] r' by simp
qed

lemma add_stake_keys:
  "distinct (roster_keys r) \<Longrightarrow> distinct (roster_keys (fst (add_stake k nm p r names)))"
proof (cases "find (has_key k) r")
  case None
  then show "distinct (roster_keys r) \<Longrightarrow> ?thesis"
    using find_has_key_None[THEN iffD1, OF None]
    by (simp add: add_stake_def roster_keys_def MalValidator_new_def)
qed (simp add: add_stake_def)

lemma subtract_stake_keys: "subtract_stake k c v r = Some (r', p) \<Longrightarrow> roster_keys r' = roster_keys r"
  by (auto simp: subtract_stake_def Let_def split: option.splits if_splits)

definition stake_issued :: "StakingAction \<Rightarrow> nat" where
  "stake_issued a = (if action_kind a = Add then unat (action_val a) else 0)"

definition stake_withdrawn :: "StakingAction \<Rightarrow> MalValidator list \<Rightarrow> nat" where
  "stake_withdrawn a r = (case action_kind a of
      Sub \<Rightarrow> unat (action_val a)
    | Clear \<Rightarrow> unat (stake_of r (action_target a)) - unat (action_val a)
    | _ \<Rightarrow> 0)"

lemma update_roster_for_cmd_total:
  assumes "total_stake r + stake_issued a < 2 ^ 64"
    and "update_roster_for_cmd r names a = (r', names', c)"
  shows "total_stake r' + (if c = 0 then 0 else stake_withdrawn a r) =
      total_stake r + (if c = 0 then 0 else stake_issued a)"
    and "c = 0 \<or> c = 1"
    and "distinct (roster_keys r) \<Longrightarrow> distinct (roster_keys r')"
proof -
  note defs = update_roster_for_cmd_def command_parts_def stake_issued_def stake_withdrawn_def Let_def
    case_prod_beta
  have add: "total_stake (fst (add_stake k nm p q names)) = total_stake r"
    if "subtract_stake s b (action_val a) r = Some (q, p)" for k nm s b p q
    using add_stake_total[of q p k nm names] subtract_stake_total(1)[OF that] assms(1) by simp
  have sub: "total_stake q + (if b then unat (stake_of r k) - unat (action_val a)
      else unat (action_val a)) = total_stake r"
    if "subtract_stake k b (action_val a) r = Some (q, p)" for k b p q
    using subtract_stake_total[OF that] by metis
  show "c = 0 \<or> c = 1"
    using assms(2) by (auto simp: defs split: StakingActionKind.splits option.splits)
  show "total_stake r' + (if c = 0 then 0 else stake_withdrawn a r) =
      total_stake r + (if c = 0 then 0 else stake_issued a)"
  proof (cases "action_kind a")
    case Add
    with assms show ?thesis by (auto simp: defs add_stake_total)
  qed (use assms in \<open>auto simp: defs add split: option.splits dest: sub\<close>)
  show "distinct (roster_keys r')" if "distinct (roster_keys r)"
    using assms(2) that
    by (auto simp: defs add_stake_keys split: StakingActionKind.splits option.splits
        dest!: subtract_stake_keys intro!: add_stake_keys)
qed

section \<open>Bounded supply\<close>

text \<open>What keeps stake arithmetic exact: each step issues a bounded amount, and while the stock
  stays below the cap no step panics or wraps. Runs of steps follow once for all.\<close>

locale bounded_supply =
  fixes step :: "'a \<Rightarrow> 'r \<Rightarrow> 'r option"
    and inv :: "'r \<Rightarrow> bool"
    and stock :: "'r \<Rightarrow> nat"
    and issue :: "'a \<Rightarrow> nat"
    and cap :: nat
  assumes step_ok: "inv r \<Longrightarrow> stock r + issue a < cap \<Longrightarrow>
    \<exists>r'. step a r = Some r' \<and> inv r' \<and> stock r' \<le> stock r + issue a"
begin

fun run :: "'a list \<Rightarrow> 'r \<Rightarrow> 'r option" where
  "run [] r = Some r"
| "run (a # as) r = Option.bind (step a r) (run as)"

lemma run_ok:
  "inv r \<Longrightarrow> stock r + sum_list (map issue as) < cap \<Longrightarrow>
    \<exists>r'. run as r = Some r' \<and> inv r' \<and> stock r' \<le> stock r + sum_list (map issue as)"
proof (induction as arbitrary: r)
  case (Cons a as)
  then obtain s where s: "step a r = Some s" "inv s" "stock s \<le> stock r + issue a"
    using step_ok[of r a] by fastforce
  with Cons.prems Cons.IH[of s] show ?case by fastforce
qed auto

end

definition cmd_step :: "StakingAction \<Rightarrow> MalValidator list \<times> key_names \<Rightarrow> (MalValidator list \<times> key_names) option" where
  "cmd_step a s = (let (r', names', _) = update_roster_for_cmd (fst s) (snd s) a in Some (r', names'))"

interpretation commands: bounded_supply cmd_step "\<lambda>s. roster_ok (fst s)" "\<lambda>s. total_stake (fst s)"
  stake_issued "2 ^ 64"
proof unfold_locales
  fix s :: "MalValidator list \<times> key_names" and a
  assume ok: "roster_ok (fst s)" and cap: "total_stake (fst s) + stake_issued a < 2 ^ 64"
  obtain r' names' c where u: "update_roster_for_cmd (fst s) (snd s) a = (r', names', c)"
    by (metis prod_cases3)
  show "\<exists>s'. cmd_step a s = Some s' \<and> roster_ok (fst s') \<and>
      total_stake (fst s') \<le> total_stake (fst s) + stake_issued a"
    using update_roster_for_cmd_total[OF cap u] ok cap
    by (auto simp: cmd_step_def u roster_ok_def split: if_splits)
qed

lemma distribute_reward_zero:
  assumes "total_stake fs = 0"
  shows "distribute_reward fs = Some fs"
proof -
  have zero: "voting_power (fs ! i) = 0" if "i < length fs" for i
    using power_le_total[OF that] assms by (simp add: unat_eq_0)
  obtain t mx where scan: "scan_finalizers fs = (t, mx)" by fastforce
  have mx: "mx = None"
    using scan_prefix[OF scan[unfolded scan_finalizers_def]] zero by (cases mx) (auto simp: unat_eq_0)
  have "share_loop t None js (fs, 0) = Some (fs, 0)" if "\<forall>i \<in> set js. i < length fs" for js
    using that zero by (induction js) (auto simp: share_step_def)
  then show ?thesis by (simp add: distribute_reward_def scan mx)
qed

interpretation rewards: bounded_supply "\<lambda>_ :: unit. distribute_reward" roster_ok total_stake
  "\<lambda>_. 6000" "2 ^ 64"
proof unfold_locales
  fix r and a :: unit
  assume ok: "roster_ok r" and cap: "total_stake r + 6000 < 2 ^ 64"
  show "\<exists>r'. distribute_reward r = Some r' \<and> roster_ok r' \<and> total_stake r' \<le> total_stake r + 6000"
  proof (cases "total_stake r = 0")
    case True
    then show ?thesis using ok by (simp add: distribute_reward_zero)
  next
    case False
    obtain m where m: "m < length r" "distribute_reward r = Some (rewarded r (reward_gain r m))"
      using distribute_reward_eq[of r] False cap by auto
    have "total_stake r + (\<Sum>i < length r. reward_gain r m i) < 2 ^ 64"
      using cap sum_reward_gain(1)[OF m(1)] by simp
    from rewarded_facts[OF this] show ?thesis
      using ok m cap sum_reward_gain(1)[OF m(1)] by (simp add: roster_ok_def)
  qed
qed

section \<open>The sorted roster\<close>

lemma set_cumulative_facts:
  "length (set_cumulative acc ms) = length ms"
  "map (\<lambda>m. (pub_key m, stake m)) (set_cumulative acc ms) = map (\<lambda>m. (pub_key m, stake m)) ms"
  by (induction ms arbitrary: acc) auto

lemma set_cumulative_nth:
  "i < length ms \<Longrightarrow>
    cumulative_stake (set_cumulative acc ms ! i) = acc + sum_list (map stake (take (Suc i) ms))"
  by (induction ms arbitrary: acc i) (auto simp: nth_Cons add.assoc split: nat.splits)

lemma set_cumulative_map:
  "(\<And>m x. g (m\<lparr>cumulative_stake := x\<rparr>) = g m) \<Longrightarrow> map g (set_cumulative acc ms) = map g ms"
  by (induction ms arbitrary: acc) auto

lemma set_cumulative_unat:
  assumes "sum_list (map (\<lambda>m. unat (stake m)) ms) < 2 ^ 64" and "i < length ms"
  shows "unat (cumulative_stake (set_cumulative 0 ms ! i)) =
    sum_list (map (\<lambda>m. unat (stake m)) (take (Suc i) ms))"
proof -
  let ?n = "sum_list (map (\<lambda>m. unat (stake m)) (take (Suc i) ms))"
  have "?n \<le> sum_list (map (\<lambda>m. unat (stake m)) ms)"
    by (metis append_take_drop_id le_add1 map_append sum_list_append)
  then have "unat (of_nat ?n :: u64) = ?n" using assms(1) by (simp add: unat_of_nat)
  moreover have "sum_list (map stake ys) = of_nat (sum_list (map (\<lambda>m. unat (stake m)) ys))" for ys
    by (induction ys) simp_all
  ultimately show ?thesis
    using set_cumulative_nth[OF assms(2), of 0] by (metis add_0)
qed

lemma sort_key_unique:
  fixes f :: "'a \<Rightarrow> 'k :: linorder"
  assumes "mset xs = mset ys" and "inj_on f (set xs)"
  shows "sort_key f xs = sort_key f ys"
proof -
  have sorted_map: "map f (sort_key f zs) = sort (map f zs)" for zs
    by (rule properties_for_sort[symmetric]) simp_all
  have "mset (map f xs) = mset (map f ys)" using assms(1) by (metis mset_map)
  then have "map f (sort_key f xs) = map f (sort_key f ys)"
    unfolding sorted_map by (metis sorted_list_of_multiset_mset)
  moreover have "set xs = set ys" using assms(1) by (metis set_mset_mset)
  ultimately show ?thesis
    using assms(2) by (auto simp: inj_on_map_eq_map)
qed

section \<open>Properties\<close>

definition sample_roster :: "MalValidator list" where
  "sample_roster = [MalValidator_new [1] 10, MalValidator_new [2] 5, MalValidator_new [3] 0]"

text \<open>A wrapped total of zero is a divisor of zero.\<close>

lemma distribute_reward_wrapped:
  assumes "0 < total_stake fs" and "2 ^ 64 dvd total_stake fs"
  shows "distribute_reward fs = None"
proof -
  obtain t mx where scan: "scan_finalizers fs = (t, mx)" by fastforce
  note prefix = scan_prefix[OF scan[unfolded scan_finalizers_def]]
  have "t = of_nat (total_stake fs)" using prefix by (simp add: total_stake_sum)
  then have t: "t = 0" using assms(2) by (simp add: word_of_nat_eq_0_iff)
  have "mx \<noteq> None" using prefix assms(1) by (cases mx) (auto simp: total_stake_sum)
  then obtain m where "mx = Some m" by blast
  then show ?thesis
    by (cases "share_loop t mx [0..<length fs] (fs, 0)") (auto simp: distribute_reward_def scan t reward_share_def)
qed

lemma distribute_reward_shares:
  assumes "0 < total_stake fs" and "total_stake fs + 6000 < 2 ^ 64"
  shows "\<exists>fs' m. distribute_reward fs = Some fs' \<and> roster_keys fs' = roster_keys fs \<and>
    total_stake fs' = total_stake fs + 6000 \<and>
    m < length fs \<and> (\<forall>i < length fs. power_at fs i \<le> power_at fs m) \<and>
    power_at fs' m \<ge> power_at fs m + power_at fs m * 6000 div total_stake fs \<and>
    (\<forall>i < length fs. i \<noteq> m \<longrightarrow>
      power_at fs' i = power_at fs i + power_at fs i * 6000 div total_stake fs)"
proof -
  obtain m where m: "m < length fs" "\<forall>i < length fs. power_at fs i \<le> power_at fs m"
    "distribute_reward fs = Some (rewarded fs (reward_gain fs m))"
    using distribute_reward_eq[of fs] assms by auto
  note gain = sum_reward_gain[OF m(1)]
  have "total_stake fs + (\<Sum>i < length fs. reward_gain fs m i) < 2 ^ 64"
    using gain assms(2) by simp
  note facts = rewarded_facts[OF this]
  have others: "reward_gain fs m i = power_at fs i * 6000 div total_stake fs" if "i \<noteq> m" for i
    using that by (simp add: reward_gain_def)
  have "power_at (rewarded fs (reward_gain fs m)) m \<ge>
      power_at fs m + power_at fs m * 6000 div total_stake fs"
    using facts(3) m(1) gain(2) by simp
  moreover have "\<forall>i < length fs. i \<noteq> m \<longrightarrow> power_at (rewarded fs (reward_gain fs m)) i =
      power_at fs i + power_at fs i * 6000 div total_stake fs"
    using facts(3) others by simp
  ultimately show ?thesis
    using facts(2,4) m gain(1) by (intro exI[of _ "rewarded fs (reward_gain fs m)"] exI[of _ m]) simp
qed

text \<open>C14: What the reward of one final proof-of-work block does, by the total stake of the roster. With stake,
  and with room for the reward below 2 to the 64, no division, assertion or expectation fails, the roster keeps
  its members and order, and the stakes grow by exactly 6000 in total: every finalizer gets its proportional
  share rounded down, and one with the largest stake gets the rest. Without any stake nothing is paid. If
  the total is a non-zero multiple of 2 to the 64, the code's sum wraps to zero and the division panics.\<close>

theorem reward_paid_exactly:
  "(0 < total_stake fs \<and> total_stake fs + 6000 < 2 ^ 64 \<longrightarrow>
     (\<exists>fs' m. distribute_reward fs = Some fs' \<and> roster_keys fs' = roster_keys fs \<and>
       total_stake fs' = total_stake fs + 6000 \<and>
       m < length fs \<and> (\<forall>i < length fs. power_at fs i \<le> power_at fs m) \<and>
       power_at fs' m \<ge> power_at fs m + power_at fs m * 6000 div total_stake fs \<and>
       (\<forall>i < length fs. i \<noteq> m \<longrightarrow>
         power_at fs' i = power_at fs i + power_at fs i * 6000 div total_stake fs))) \<and>
   (total_stake fs = 0 \<longrightarrow> distribute_reward fs = Some fs) \<and>
   (0 < total_stake fs \<and> 2 ^ 64 dvd total_stake fs \<longrightarrow> distribute_reward fs = None)"
  using distribute_reward_shares[of fs] distribute_reward_zero[of fs] distribute_reward_wrapped[of fs] by blast

theorem reward_paid_exactly_witness:
  "(\<exists>fs'. distribute_reward sample_roster = Some fs' \<and> total_stake fs' = 6015) \<and>
   distribute_reward [MalValidator_new [1] 0] = Some [MalValidator_new [1] 0] \<and>
   distribute_reward [MalValidator_new [1] (2 ^ 63), MalValidator_new [2] (2 ^ 63)] = None"
proof -
  have "total_stake sample_roster = 15" "total_stake [MalValidator_new [1] 0] = 0"
    "total_stake [MalValidator_new [1] (2 ^ 63), MalValidator_new [2] (2 ^ 63)] = 2 ^ 64"
    by (simp_all add: sample_roster_def total_stake_def MalValidator_new_def)
  then show ?thesis
    using reward_paid_exactly[of sample_roster] reward_paid_exactly[of "[MalValidator_new [1] 0]"]
      reward_paid_exactly[of "[MalValidator_new [1] (2 ^ 63), MalValidator_new [2] (2 ^ 63)]"]
    by auto
qed

text \<open>C16: a stake command is the update of a table from keys to stakes that its kind names. Add
  credits the target, Sub debits it, Clear lowers it to the value, Move and MoveClear debit the
  source and credit the target with the same amount. A command that debits an absent key, or more
  than the key has, changes nothing and counts zero; every other command counts one.\<close>

theorem stake_command_refines_table:
  "case cmd_spec a (abs_roster roster) of
     None \<Rightarrow> update_roster_for_cmd roster names a = (roster, names, 0)
   | Some s \<Rightarrow> \<exists>roster' names'. update_roster_for_cmd roster names a = (roster', names', 1) \<and>
       abs_roster roster' = s"
  by (rule update_roster_for_cmd_spec)

text \<open>C15: One stake command does not create or destroy stake beyond what its kind says, as long as the total
  plus the value of an Add stays below 2 to the 64, where the code's additions wrap: the total grows by
  the value of an accepted Add, shrinks by what an accepted Sub or Clear removes, and is unchanged
  by Move and MoveClear and by every rejected command. Unique keys stay unique.\<close>

theorem stake_command_conserves_total:
  assumes "roster_ok roster" and "total_stake roster + stake_issued a < 2 ^ 64"
    and "update_roster_for_cmd roster names a = (roster', names', c)"
  shows "roster_ok roster' \<and>
    total_stake roster' + (if c = 0 then 0 else stake_withdrawn a roster) =
    total_stake roster + (if c = 0 then 0 else stake_issued a)"
  using update_roster_for_cmd_total[OF assms(2,3)] assms(1,2)
  by (auto simp: roster_ok_def split: if_splits)

theorem stake_command_conserves_total_witness:
  "let a = \<lparr>action_kind = Move, action_val = 4, action_target = [3], action_source = [1],
            insecure_target_name = '''', insecure_source_name = ''''\<rparr> in
   total_stake (fst (update_roster_for_cmd sample_roster Map.empty a)) = 15"
proof -
  let ?a = "\<lparr>action_kind = Move, action_val = 4, action_target = [3], action_source = [1],
            insecure_target_name = '''', insecure_source_name = ''''\<rparr>"
  obtain r n c where u: "update_roster_for_cmd sample_roster Map.empty ?a = (r, n, c)"
    by (metis prod_cases3)
  have "roster_ok sample_roster" "total_stake sample_roster = 15" "stake_issued ?a = 0"
    "stake_withdrawn ?a sample_roster = 0"
    by (simp_all add: roster_ok_def roster_keys_def sample_roster_def total_stake_def
        MalValidator_new_def stake_issued_def stake_withdrawn_def)
  then show ?thesis
    using stake_command_conserves_total[OF _ _ u] by (cases "c = 0") (auto simp: u Let_def)
qed

text \<open>C17: For a total stake below 2 to the 64, the roster given to the BFT engine has exactly the finalizers and
  stakes of the internal roster, in descending order of stake and then key, and each cumulative stake is the sum
  of the stakes up to and including that member.\<close>

theorem engine_roster_sorted_and_cumulative:
  assumes "total_stake vals < 2 ^ 64"
  shows "let ret = tenderlink_roster_from_internal pub_key_id vals in
    mset (map (\<lambda>m. (pub_key m, stake m)) ret) =
      mset (map (\<lambda>v. (val_public_key v, voting_power v)) vals) \<and>
    sorted (rev (map (\<lambda>m. (stake m, pub_key_id (pub_key m))) ret)) \<and>
    (\<forall>i < length ret. unat (cumulative_stake (ret ! i)) =
      sum_list (map (\<lambda>m. unat (stake m)) (take (Suc i) ret)))"
proof -
  define ms where "ms = map (\<lambda>v. \<lparr>pub_key = val_public_key v, stake = voting_power v, cumulative_stake = 0\<rparr>) vals"
  define xs where "xs = rev (sort_key (\<lambda>m. (stake m, pub_key_id (pub_key m))) (rev ms))"
  have ret: "tenderlink_roster_from_internal pub_key_id vals = set_cumulative 0 xs"
    by (simp add: tenderlink_roster_from_internal_def xs_def ms_def)
  have "mset xs = mset ms" by (simp add: xs_def)
  then have ms: "mset (map g xs) = mset (map g ms)" for g by (metis mset_map)
  have 1: "mset (map (\<lambda>m. (pub_key m, stake m)) (set_cumulative 0 xs)) =
      mset (map (\<lambda>v. (val_public_key v, voting_power v)) vals)"
    using ms[of "\<lambda>m. (pub_key m, stake m)"] by (simp add: set_cumulative_map ms_def comp_def)
  have 2: "sorted (rev (map (\<lambda>m. (stake m, pub_key_id (pub_key m))) (set_cumulative 0 xs)))"
    by (simp add: set_cumulative_map xs_def rev_map)
  have "sum_list (map (\<lambda>m. unat (stake m)) xs) = total_stake vals"
    using arg_cong[OF ms[of "\<lambda>m. unat (stake m)"], of sum_mset]
    by (simp only: sum_mset_sum_list) (simp add: ms_def total_stake_def comp_def)
  then have 3: "unat (cumulative_stake (set_cumulative 0 xs ! i)) =
      sum_list (map (\<lambda>m. unat (stake m)) (take (Suc i) (set_cumulative 0 xs)))"
    if "i < length (set_cumulative 0 xs)" for i
    using that assms set_cumulative_unat[of xs i]
    by (simp add: set_cumulative_facts(1) take_map[symmetric] set_cumulative_map)
  show ?thesis unfolding Let_def ret using 1 2 3 by blast
qed

theorem engine_roster_sorted_and_cumulative_witness:
  "mset (map (\<lambda>m. (pub_key m, stake m)) (tenderlink_roster_from_internal length sample_roster)) =
   mset (map (\<lambda>v. (val_public_key v, voting_power v)) sample_roster)"
  using engine_roster_sorted_and_cumulative[of sample_roster length]
  by (simp add: Let_def sample_roster_def total_stake_def MalValidator_new_def)

text \<open>C18: the roster given to the BFT engine does not depend on the order in which a node learnt of
  the finalizers: two internal rosters with the same finalizers and no key twice give the same
  sorted roster, so all nodes index it alike.\<close>

theorem engine_roster_order_independent:
  assumes "mset vals = mset vals'" and "distinct (roster_keys vals)" and "inj pub_key_id"
  shows "tenderlink_roster_from_internal pub_key_id vals = tenderlink_roster_from_internal pub_key_id vals'"
proof -
  let ?mk = "\<lambda>v. \<lparr>pub_key = val_public_key v, stake = voting_power v, cumulative_stake = 0\<rparr>"
  let ?key = "\<lambda>m. (stake m, pub_key_id (pub_key m))"
  have "mset (rev (map ?mk vals)) = mset (rev (map ?mk vals'))"
    by (simp only: mset_rev mset_map assms(1))
  moreover have "inj_on val_public_key (set vals)"
    using assms(2) by (simp add: roster_keys_def distinct_map)
  then have "inj_on ?key (set (rev (map ?mk vals)))"
    by (auto intro!: inj_onI dest!: injD[OF assms(3)] dest: inj_onD)
  ultimately have "sort_key ?key (rev (map ?mk vals)) = sort_key ?key (rev (map ?mk vals'))"
    by (rule sort_key_unique)
  then show ?thesis by (simp add: tenderlink_roster_from_internal_def)
qed

theorem engine_roster_order_independent_witness:
  "tenderlink_roster_from_internal (\<lambda>k :: bytes. k) (rev sample_roster) =
   tenderlink_roster_from_internal (\<lambda>k :: bytes. k) sample_roster"
  by (rule engine_roster_order_independent)
    (simp_all add: roster_keys_def sample_roster_def MalValidator_new_def)

end
