(* ===== verification/Read_State.thy ===== *)
theory Read_State
  imports Block_Header Roster
begin

text \<open>
  Reading the best chain (\<^verbatim>\<open>zebra-state/src/service/read/find.rs\<close>, \<^verbatim>\<open>read/block.rs\<close>, and the handlers
  of \<^verbatim>\<open>service.rs\<close> that the finality layer calls). The non-finalized chains are kept best first; a
  chain's \<^verbatim>\<open>BTreeMap\<close> of blocks is a list in ascending height order. The column families of the
  finalized database that these functions read are maps and one such list.
\<close>

section \<open>Data\<close>

record pow_block =
  block_header_field :: Header
  transactions :: "pow_transaction list"

record Chain =
  blocks :: "(Height \<times> bytes \<times> pow_block) list"
  chain_height_by_hash :: "bytes \<rightharpoonup> Height"
  partial_cumulative_work :: nat
  last_fork_height :: "Height option"

record ZebraDb =
  hash_by_height_cf :: "(Height \<times> bytes) list"
  height_by_hash_cf :: "bytes \<rightharpoonup> Height"
  block_header_by_height_cf :: "Height \<rightharpoonup> Header"
  transactions_by_height_cf :: "Height \<Rightarrow> pow_transaction list"

record read_state =
  chain_iter :: "Chain list"
  db :: ZebraDb

datatype HashOrHeight = OfHash bytes | OfHeight Height

datatype KnownBlockLocation = BestChain | SideChain | Queue

record KnownBlock =
  location :: KnownBlockLocation
  known_height :: Height

definition MAX_BLOCK_REORG_HEIGHT :: nat where "MAX_BLOCK_REORG_HEIGHT = 100 - 1"

definition MAX_FIND_BLOCK_HASHES_RESULTS :: u32 where "MAX_FIND_BLOCK_HASHES_RESULTS = 500"

definition MAX_FIND_BLOCK_HEADERS_RESULTS :: u32 where "MAX_FIND_BLOCK_HEADERS_RESULTS = 160"

section \<open>The finalized database\<close>

definition db_is_empty :: "ZebraDb \<Rightarrow> bool" where
  "db_is_empty d \<longleftrightarrow> hash_by_height_cf d = []"

definition db_tip :: "ZebraDb \<Rightarrow> (Height \<times> bytes) option" where
  "db_tip d = (if hash_by_height_cf d = [] then None else Some (last (hash_by_height_cf d)))"

definition db_hash :: "ZebraDb \<Rightarrow> Height \<Rightarrow> bytes option" where
  "db_hash d h = map_of (hash_by_height_cf d) h"

definition db_contains_hash :: "ZebraDb \<Rightarrow> bytes \<Rightarrow> bool" where
  "db_contains_hash d x \<longleftrightarrow> height_by_hash_cf d x \<noteq> None"

definition db_height :: "ZebraDb \<Rightarrow> bytes \<Rightarrow> Height option" where
  "db_height d x = height_by_hash_cf d x"

definition height_or_else :: "HashOrHeight \<Rightarrow> (bytes \<Rightarrow> Height option) \<Rightarrow> Height option" where
  "height_or_else hh op = (case hh of OfHash x \<Rightarrow> op x | OfHeight h \<Rightarrow> Some h)"

definition hash_or_else :: "HashOrHeight \<Rightarrow> (Height \<Rightarrow> bytes option) \<Rightarrow> bytes option" where
  "hash_or_else hh op = (case hh of OfHash x \<Rightarrow> Some x | OfHeight h \<Rightarrow> op h)"

definition db_block_header :: "ZebraDb \<Rightarrow> HashOrHeight \<Rightarrow> Header option" where
  "db_block_header d hh = do {
     h \<leftarrow> height_or_else hh (db_height d);
     block_header_by_height_cf d h }"

definition db_block :: "ZebraDb \<Rightarrow> HashOrHeight \<Rightarrow> pow_block option" where
  "db_block d hh = do {
     h \<leftarrow> height_or_else hh (db_height d);
     hdr \<leftarrow> db_block_header d (OfHeight h);
     Some \<lparr>block_header_field = hdr, transactions = transactions_by_height_cf d h\<rparr> }"

section \<open>The best chain\<close>

text \<open>\<^verbatim>\<open>non_finalized_tip\<close> expects a populated chain.\<close>

definition non_finalized_tip :: "Chain \<Rightarrow> (Height \<times> bytes) option" where
  "non_finalized_tip c =
     (if blocks c = [] then None else (let (h, x, _) = last (blocks c) in Some (h, x)))"

definition Chain_hash_by_height :: "Chain \<Rightarrow> Height \<Rightarrow> bytes option" where
  "Chain_hash_by_height c h = map_option fst (map_of (blocks c) h)"

definition Chain_height_by_hash :: "Chain \<Rightarrow> bytes \<Rightarrow> Height option" where
  "Chain_height_by_hash c x = chain_height_by_hash c x"

definition Chain_block :: "Chain \<Rightarrow> HashOrHeight \<Rightarrow> pow_block option" where
  "Chain_block c hh = do {
     h \<leftarrow> height_or_else hh (chain_height_by_hash c);
     map_option snd (map_of (blocks c) h) }"

definition or_else :: "'a option \<Rightarrow> 'a option \<Rightarrow> 'a option" where
  "or_else a b = (case a of None \<Rightarrow> b | Some _ \<Rightarrow> a)"

definition best_chain :: "read_state \<Rightarrow> Chain option" where
  "best_chain s = (case chain_iter s of [] \<Rightarrow> None | c # _ \<Rightarrow> Some c)"

definition tip :: "Chain option \<Rightarrow> ZebraDb \<Rightarrow> (Height \<times> bytes) option option" where
  "tip chain d = (case chain of
      Some c \<Rightarrow> map_option Some (non_finalized_tip c)
    | None \<Rightarrow> Some (db_tip d))"

definition tip_height :: "Chain option \<Rightarrow> ZebraDb \<Rightarrow> Height option option" where
  "tip_height chain d = map_option (map_option fst) (tip chain d)"

definition height_by_hash :: "Chain option \<Rightarrow> ZebraDb \<Rightarrow> bytes \<Rightarrow> Height option" where
  "height_by_hash chain d x =
     or_else (Option.bind chain (\<lambda>c. Chain_height_by_hash c x)) (db_height d x)"

definition hash_by_height :: "Chain option \<Rightarrow> ZebraDb \<Rightarrow> Height \<Rightarrow> bytes option" where
  "hash_by_height chain d h =
     or_else (Option.bind chain (\<lambda>c. Chain_hash_by_height c h)) (db_hash d h)"

definition chain_contains_hash :: "Chain option \<Rightarrow> ZebraDb \<Rightarrow> bytes \<Rightarrow> bool" where
  "chain_contains_hash chain d x \<longleftrightarrow>
     (case chain of None \<Rightarrow> False | Some c \<Rightarrow> chain_height_by_hash c x \<noteq> None) \<or> db_contains_hash d x"

definition read_block_header :: "Chain option \<Rightarrow> ZebraDb \<Rightarrow> HashOrHeight \<Rightarrow> Header option" where
  "read_block_header chain d hh =
     or_else (map_option block_header_field (Option.bind chain (\<lambda>c. Chain_block c hh)))
       (db_block_header d hh)"

definition read_block :: "Chain option \<Rightarrow> ZebraDb \<Rightarrow> HashOrHeight \<Rightarrow> pow_block option" where
  "read_block chain d hh = or_else (Option.bind chain (\<lambda>c. Chain_block c hh)) (db_block d hh)"

text \<open>\<^verbatim>\<open>tip.0 - height.0\<close> wraps.\<close>

definition depth :: "Chain option \<Rightarrow> ZebraDb \<Rightarrow> bytes \<Rightarrow> u32 option option" where
  "depth chain d x = map_option (\<lambda>t. do {
     t \<leftarrow> t;
     h \<leftarrow> height_by_hash chain d x;
     Some (height_u32 t - height_u32 h) }) (tip_height chain d)"

fun find_side_chain :: "Chain list \<Rightarrow> bytes \<Rightarrow> KnownBlock option" where
  "find_side_chain [] x = None"
| "find_side_chain (c # cs) x = (case Chain_height_by_hash c x of
      Some h \<Rightarrow> Some \<lparr>location = SideChain, known_height = h\<rparr>
    | None \<Rightarrow> find_side_chain cs x)"

definition non_finalized_state_contains_block_hash :: "Chain list \<Rightarrow> bytes \<Rightarrow> KnownBlock option" where
  "non_finalized_state_contains_block_hash chains_iter x = (case chains_iter of
      [] \<Rightarrow> None
    | c # cs \<Rightarrow> (case Chain_height_by_hash c x of
          Some h \<Rightarrow> Some \<lparr>location = BestChain, known_height = h\<rparr>
        | None \<Rightarrow> find_side_chain cs x))"

definition finalized_state_contains_block_hash :: "ZebraDb \<Rightarrow> bytes \<Rightarrow> KnownBlock option" where
  "finalized_state_contains_block_hash d x = (case db_height d x of
      Some h \<Rightarrow> Some \<lparr>location = BestChain, known_height = h\<rparr>
    | None \<Rightarrow> None)"

section \<open>Block locators\<close>

text \<open>The steps \<^verbatim>\<open>1, 2, 4, ...\<close> up to the last power of two in a \<^verbatim>\<open>u32\<close>; a step larger than the tip
  height is skipped by \<^verbatim>\<open>checked_sub\<close>.\<close>

definition block_locator_heights :: "Height \<Rightarrow> Height list" where
  "block_locator_heights tip_h =
     (let t = height_nat tip_h; min_locator_height = t - MAX_BLOCK_REORG_HEIGHT;
          exponential_locators =
            concat (map (\<lambda>step. if step \<le> t then [t - step] else []) (map (\<lambda>i. 2 ^ i) [0..<32]))
      in map (\<lambda>h. Height (of_nat h))
           (takeWhile (\<lambda>h. h > min_locator_height) (t # exponential_locators) @ [min_locator_height]))"

definition block_locator :: "Chain option \<Rightarrow> ZebraDb \<Rightarrow> bytes list option option" where
  "block_locator chain d = map_option (map_option (\<lambda>t.
     concat (map (\<lambda>h. case hash_by_height chain d h of Some x \<Rightarrow> [x] | None \<Rightarrow> [])
       (block_locator_heights t)))) (tip_height chain d)"

section \<open>Finding hashes and headers\<close>

definition find_chain_intersection :: "Chain option \<Rightarrow> ZebraDb \<Rightarrow> bytes list \<Rightarrow> bytes option" where
  "find_chain_intersection chain d known_blocks =
     (if chain = None \<and> db_is_empty d then None else find (chain_contains_hash chain d) known_blocks)"

definition u32_range :: "u32 \<Rightarrow> u32 \<Rightarrow> u32 list" where
  "u32_range a b = map of_nat [unat a..<Suc (unat b)]"

definition find_chain_height_range ::
  "Chain option \<Rightarrow> ZebraDb \<Rightarrow> bytes option \<Rightarrow> bytes option \<Rightarrow> u32 \<Rightarrow> u32 list option" where
  "find_chain_height_range chain d intersection stop max_len =
     (if max_len = 0 then None
      else Option.bind (tip_height chain d) (\<lambda>chain_tip.
        case chain_tip of
          None \<Rightarrow> Some []
        | Some chain_tip_height \<Rightarrow>
            (case (case intersection of
                     None \<Rightarrow> Some (0, max_len - 1)
                   | Some x \<Rightarrow> map_option (\<lambda>h. (height_u32 h + 1, height_u32 h + max_len))
                                (height_by_hash chain d x)) of
               None \<Rightarrow> Some []
             | Some (start_height, max_height) \<Rightarrow>
                 (let final_height = min max_height (height_u32 chain_tip_height);
                      final_height = (case Option.bind stop (height_by_hash chain d) of
                          Some stop_height \<Rightarrow> min final_height (height_u32 stop_height)
                        | None \<Rightarrow> final_height);
                      height_range = u32_range start_height final_height
                  in if length height_range \<le> unat max_len then Some height_range else None))))"

fun map_while :: "('a \<Rightarrow> 'b option) \<Rightarrow> 'a list \<Rightarrow> 'b list" where
  "map_while f [] = []"
| "map_while f (x # xs) = (case f x of None \<Rightarrow> [] | Some y \<Rightarrow> y # map_while f xs)"

definition collect_chain_hashes ::
  "Chain option \<Rightarrow> ZebraDb \<Rightarrow> bytes option \<Rightarrow> bytes option \<Rightarrow> u32 \<Rightarrow> bytes list option" where
  "collect_chain_hashes chain d intersection stop max_len = do {
     height_range \<leftarrow> find_chain_height_range chain d intersection stop max_len;
     let hashes = map_while (\<lambda>h. hash_by_height chain d (Height h)) height_range in
     if (case intersection of None \<Rightarrow> False | Some x \<Rightarrow> x \<in> set hashes) then None
     else if (case stop of None \<Rightarrow> False | Some x \<Rightarrow> hashes \<noteq> [] \<and> x \<in> set (butlast hashes)) then None
     else Some hashes }"

definition collect_chain_headers ::
  "Chain option \<Rightarrow> ZebraDb \<Rightarrow> bytes option \<Rightarrow> bytes option \<Rightarrow> u32 \<Rightarrow> Header list option" where
  "collect_chain_headers chain d intersection stop max_len =
     map_option (map_while (\<lambda>h. read_block_header chain d (OfHeight (Height h))))
       (find_chain_height_range chain d intersection stop max_len)"

definition find_chain_hashes ::
  "Chain option \<Rightarrow> ZebraDb \<Rightarrow> bytes list \<Rightarrow> bytes option \<Rightarrow> u32 \<Rightarrow> bytes list option" where
  "find_chain_hashes chain d known_blocks stop max_len =
     collect_chain_hashes chain d (find_chain_intersection chain d known_blocks) stop max_len"

definition find_chain_headers ::
  "Chain option \<Rightarrow> ZebraDb \<Rightarrow> bytes list \<Rightarrow> bytes option \<Rightarrow> u32 \<Rightarrow> Header list option" where
  "find_chain_headers chain d known_blocks stop max_len =
     collect_chain_headers chain d (find_chain_intersection chain d known_blocks) stop max_len"

section \<open>Requests\<close>

datatype StateRequest =
    ReqTip
  | ReqKnownBlock bytes
  | ReqBlockHeader HashOrHeight
  | ReqBlock HashOrHeight
  | ReqBlockLocator
  | ReqFindBlockHashes "bytes list" "bytes option"
  | ReqFindBlockHeaders "bytes list" "bytes option"
  | ReqTransaction bytes
  | ReqCrosslinkFinalizeBlock bytes

datatype StateResponse =
    RespTip "(Height \<times> bytes) option"
  | RespKnownBlock "KnownBlock option"
  | RespBlockHeader Header bytes Height "bytes option"
  | RespBlock "pow_block option"
  | RespBlockLocator "bytes list"
  | RespBlockHashes "bytes list"
  | RespBlockHeaders "Header list"
  | RespTransaction "Height option"
  | RespCrosslinkFinalized bytes

definition block_header_response :: "read_state \<Rightarrow> HashOrHeight \<Rightarrow> string + StateResponse" where
  "block_header_response s hh =
     (let chain = best_chain s; not_found = ''block hash or height not found'' in
      case height_or_else hh (height_by_hash chain (db s)) of None \<Rightarrow> Inl not_found | Some h \<Rightarrow>
      case hash_or_else hh (hash_by_height chain (db s)) of None \<Rightarrow> Inl not_found | Some x \<Rightarrow>
      case height_next h of
        Inl _ \<Rightarrow> Inl ''The resulting height would overflow Height::MAX.''
      | Inr next_height \<Rightarrow>
          (case read_block_header chain (db s) (OfHeight h) of
             None \<Rightarrow> Inl not_found
           | Some hdr \<Rightarrow> Inr (RespBlockHeader hdr x h (hash_by_height chain (db s) next_height))))"

text \<open>The handlers. The outer \<open>None\<close> is a panic.\<close>

definition tip_response :: "read_state \<Rightarrow> (string + StateResponse) option" where
  "tip_response s = map_option (\<lambda>t. Inr (RespTip t)) (tip (best_chain s) (db s))"

definition known_block_response :: "read_state \<Rightarrow> bytes \<Rightarrow> string + StateResponse" where
  "known_block_response s x = Inr (RespKnownBlock
     (or_else (non_finalized_state_contains_block_hash (chain_iter s) x)
       (finalized_state_contains_block_hash (db s) x)))"

definition block_response :: "read_state \<Rightarrow> HashOrHeight \<Rightarrow> string + StateResponse" where
  "block_response s hh = Inr (RespBlock (read_block (best_chain s) (db s) hh))"

definition block_locator_response :: "read_state \<Rightarrow> (string + StateResponse) option" where
  "block_locator_response s = map_option
     (\<lambda>l. Inr (RespBlockLocator (case l of None \<Rightarrow> [] | Some hs \<Rightarrow> hs)))
     (block_locator (best_chain s) (db s))"

definition find_block_hashes_response ::
  "read_state \<Rightarrow> bytes list \<Rightarrow> bytes option \<Rightarrow> (string + StateResponse) option" where
  "find_block_hashes_response s known stop = map_option (\<lambda>hs. Inr (RespBlockHashes hs))
     (find_chain_hashes (best_chain s) (db s) known stop MAX_FIND_BLOCK_HASHES_RESULTS)"

definition find_block_headers_response ::
  "read_state \<Rightarrow> bytes list \<Rightarrow> bytes option \<Rightarrow> (string + StateResponse) option" where
  "find_block_headers_response s known stop = map_option (\<lambda>hs. Inr (RespBlockHeaders hs))
     (find_chain_headers (best_chain s) (db s) known stop MAX_FIND_BLOCK_HEADERS_RESULTS)"

text \<open>Transaction lookups and crosslink finalization go to the parameter.\<close>

definition read_request ::
  "(StateRequest \<Rightarrow> read_state \<Rightarrow> (string + StateResponse) option) \<Rightarrow> StateRequest \<Rightarrow> read_state \<Rightarrow>
   (string + StateResponse) option" where
  "read_request other req s =
     (case req of
        ReqTip \<Rightarrow> tip_response s
      | ReqKnownBlock x \<Rightarrow> Some (known_block_response s x)
      | ReqBlockHeader hh \<Rightarrow> Some (block_header_response s hh)
      | ReqBlock hh \<Rightarrow> Some (block_response s hh)
      | ReqBlockLocator \<Rightarrow> block_locator_response s
      | ReqFindBlockHashes known stop \<Rightarrow> find_block_hashes_response s known stop
      | ReqFindBlockHeaders known stop \<Rightarrow> find_block_headers_response s known stop
      | _ \<Rightarrow> other req s)"

lemmas read_request_defs = read_request_def tip_response_def known_block_response_def
  block_response_def block_locator_response_def find_block_hashes_response_def
  find_block_headers_response_def

section \<open>What a consistent state shows\<close>

text \<open>The best chain as one list of blocks with their hashes, from genesis; \<open>chain_view\<close> says that a
  state answers its elementary reads from that list, whichever part is finalized.\<close>

type_synonym pow_chain = "(bytes \<times> pow_block) list"

abbreviation ht :: "nat \<Rightarrow> Height" where
  "ht n \<equiv> Height (of_nat n)"

definition position :: "pow_chain \<Rightarrow> bytes \<Rightarrow> nat option" where
  "position bc x = map_of (zip (map fst bc) [0..<length bc]) x"

definition chain_view :: "read_state \<Rightarrow> pow_chain \<Rightarrow> bool" where
  "chain_view s bc \<longleftrightarrow>
     length bc < 2 ^ 31 \<and> distinct (map fst bc) \<and>
     (bc = [] \<longleftrightarrow> best_chain s = None \<and> db_is_empty (db s)) \<and>
     tip (best_chain s) (db s) =
       Some (if bc = [] then None else Some (ht (length bc - 1), fst (last bc))) \<and>
     (\<forall>h. hash_by_height (best_chain s) (db s) h =
       (if height_nat h < length bc then Some (fst (bc ! height_nat h)) else None)) \<and>
     (\<forall>x. height_by_hash (best_chain s) (db s) x = map_option ht (position bc x)) \<and>
     (\<forall>x. chain_contains_hash (best_chain s) (db s) x \<longleftrightarrow> position bc x \<noteq> None) \<and>
     (\<forall>h. read_block_header (best_chain s) (db s) (OfHeight h) =
       (if height_nat h < length bc then Some (block_header_field (snd (bc ! height_nat h))) else None)) \<and>
     (\<forall>x. read_block (best_chain s) (db s) (OfHash x) =
       map_option (\<lambda>n. snd (bc ! n)) (position bc x)) \<and>
     (\<forall>x n. position bc x = Some n \<longrightarrow> (\<exists>loc.
       or_else (non_finalized_state_contains_block_hash (chain_iter s) x)
         (finalized_state_contains_block_hash (db s) x) = Some \<lparr>location = loc, known_height = ht n\<rparr>))"

lemma position_Some_iff:
  assumes "distinct (map fst bc)"
  shows "position bc x = Some n \<longleftrightarrow> n < length bc \<and> fst (bc ! n) = x"
  using assms unfolding position_def
  by (subst map_of_eq_Some_iff) (auto simp: set_zip intro!: exI[of _ n])

lemma height_nat_ht: "n < 2 ^ 31 \<Longrightarrow> height_nat (ht n) = n"
  by (simp add: unat_of_nat)

lemma map_while_all:
  "(\<And>x. x \<in> set xs \<Longrightarrow> f x = Some (g x)) \<Longrightarrow> map_while f xs = map g xs"
  by (induction xs) auto

definition segment :: "pow_chain \<Rightarrow> bytes list \<Rightarrow> bytes option \<Rightarrow> nat \<Rightarrow> pow_chain" where
  "segment bc known stop max_len =
     (let start = (case find (\<lambda>x. position bc x \<noteq> None) known of
            None \<Rightarrow> 0 | Some x \<Rightarrow> Suc (the (position bc x)));
          fin = min (start + max_len) (length bc);
          fin = (case Option.bind stop (position bc) of None \<Rightarrow> fin | Some n \<Rightarrow> min fin (Suc n))
      in map (nth bc) [start..<fin])"

lemma u32_range_nat:
  assumes "a < 2 ^ 32" and "b < 2 ^ 32"
  shows "u32_range (of_nat a) (of_nat b) = map of_nat [a..<Suc b]"
  using assms by (simp add: u32_range_def unat_of_nat)

lemma min_of_nat_u32:
  "a < 2 ^ 32 \<Longrightarrow> b < 2 ^ 32 \<Longrightarrow> min (of_nat a :: u32) (of_nat b) = of_nat (min a b)"
  by (auto simp: min_def word_le_nat_alt unat_of_nat)

lemma chain_viewD:
  assumes "chain_view s bc"
  shows "length bc < 2 ^ 31" "distinct (map fst bc)"
    and "bc = [] \<longleftrightarrow> best_chain s = None \<and> db_is_empty (db s)"
    and "tip (best_chain s) (db s) =
           Some (if bc = [] then None else Some (ht (length bc - 1), fst (last bc)))"
    and "hash_by_height (best_chain s) (db s) h =
           (if height_nat h < length bc then Some (fst (bc ! height_nat h)) else None)"
    and "height_by_hash (best_chain s) (db s) x = map_option ht (position bc x)"
    and "chain_contains_hash (best_chain s) (db s) x \<longleftrightarrow> position bc x \<noteq> None"
    and "read_block_header (best_chain s) (db s) (OfHeight h) =
           (if height_nat h < length bc then Some (block_header_field (snd (bc ! height_nat h))) else None)"
    and "read_block (best_chain s) (db s) (OfHash x) = map_option (\<lambda>n. snd (bc ! n)) (position bc x)"
    and "position bc x = Some n \<Longrightarrow> \<exists>loc.
           or_else (non_finalized_state_contains_block_hash (chain_iter s) x)
             (finalized_state_contains_block_hash (db s) x) = Some \<lparr>location = loc, known_height = ht n\<rparr>"
  using assms unfolding chain_view_def by blast+

lemma position_less: "distinct (map fst bc) \<Longrightarrow> position bc x = Some n \<Longrightarrow> n < length bc"
  by (simp add: position_Some_iff)

text \<open>The height range of a find request, on the list.\<close>

lemma find_chain_height_range_view:
  assumes view: "chain_view s bc" and "bc \<noteq> []" and max: "0 < unat max_len" "unat max_len \<le> 2 ^ 31"
    and start: "case intersection of None \<Rightarrow> start = 0 | Some x \<Rightarrow> \<exists>n. position bc x = Some n \<and> start = Suc n"
  shows "find_chain_height_range (best_chain s) (db s) intersection stop max_len =
    (let fin = min (start + unat max_len) (length bc);
         fin = (case Option.bind stop (position bc) of None \<Rightarrow> fin | Some n \<Rightarrow> min fin (Suc n))
     in Some (map of_nat [start..<fin]))"
proof -
  note pos_less = position_less[OF chain_viewD(2)[OF view]]
  obtain t where t: "length bc = Suc t" using assms(2) by (cases bc) auto
  obtain m where m: "start + unat max_len = Suc m" using max by (metis add_gr_0 gr0_implies_Suc)
  have t31: "t < 2 ^ 31" using chain_viewD(1)[OF view] t by simp
  have tip_h: "tip_height (best_chain s) (db s) = Some (Some (ht t))"
    using chain_viewD(4)[OF view] t assms(2) by (simp add: tip_height_def)
  have start_le: "start \<le> Suc t" using start t pos_less by (force split: option.splits)
  have m32: "m < 2 ^ 32" using start_le t31 max m by simp
  have range: "(case intersection of None \<Rightarrow> Some (0, max_len - 1)
      | Some x \<Rightarrow> map_option (\<lambda>h. (height_u32 h + 1, height_u32 h + max_len))
          (height_by_hash (best_chain s) (db s) x)) = Some (of_nat start, of_nat m)"
  proof -
    have "of_nat (Suc m) = (of_nat start + max_len :: u32)" by (simp add: m[symmetric])
    then have "of_nat m = (of_nat start + max_len - 1 :: u32)" by (simp add: algebra_simps)
    with start show ?thesis
      by (auto simp: chain_viewD(6)[OF view] algebra_simps split: option.splits)
  qed
  define fin where "fin = (case Option.bind stop (position bc) of
      None \<Rightarrow> min m t | Some n \<Rightarrow> min (min m t) n)"
  have stop: "(case Option.bind stop (height_by_hash (best_chain s) (db s)) of
       None \<Rightarrow> min (of_nat m) (height_u32 (ht t))
     | Some stop_height \<Rightarrow> min (min (of_nat m) (height_u32 (ht t))) (height_u32 stop_height)) = (of_nat fin :: u32)"
  proof (cases "Option.bind stop (position bc)")
    case None
    then have "Option.bind stop (height_by_hash (best_chain s) (db s)) = None"
      by (cases stop) (auto simp: chain_viewD(6)[OF view])
    with None m32 t31 show ?thesis by (simp add: fin_def min_of_nat_u32)
  next
    case (Some n)
    then have "Option.bind stop (height_by_hash (best_chain s) (db s)) = Some (ht n)" and "n < Suc t"
      using t pos_less by (cases stop; auto simp: chain_viewD(6)[OF view])+
    with Some m32 t31 show ?thesis by (simp add: fin_def min_of_nat_u32)
  qed
  have fin32: "fin < 2 ^ 32" using t31 by (auto simp: fin_def split: option.splits)
  have Suc_fin: "(let fin = min (start + unat max_len) (length bc) in
      case Option.bind stop (position bc) of None \<Rightarrow> fin | Some n \<Rightarrow> min fin (Suc n)) = Suc fin"
    by (auto simp: fin_def m t split: option.splits)
  have "fin \<le> m" by (auto simp: fin_def split: option.splits)
  then have len: "length [start..<Suc fin] \<le> unat max_len" using m by (simp, linarith)
  have "max_len \<noteq> 0" using max by auto
  then show ?thesis
    using len fin32 start_le t31 Suc_fin
    by (simp add: find_chain_height_range_def tip_h range stop u32_range_nat Let_def del: upt_Suc)
qed

lemma find_chain_intersection_view:
  assumes "chain_view s bc"
  shows "find_chain_intersection (best_chain s) (db s) known = find (\<lambda>x. position bc x \<noteq> None) known"
proof (cases "bc = []")
  case True
  have "find (\<lambda>x. position bc x \<noteq> None) known = None"
    using True by (simp add: find_None_iff position_def)
  with True assms show ?thesis by (simp add: find_chain_intersection_def chain_view_def)
next
  case False
  with assms have "\<not> (best_chain s = None \<and> db_is_empty (db s))"
    and "chain_contains_hash (best_chain s) (db s) = (\<lambda>x. position bc x \<noteq> None)"
    by (auto simp: chain_view_def)
  then show ?thesis unfolding find_chain_intersection_def by (simp only: if_False)
qed

text \<open>The range as positions of the list.\<close>

definition segment_range :: "pow_chain \<Rightarrow> bytes list \<Rightarrow> bytes option \<Rightarrow> nat \<Rightarrow> nat list" where
  "segment_range bc known stop max_len =
     (let start = (case find (\<lambda>x. position bc x \<noteq> None) known of
            None \<Rightarrow> 0 | Some x \<Rightarrow> Suc (the (position bc x)));
          fin = min (start + max_len) (length bc);
          fin = (case Option.bind stop (position bc) of None \<Rightarrow> fin | Some n \<Rightarrow> min fin (Suc n))
      in [start..<fin])"

lemma segment_eq: "segment bc known stop n = map (nth bc) (segment_range bc known stop n)"
  by (simp add: segment_def segment_range_def Let_def)

lemma segment_range_less: "i \<in> set (segment_range bc known stop n) \<Longrightarrow> i < length bc"
  by (auto simp: segment_range_def Let_def split: option.splits)

lemma find_position:
  "find (\<lambda>x. position bc x \<noteq> None) known = Some x \<Longrightarrow> \<exists>n. position bc x = Some n"
  by (auto simp: find_Some_iff)

lemma find_range_view:
  assumes view: "chain_view s bc" and max: "0 < unat max_len" "unat max_len \<le> 2 ^ 31"
  shows "find_chain_height_range (best_chain s) (db s)
           (find_chain_intersection (best_chain s) (db s) known) stop max_len =
         Some (map of_nat (segment_range bc known stop (unat max_len)))"
proof (cases "bc = []")
  case True
  with view max show ?thesis
    by (auto simp: find_chain_height_range_def chain_view_def tip_height_def segment_range_def
        position_def Let_def find_None_iff split: option.splits)
next
  case False
  let ?i = "find (\<lambda>x. position bc x \<noteq> None) known"
  let ?start = "case ?i of None \<Rightarrow> 0 | Some x \<Rightarrow> Suc (the (position bc x))"
  have "case ?i of None \<Rightarrow> ?start = 0 | Some x \<Rightarrow> \<exists>n. position bc x = Some n \<and> ?start = Suc n"
  proof (cases ?i)
    case (Some x)
    with find_position[OF Some] show ?thesis by auto
  qed simp
  from find_chain_height_range_view[OF view False max this]
  show ?thesis by (simp add: find_chain_intersection_view[OF view] segment_range_def Let_def)
qed

lemma map_while_hashes_view:
  assumes view: "chain_view s bc" and "\<And>n. n \<in> set ns \<Longrightarrow> n < length bc"
  shows "map_while (\<lambda>h. hash_by_height (best_chain s) (db s) (Height h)) (map of_nat ns) =
           map fst (map (nth bc) ns)"
    and "map_while (\<lambda>h. read_block_header (best_chain s) (db s) (OfHeight (Height h))) (map of_nat ns) =
           map (\<lambda>b. block_header_field (snd b)) (map (nth bc) ns)"
proof -
  have nat: "height_nat (ht n) = n" if "n \<in> set ns" for n
    using assms(2)[OF that] chain_viewD(1)[OF view] by (intro height_nat_ht) simp
  show "map_while (\<lambda>h. hash_by_height (best_chain s) (db s) (Height h)) (map of_nat ns) =
           map fst (map (nth bc) ns)"
    using assms(2) nat
    by (subst map_while_all[where g = "\<lambda>h. fst (bc ! unat h)"]) (auto simp: chain_viewD(5)[OF view])
  show "map_while (\<lambda>h. read_block_header (best_chain s) (db s) (OfHeight (Height h))) (map of_nat ns) =
           map (\<lambda>b. block_header_field (snd b)) (map (nth bc) ns)"
    using assms(2) nat
    by (subst map_while_all[where g = "\<lambda>h. block_header_field (snd (bc ! unat h))"])
      (auto simp: chain_viewD(8)[OF view])
qed

lemma find_chain_headers_view:
  assumes "chain_view s bc" "0 < unat max_len" "unat max_len \<le> 2 ^ 31"
  shows "find_chain_headers (best_chain s) (db s) known stop max_len =
    Some (map (\<lambda>b. block_header_field (snd b)) (segment bc known stop (unat max_len)))"
  using assms map_while_hashes_view(2)[OF assms(1) segment_range_less]
  by (simp add: find_chain_headers_def collect_chain_headers_def find_range_view segment_eq del: map_map)

text \<open>Neither assertion of \<^verbatim>\<open>collect_chain_hashes\<close> fires: the intersection is before the segment, and
  the stop hash is at its end or past it.\<close>

lemma segment_excludes_intersection:
  assumes dist: "distinct (map fst bc)" and x: "find (\<lambda>x. position bc x \<noteq> None) known = Some x"
  shows "x \<notin> fst ` set (segment bc known stop n)"
proof
  assume "x \<in> fst ` set (segment bc known stop n)"
  then obtain i where i: "i \<in> set (segment_range bc known stop n)" and "fst (bc ! i) = x"
    by (auto simp: segment_eq)
  with segment_range_less[OF i] have "position bc x = Some i" by (simp add: position_Some_iff[OF dist])
  with i x show False by (auto simp: segment_range_def Let_def split: option.splits)
qed

lemma segment_stop_last:
  assumes dist: "distinct (map fst bc)"
  shows "stop_hash \<notin> set (butlast (map fst (segment bc known (Some stop_hash) n)))"
proof
  let ?ns = "segment_range bc known (Some stop_hash) n"
  assume "stop_hash \<in> set (butlast (map fst (segment bc known (Some stop_hash) n)))"
  then obtain i where i: "i \<in> set (butlast ?ns)" and eq: "fst (bc ! i) = stop_hash"
    by (auto simp: segment_eq map_butlast[symmetric])
  have "i < length bc" using in_set_butlastD[OF i] by (rule segment_range_less)
  with eq have pos: "position bc stop_hash = Some i" by (simp add: position_Some_iff[OF dist])
  have butlast_upt: "butlast [a..<b] = [a..<b - 1]" for a b :: nat
    by (cases b) auto
  from i pos show False by (auto simp: segment_range_def Let_def butlast_upt split: option.splits)
qed

lemma find_chain_hashes_view:
  assumes "chain_view s bc" "0 < unat max_len" "unat max_len \<le> 2 ^ 31"
  shows "find_chain_hashes (best_chain s) (db s) known stop max_len =
    Some (map fst (segment bc known stop (unat max_len)))"
proof -
  have dist: "distinct (map fst bc)" using assms(1) by (simp add: chain_view_def)
  let ?seg = "segment bc known stop (unat max_len)"
  have "map_while (\<lambda>h. hash_by_height (best_chain s) (db s) (Height h))
      (map of_nat (segment_range bc known stop (unat max_len))) = map fst ?seg"
    unfolding segment_eq by (rule map_while_hashes_view(1)[OF assms(1) segment_range_less])
  moreover have "\<not> (case find (\<lambda>x. position bc x \<noteq> None) known of None \<Rightarrow> False
      | Some x \<Rightarrow> x \<in> set (map fst ?seg))"
    using segment_excludes_intersection[OF dist] by (cases "find (\<lambda>x. position bc x \<noteq> None) known") auto
  moreover have "\<not> (case stop of None \<Rightarrow> False
      | Some x \<Rightarrow> map fst ?seg \<noteq> [] \<and> x \<in> set (butlast (map fst ?seg)))"
    using segment_stop_last[OF dist] by (cases stop) auto
  ultimately show ?thesis
    unfolding find_chain_hashes_def collect_chain_hashes_def Let_def bind.bind_lunit
      find_chain_intersection_view[OF assms(1)]
      find_range_view[OF assms, unfolded find_chain_intersection_view[OF assms(1)]]
    by (simp only: if_False)
qed

section \<open>How a chain is stored\<close>

text \<open>The first \<open>k\<close> blocks are in the database, and the blocks from \<open>j\<close> on, \<open>j \<le> k\<close>, in the best
  non-finalized chain. (The published chains lag behind the database while blocks are being finalized.)
  A side chain gives no other height to a block of the best chain.\<close>

abbreviation numbered :: "pow_chain \<Rightarrow> (Height \<times> bytes \<times> pow_block) list" where
  "numbered bc \<equiv> zip (map ht [0..<length bc]) bc"

definition db_holds :: "ZebraDb \<Rightarrow> pow_chain \<Rightarrow> nat \<Rightarrow> bool" where
  "db_holds d bc k \<longleftrightarrow> k \<le> length bc \<and>
     hash_by_height_cf d = map (\<lambda>(h, b). (h, fst b)) (take k (numbered bc)) \<and>
     height_by_hash_cf d = (\<lambda>x. case position bc x of
       Some i \<Rightarrow> if i < k then Some (ht i) else None | None \<Rightarrow> None) \<and>
     (\<forall>h. block_header_by_height_cf d h =
       (if height_nat h < k then Some (block_header_field (snd (bc ! height_nat h))) else None)) \<and>
     (\<forall>h. height_nat h < k \<longrightarrow> transactions_by_height_cf d h = transactions (snd (bc ! height_nat h)))"

definition chain_holds :: "Chain \<Rightarrow> pow_chain \<Rightarrow> nat \<Rightarrow> bool" where
  "chain_holds c bc j \<longleftrightarrow> j < length bc \<and> blocks c = drop j (numbered bc) \<and>
     chain_height_by_hash c = (\<lambda>x. case position bc x of
       Some i \<Rightarrow> if j \<le> i then Some (ht i) else None | None \<Rightarrow> None)"

definition agrees_with :: "pow_chain \<Rightarrow> Chain \<Rightarrow> bool" where
  "agrees_with bc c \<longleftrightarrow>
     (\<forall>x n h. position bc x = Some n \<longrightarrow> chain_height_by_hash c x = Some h \<longrightarrow> h = ht n)"

definition holds :: "read_state \<Rightarrow> pow_chain \<Rightarrow> bool" where
  "holds s bc \<longleftrightarrow> length bc < 2 ^ 31 \<and> distinct (map fst bc) \<and>
     (\<exists>k. db_holds (db s) bc k \<and>
       (case chain_iter s of
          [] \<Rightarrow> k = length bc
        | c # cs \<Rightarrow> (\<exists>j\<le>k. chain_holds c bc j) \<and> list_all (agrees_with bc) cs))"

lemma map_of_zip_ht:
  assumes "length bc < 2 ^ 31"
  shows "map_of (drop k (numbered bc)) h =
           (if k \<le> height_nat h \<and> height_nat h < length bc then Some (bc ! height_nat h) else None)"
    and "map_of (take k (numbered bc)) h =
           (if height_nat h < min k (length bc) then Some (bc ! height_nat h) else None)"
proof -
  let ?z = "numbered bc"
  have nat: "height_nat (ht i) = i" if "i < length bc" for i
    using that assms by (intro height_nat_ht) simp
  have dist: "distinct (map fst ?z)"
    using nat by (auto simp: distinct_map inj_on_def) (metis Height.sel)
  have iff: "(h, b) \<in> set (drop k ?z) \<longleftrightarrow> k \<le> height_nat h \<and> height_nat h < length bc \<and> b = bc ! height_nat h"
    "(h, b) \<in> set (take k ?z) \<longleftrightarrow> height_nat h < min k (length bc) \<and> b = bc ! height_nat h" for b
  proof -
    have "(h, b) \<in> set (drop k ?z) \<longleftrightarrow> (\<exists>i. k \<le> i \<and> i < length bc \<and> h = ht i \<and> b = bc ! i)"
    proof
      assume "(h, b) \<in> set (drop k ?z)"
      then obtain j where "j < length bc - k" "drop k ?z ! j = (h, b)" by (auto simp: in_set_conv_nth)
      then show "\<exists>i. k \<le> i \<and> i < length bc \<and> h = ht i \<and> b = bc ! i"
        by (intro exI[of _ "k + j"]) auto
    next
      assume "\<exists>i. k \<le> i \<and> i < length bc \<and> h = ht i \<and> b = bc ! i"
      then obtain i where i: "k \<le> i" "i < length bc" "h = ht i" "b = bc ! i" by blast
      then have "?z ! i = (h, b)" "i < length ?z" by simp_all
      then have "drop k ?z ! (i - k) = (h, b)" "i - k < length (drop k ?z)" using i(1) by auto
      then show "(h, b) \<in> set (drop k ?z)" by (metis nth_mem)
    qed
    moreover have "(h, b) \<in> set (take k ?z) \<longleftrightarrow> (\<exists>i. i < min k (length bc) \<and> h = ht i \<and> b = bc ! i)"
      by (auto simp: in_set_conv_nth)
    moreover have "ht (height_nat h) = h" by (cases h) simp
    ultimately show "(h, b) \<in> set (drop k ?z) \<longleftrightarrow> k \<le> height_nat h \<and> height_nat h < length bc \<and> b = bc ! height_nat h"
      "(h, b) \<in> set (take k ?z) \<longleftrightarrow> height_nat h < min k (length bc) \<and> b = bc ! height_nat h"
      using nat by (metis min_less_iff_conj)+
  qed
  have "distinct (map fst (drop k ?z))" "distinct (map fst (take k ?z))"
    using dist by (simp_all add: drop_map[symmetric] take_map[symmetric] del: map_fst_zip)
  then show "map_of (drop k ?z) h = (if k \<le> height_nat h \<and> height_nat h < length bc then Some (bc ! height_nat h) else None)"
    "map_of (take k ?z) h = (if height_nat h < min k (length bc) then Some (bc ! height_nat h) else None)"
    using iff by (auto simp: map_of_eq_None_iff intro!: map_of_is_SomeI)
qed

lemma holds_cases:
  assumes "holds s bc"
  obtains (empty) k where "db_holds (db s) bc k" "best_chain s = None" "chain_iter s = []" "k = length bc"
  | (chain) k c cs j where "db_holds (db s) bc k" "best_chain s = Some c" "chain_iter s = c # cs"
      "j \<le> k" "chain_holds c bc j" "list_all (agrees_with bc) cs"
  using assms unfolding holds_def best_chain_def by (fastforce split: list.splits)

lemma last_numbered: "bc \<noteq> [] \<Longrightarrow> last (numbered bc) = (ht (length bc - 1), last bc)"
  by (auto simp: last_conv_nth)

lemma tip_holds:
  assumes "holds s bc"
  shows "tip (best_chain s) (db s) =
    Some (if bc = [] then None else Some (ht (length bc - 1), fst (last bc)))"
  using assms
proof (cases rule: holds_cases)
  case (empty k)
  then show ?thesis
    by (cases "bc = []") (auto simp: tip_def db_tip_def db_holds_def last_map last_numbered)
next
  case (chain k c cs j)
  then have "bc \<noteq> []" "drop j (numbered bc) \<noteq> []" by (auto simp: chain_holds_def)
  with chain show ?thesis
    by (simp add: tip_def non_finalized_tip_def chain_holds_def last_drop last_numbered split: prod.split)
qed

lemmas stored_reads =
  or_else_def hash_by_height_def height_by_hash_def Chain_hash_by_height_def Chain_height_by_hash_def
  chain_contains_hash_def db_contains_hash_def db_hash_def db_height_def read_block_header_def
  read_block_def Chain_block_def db_block_header_def db_block_def height_or_else_def

lemma stored_blocks:
  assumes "length bc < 2 ^ 31"
  shows "chain_holds c bc j \<Longrightarrow> map_of (blocks c) h =
      (if j \<le> height_nat h \<and> height_nat h < length bc then Some (bc ! height_nat h) else None)"
    and "db_holds d bc k \<Longrightarrow> map_of (hash_by_height_cf d) h =
      (if height_nat h < k then Some (fst (bc ! height_nat h)) else None)"
  by (auto simp: chain_holds_def db_holds_def map_of_map comp_def map_of_zip_ht[OF assms]
      simp del: drop_zip take_zip)

lemma db_holds_le: "db_holds d bc k \<Longrightarrow> k \<le> length bc"
  by (simp add: db_holds_def)

lemma hash_by_height_holds:
  assumes "holds s bc"
  shows "hash_by_height (best_chain s) (db s) h =
    (if height_nat h < length bc then Some (fst (bc ! height_nat h)) else None)"
proof -
  have len: "length bc < 2 ^ 31" using assms by (simp add: holds_def)
  from assms show ?thesis
    by (cases rule: holds_cases)
      (auto simp: stored_reads stored_blocks[OF len] dest!: db_holds_le)
qed

lemma height_by_hash_holds:
  assumes "holds s bc"
  shows "height_by_hash (best_chain s) (db s) x = map_option ht (position bc x)"
    and "chain_contains_hash (best_chain s) (db s) x \<longleftrightarrow> position bc x \<noteq> None"
proof -
  have less: "position bc x = Some n \<Longrightarrow> n < length bc" for n
    using assms position_less unfolding holds_def by blast
  from assms show "height_by_hash (best_chain s) (db s) x = map_option ht (position bc x)"
    "chain_contains_hash (best_chain s) (db s) x \<longleftrightarrow> position bc x \<noteq> None"
    by (cases rule: holds_cases;
        use less in \<open>auto simp: stored_reads chain_holds_def db_holds_def split: option.splits\<close>)+
qed

lemma read_block_holds:
  assumes "holds s bc"
  shows "read_block_header (best_chain s) (db s) (OfHeight h) =
      (if height_nat h < length bc then Some (block_header_field (snd (bc ! height_nat h))) else None)"
    and "read_block (best_chain s) (db s) (OfHash x) = map_option (\<lambda>n. snd (bc ! n)) (position bc x)"
proof -
  have len: "length bc < 2 ^ 31" and less: "position bc x = Some n \<Longrightarrow> n < length bc" for n
    using assms position_less unfolding holds_def by blast+
  have nat: "unat (of_nat n :: u32) = n" if "position bc x = Some n" for n
    using less[OF that] len height_nat_ht[of n] by simp
  have db: "db_holds d bc k \<Longrightarrow> block_header_by_height_cf d h =
      (if height_nat h < k then Some (block_header_field (snd (bc ! height_nat h))) else None)"
    "db_holds d bc k \<Longrightarrow> height_nat h < k \<Longrightarrow> transactions_by_height_cf d h = transactions (snd (bc ! height_nat h))"
    "db_holds d bc k \<Longrightarrow> height_by_hash_cf d x = (case position bc x of
       Some i \<Rightarrow> if i < k then Some (ht i) else None | None \<Rightarrow> None)"
    "chain_holds c bc j \<Longrightarrow> chain_height_by_hash c x = (case position bc x of
       Some i \<Rightarrow> if j \<le> i then Some (ht i) else None | None \<Rightarrow> None)"
    "db_holds d bc k \<Longrightarrow> k \<le> length bc"
    for d k c j h by (auto simp: db_holds_def chain_holds_def)
  from assms show "read_block_header (best_chain s) (db s) (OfHeight h) =
      (if height_nat h < length bc then Some (block_header_field (snd (bc ! height_nat h))) else None)"
    by (cases rule: holds_cases)
      (auto simp: stored_reads stored_blocks(1)[OF len] db dest: db(5) order_less_le_trans)
  from assms show "read_block (best_chain s) (db s) (OfHash x) = map_option (\<lambda>n. snd (bc ! n)) (position bc x)"
    by (cases rule: holds_cases; cases "position bc x")
      (use less nat in \<open>auto simp: stored_reads stored_blocks(1)[OF len] db\<close>)
qed

lemma known_block_holds:
  assumes "holds s bc" and pos: "position bc x = Some n"
  shows "\<exists>loc. or_else (non_finalized_state_contains_block_hash (chain_iter s) x)
    (finalized_state_contains_block_hash (db s) x) = Some \<lparr>location = loc, known_height = ht n\<rparr>"
proof -
  have less: "n < length bc" using assms position_less unfolding holds_def by blast
  have side: "\<forall>kb. find_side_chain cs x = Some kb \<longrightarrow> known_height kb = ht n"
    if "list_all (agrees_with bc) cs" for cs
    using that pos
    by (induction cs) (auto simp: agrees_with_def Chain_height_by_hash_def split: option.splits)
  note defs = or_else_def non_finalized_state_contains_block_hash_def Chain_height_by_hash_def
    finalized_state_contains_block_hash_def db_height_def
  from assms(1) show ?thesis
  proof (cases rule: holds_cases)
    case (empty k)
    with pos less show ?thesis by (simp add: defs db_holds_def)
  next
    case (chain k c cs j)
    have "\<exists>loc. kb = \<lparr>location = loc, known_height = ht n\<rparr>" if "known_height kb = ht n" for kb
      using that by (cases kb) auto
    with chain pos less side[OF chain(6)] show ?thesis
      by (auto simp: defs chain_holds_def db_holds_def split: option.splits)
  qed
qed

lemma holds_chain_view:
  assumes "holds s bc"
  shows "chain_view s bc"
proof -
  have "bc = [] \<longleftrightarrow> best_chain s = None \<and> db_is_empty (db s)"
    using assms by (cases rule: holds_cases) (auto simp: db_is_empty_def db_holds_def chain_holds_def)
  moreover have "length bc < 2 ^ 31" "distinct (map fst bc)" using assms by (simp_all add: holds_def)
  ultimately show ?thesis
    unfolding chain_view_def
    using tip_holds[OF assms] hash_by_height_holds[OF assms] height_by_hash_holds[OF assms]
      read_block_holds[OF assms] known_block_holds[OF assms]
    by blast
qed

text \<open>Every list of blocks with distinct hashes can be stored, divided at any height.\<close>

definition state_of :: "pow_chain \<Rightarrow> nat \<Rightarrow> read_state" where
  "state_of bc k =
     \<lparr>chain_iter = (if k < length bc then
         [\<lparr>blocks = drop k (numbered bc),
           chain_height_by_hash = (\<lambda>x. case position bc x of
             Some i \<Rightarrow> if k \<le> i then Some (ht i) else None | None \<Rightarrow> None),
           partial_cumulative_work = 0, last_fork_height = None\<rparr>] else []),
      db = \<lparr>hash_by_height_cf = map (\<lambda>(h, b). (h, fst b)) (take k (numbered bc)),
            height_by_hash_cf = (\<lambda>x. case position bc x of
              Some i \<Rightarrow> if i < k then Some (ht i) else None | None \<Rightarrow> None),
            block_header_by_height_cf = (\<lambda>h. if height_nat h < k
              then Some (block_header_field (snd (bc ! height_nat h))) else None),
            transactions_by_height_cf = (\<lambda>h. transactions (snd (bc ! height_nat h)))\<rparr>\<rparr>"

lemma holds_state_of:
  assumes "length bc < 2 ^ 31" "distinct (map fst bc)" "k \<le> length bc"
  shows "holds (state_of bc k) bc"
  using assms
  by (auto simp: holds_def state_of_def db_holds_def chain_holds_def intro!: exI[of _ k])

lemmas chain_view_state_of = holds_chain_view[OF holds_state_of]

section \<open>Block locators on the list\<close>

lemma locator_exponentials:
  "concat (map (\<lambda>step. if step \<le> t then [t - step] else []) (map (\<lambda>i. 2 ^ i) is')) =
     map (\<lambda>i. t - 2 ^ i) (filter (\<lambda>i. 2 ^ i \<le> t) is')" for t :: nat
  by (induction is') auto

lemma locator_sorted: "sorted_wrt (>) (t # map (\<lambda>i. t - 2 ^ i) (filter (\<lambda>i. 2 ^ i \<le> t) [0..<k]))" for t :: nat
proof -
  have "sorted_wrt (<) (filter (\<lambda>i. 2 ^ i \<le> t) [0..<k])" by (rule sorted_wrt_filter) simp
  then have "sorted_wrt (\<lambda>i j. t - 2 ^ i > t - 2 ^ j) (filter (\<lambda>i. 2 ^ i \<le> t) [0..<k])"
    by (rule sorted_wrt_mono_rel[rotated]) (auto intro!: diff_less_mono2 dest: power_strict_increasing[of _ _ "2 :: nat"] less_le_trans)
  moreover have "t - 2 ^ i < t" if "2 ^ i \<le> t" for i
    using that by (metis diff_less less_le_trans zero_less_numeral zero_less_power)
  ultimately show ?thesis by (auto simp: sorted_wrt_map)
qed

definition locator_nats :: "nat \<Rightarrow> nat list" where
  "locator_nats t = takeWhile (\<lambda>h. h > t - MAX_BLOCK_REORG_HEIGHT)
     (t # map (\<lambda>i. t - 2 ^ i) (filter (\<lambda>i. 2 ^ i \<le> t) [0..<32])) @ [t - MAX_BLOCK_REORG_HEIGHT]"

lemma block_locator_heights_eq:
  "block_locator_heights h = map ht (locator_nats (height_nat h))"
  unfolding block_locator_heights_def locator_nats_def locator_exponentials Let_def ..

lemma locator_nats_sorted: "sorted_wrt (>) (locator_nats t)"
proof -
  let ?xs = "t # map (\<lambda>i. t - 2 ^ i) (filter (\<lambda>i. 2 ^ i \<le> t) [0..<32])"
  have "sorted_wrt (>) (takeWhile P ?xs)" for P
    using locator_sorted[of t 32] by (metis sorted_wrt_append takeWhile_dropWhile_id)
  then show ?thesis
    unfolding locator_nats_def sorted_wrt_append by (auto dest!: set_takeWhileD)
qed

lemma locator_nats_ends:
  "hd (locator_nats t) = t" "last (locator_nats t) = t - MAX_BLOCK_REORG_HEIGHT"
  by (auto simp: locator_nats_def MAX_BLOCK_REORG_HEIGHT_def)

lemma locator_nats_le: "n \<in> set (locator_nats t) \<Longrightarrow> n \<le> t"
  by (auto simp: locator_nats_def dest!: set_takeWhileD)

lemma locator_nats_short: "length (locator_nats t) \<le> 9"
proof -
  let ?ys = "locator_nats t"
  have "i < 7" if "t - 2 ^ i > t - MAX_BLOCK_REORG_HEIGHT" for i
  proof (rule ccontr)
    assume "\<not> i < 7"
    then have "(2 :: nat) ^ 7 \<le> 2 ^ i" by (intro power_increasing) auto
    with that show False by (simp add: MAX_BLOCK_REORG_HEIGHT_def)
  qed
  then have sub: "set ?ys \<subseteq> {t, t - MAX_BLOCK_REORG_HEIGHT} \<union> (\<lambda>i. t - 2 ^ i) ` {..<7}"
    by (auto simp: locator_nats_def dest!: set_takeWhileD)
  have "distinct ?ys"
    using locator_nats_sorted[of t] by (auto simp: sorted_wrt_iff_nth_less distinct_conv_nth neq_iff)
  then have "length ?ys = card (set ?ys)" by (simp add: distinct_card)
  also have "\<dots> \<le> card ({t, t - MAX_BLOCK_REORG_HEIGHT} \<union> (\<lambda>i. t - 2 ^ i) ` {..<7})"
    using sub by (intro card_mono) auto
  also have "\<dots> \<le> card {t, t - MAX_BLOCK_REORG_HEIGHT} + card ((\<lambda>i. t - 2 ^ i) ` {..<7})"
    by (rule card_Un_le)
  also have "\<dots> \<le> 2 + 7"
    using card_image_le[of "{..<7}" "\<lambda>i. t - 2 ^ i"] by (intro add_mono) (auto simp: card_insert_if)
  finally show ?thesis by simp
qed

lemma block_locator_view:
  assumes view: "chain_view s bc" and "bc \<noteq> []"
  shows "block_locator (best_chain s) (db s) =
    Some (Some (map (\<lambda>n. fst (bc ! n)) (locator_nats (length bc - 1))))"
proof -
  have len: "length bc < 2 ^ 31" "0 < length bc" using chain_viewD(1)[OF view] assms(2) by auto
  have nat: "height_nat (ht n) = n" "n < length bc" if "n \<in> set (locator_nats (length bc - 1))" for n
  proof -
    show "n < length bc" using locator_nats_le[OF that] len(2) by linarith
    then show "height_nat (ht n) = n" using len by (intro height_nat_ht) simp
  qed
  have "concat (map (\<lambda>h. case hash_by_height (best_chain s) (db s) h of Some x \<Rightarrow> [x] | None \<Rightarrow> []) (map ht ns)) =
      map (\<lambda>n. fst (bc ! n)) ns" if "\<And>n. n \<in> set ns \<Longrightarrow> height_nat (ht n) = n \<and> n < length bc" for ns
    using that by (induction ns) (auto simp: chain_viewD(5)[OF view])
  from this[of "locator_nats (length bc - 1)"] nat
  show ?thesis
    using chain_viewD(4)[OF view] assms(2) height_nat_ht[of "length bc - 1"] len
    by (simp add: block_locator_def tip_height_def block_locator_heights_eq del: Height.sel)
qed

section \<open>The service as the finality layer sees it\<close>

text \<open>A service whose read requests answer from a list of blocks. The laws speak of a moment at which
  the service shows the list \<open>bc\<close>; nothing is said of requests for unknown hashes beyond what the
  sources document.\<close>

locale chain_service =
  fixes call :: "StateRequest \<Rightarrow> 'w \<Rightarrow> (string + StateResponse) option"
    and view :: "'w \<Rightarrow> pow_chain \<Rightarrow> bool"
  assumes view_list: "view w bc \<Longrightarrow> length bc < 2 ^ 31 \<and> distinct (map fst bc)"
    and tip_law: "view w bc \<Longrightarrow> call ReqTip w =
          Some (Inr (RespTip (if bc = [] then None else Some (ht (length bc - 1), fst (last bc)))))"
    and known_law: "view w bc \<Longrightarrow> position bc x = Some n \<Longrightarrow>
          \<exists>loc. call (ReqKnownBlock x) w =
            Some (Inr (RespKnownBlock (Some \<lparr>location = loc, known_height = ht n\<rparr>)))"
    and header_hash_law: "view w bc \<Longrightarrow> position bc x = Some n \<Longrightarrow>
          call (ReqBlockHeader (OfHash x)) w = Some (Inr (RespBlockHeader
            (block_header_field (snd (bc ! n))) x (ht n)
            (if Suc n < length bc then Some (fst (bc ! Suc n)) else None)))"
    and header_height_law: "view w bc \<Longrightarrow> n < length bc \<Longrightarrow>
          call (ReqBlockHeader (OfHeight (ht n))) w = Some (Inr (RespBlockHeader
            (block_header_field (snd (bc ! n))) (fst (bc ! n)) (ht n)
            (if Suc n < length bc then Some (fst (bc ! Suc n)) else None)))"
    and block_law: "view w bc \<Longrightarrow> call (ReqBlock (OfHash x)) w =
          Some (Inr (RespBlock (map_option (\<lambda>n. snd (bc ! n)) (position bc x))))"
    and locator_law: "view w bc \<Longrightarrow> bc \<noteq> [] \<Longrightarrow> call ReqBlockLocator w =
          Some (Inr (RespBlockLocator (map (\<lambda>n. fst (bc ! n)) (locator_nats (length bc - 1)))))"
    and find_hashes_law: "view w bc \<Longrightarrow> call (ReqFindBlockHashes known stop) w =
          Some (Inr (RespBlockHashes (map fst (segment bc known stop 500))))"
    and find_headers_law: "view w bc \<Longrightarrow> call (ReqFindBlockHeaders known stop) w =
          Some (Inr (RespBlockHeaders
            (map (\<lambda>b. block_header_field (snd b)) (segment bc known stop 160))))"

lemma height_next_ht: "Suc n < 2 ^ 31 \<Longrightarrow> height_next (ht n) = Inr (ht (Suc n))"
proof -
  assume n: "Suc n < 2 ^ 31"
  then have "unat (of_nat n :: u32) = n" using height_nat_ht[of n] by simp
  then have "int (height_nat (ht n)) + 1 = int (Suc n)" by simp
  moreover have "in_i64 1" by (simp add: i64_defs)
  ultimately have "height_add (ht n) 1 = Some (Height (of_int (int (Suc n))))"
    using n by (simp add: height_add_eq Let_def del: of_nat_Suc Height.sel)
  then show ?thesis by (simp add: height_next_def)
qed

lemma block_header_response_view:
  assumes view: "chain_view s bc" and n: "n < length bc"
    and hh: "hh = OfHash (fst (bc ! n)) \<or> hh = OfHeight (ht n)"
  shows "block_header_response s hh = Inr (RespBlockHeader
    (block_header_field (snd (bc ! n))) (fst (bc ! n)) (ht n)
    (if Suc n < length bc then Some (fst (bc ! Suc n)) else None))"
proof -
  note facts = chain_viewD(5,6,8)[OF view]
  have len: "length bc < 2 ^ 31" by (rule chain_viewD(1)[OF view])
  have nat: "height_nat (ht n) = n" "height_nat (ht (Suc n)) = Suc n"
    by (rule height_nat_ht; use n len in simp)+
  have "position bc (fst (bc ! n)) = Some n"
    using n chain_viewD(2)[OF view] by (simp add: position_Some_iff)
  then have "height_or_else hh (height_by_hash (best_chain s) (db s)) = Some (ht n)"
    and "hash_or_else hh (hash_by_height (best_chain s) (db s)) = Some (fst (bc ! n))"
    using hh n nat by (auto simp: height_or_else_def hash_or_else_def facts simp del: Height.sel)
  moreover have "height_next (ht n) = Inr (ht (Suc n))" using n len by (intro height_next_ht) simp
  ultimately show ?thesis
    using n nat by (simp add: block_header_response_def facts del: Height.sel of_nat_Suc)
qed

interpretation reads: chain_service "read_request other" chain_view
proof
  fix w bc x n known stop
  assume view: "chain_view w bc"
  show "length bc < 2 ^ 31 \<and> distinct (map fst bc)" using chain_viewD(1,2)[OF view] by simp
  show "read_request other ReqTip w =
      Some (Inr (RespTip (if bc = [] then None else Some (ht (length bc - 1), fst (last bc)))))"
    using chain_viewD(4)[OF view] by (simp add: read_request_defs)
  show "read_request other (ReqBlock (OfHash x)) w =
      Some (Inr (RespBlock (map_option (\<lambda>n. snd (bc ! n)) (position bc x))))"
    using chain_viewD(9)[OF view] by (simp add: read_request_defs)
  show "read_request other (ReqFindBlockHashes known stop) w =
      Some (Inr (RespBlockHashes (map fst (segment bc known stop 500))))"
    using find_chain_hashes_view[OF view, of MAX_FIND_BLOCK_HASHES_RESULTS known stop]
    by (simp add: read_request_defs MAX_FIND_BLOCK_HASHES_RESULTS_def)
  show "read_request other (ReqFindBlockHeaders known stop) w = Some (Inr (RespBlockHeaders
      (map (\<lambda>b. block_header_field (snd b)) (segment bc known stop 160))))"
    using find_chain_headers_view[OF view, of MAX_FIND_BLOCK_HEADERS_RESULTS known stop]
    by (simp add: read_request_defs MAX_FIND_BLOCK_HEADERS_RESULTS_def)
  show "bc \<noteq> [] \<Longrightarrow> read_request other ReqBlockLocator w =
      Some (Inr (RespBlockLocator (map (\<lambda>n. fst (bc ! n)) (locator_nats (length bc - 1)))))"
    using block_locator_view[OF view] by (simp add: read_request_defs)
  show "position bc x = Some n \<Longrightarrow> \<exists>loc. read_request other (ReqKnownBlock x) w =
      Some (Inr (RespKnownBlock (Some \<lparr>location = loc, known_height = ht n\<rparr>)))"
    using chain_viewD(10)[OF view] by (simp add: read_request_defs)
  show "position bc x = Some n \<Longrightarrow> read_request other (ReqBlockHeader (OfHash x)) w =
      Some (Inr (RespBlockHeader (block_header_field (snd (bc ! n))) x (ht n)
        (if Suc n < length bc then Some (fst (bc ! Suc n)) else None)))"
    using block_header_response_view[OF view, of n "OfHash x"] position_Some_iff[OF chain_viewD(2)[OF view], of x n]
    by (auto simp: read_request_defs)
  show "n < length bc \<Longrightarrow> read_request other (ReqBlockHeader (OfHeight (ht n))) w =
      Some (Inr (RespBlockHeader (block_header_field (snd (bc ! n))) (fst (bc ! n)) (ht n)
        (if Suc n < length bc then Some (fst (bc ! Suc n)) else None)))"
    using block_header_response_view[OF view] by (simp add: read_request_defs)
qed

section \<open>Properties\<close>

text \<open>C20: On a consistent state, searching for hashes or headers returns exactly the blocks that follow
  the first known hash on the best chain (or follow nothing, from genesis, when none is known), at most
  \<^verbatim>\<open>max_len\<close> of them, ending at the tip and at the stop hash; none of the assertions in the search fires,
  wherever the boundary between the database and the non-finalized chain is.\<close>

theorem find_chain_returns_segment:
  assumes "chain_view s bc" and "0 < unat max_len" and "unat max_len \<le> 2 ^ 31"
  shows "find_chain_hashes (best_chain s) (db s) known stop max_len =
           Some (map fst (segment bc known stop (unat max_len))) \<and>
         find_chain_headers (best_chain s) (db s) known stop max_len =
           Some (map (\<lambda>b. block_header_field (snd b)) (segment bc known stop (unat max_len)))"
  using find_chain_hashes_view[OF assms] find_chain_headers_view[OF assms] by blast

definition sample_chain :: pow_chain where
  "sample_chain = map (\<lambda>n. (replicate 32 (of_nat n),
     \<lparr>block_header_field = sample_header 5 (FatPointer_null), transactions = []\<rparr>)) [0..<5]"

theorem find_chain_returns_segment_witness:
  "find_chain_hashes (best_chain (state_of sample_chain 2)) (db (state_of sample_chain 2))
     [replicate 32 9, replicate 32 1] (Some (replicate 32 3)) 500 =
   Some [replicate 32 2, replicate 32 3]"
proof -
  have sample: "length sample_chain < 2 ^ 31" "distinct (map fst sample_chain)"
    by (simp_all add: sample_chain_def upt_rec comp_def)
  have "segment sample_chain [replicate 32 9, replicate 32 1] (Some (replicate 32 3)) 500 =
      [sample_chain ! 2, sample_chain ! 3]"
    by (simp add: segment_def position_def sample_chain_def upt_rec)
  then show ?thesis
    using find_chain_returns_segment[OF chain_view_state_of[OF sample, of 2], of 500
        "[replicate 32 9, replicate 32 1]" "Some (replicate 32 3)"]
    by (simp add: sample_chain_def upt_rec)
qed

text \<open>A block locator starts at the tip, ends exactly \<^verbatim>\<open>MAX_BLOCK_REORG_HEIGHT\<close> below it (or at genesis),
  lists strictly decreasing heights and never has more than nine of them; on a consistent state every
  height has its hash.\<close>

theorem block_locator_covers_reorg:
  assumes "chain_view s bc" and "bc \<noteq> []"
  shows "\<exists>hs. block_locator_heights (ht (length bc - 1)) = map ht hs \<and>
    hd hs = length bc - 1 \<and> last hs = length bc - 1 - MAX_BLOCK_REORG_HEIGHT \<and>
    sorted_wrt (>) hs \<and> length hs \<le> 9 \<and>
    block_locator (best_chain s) (db s) = Some (Some (map (\<lambda>n. fst (bc ! n)) hs))"
proof -
  have "length bc - 1 < 2 ^ 31" using chain_viewD(1)[OF assms(1)] by simp
  from height_nat_ht[OF this] show ?thesis
    using locator_nats_sorted locator_nats_ends locator_nats_short block_locator_view[OF assms]
    unfolding block_locator_heights_eq by metis
qed

theorem block_locator_covers_reorg_witness:
  "\<exists>hs. block_locator_heights (ht 4) = map ht hs \<and> hd hs = 4 \<and> last hs = 0 \<and> sorted_wrt (>) hs"
proof -
  have sample: "length sample_chain < 2 ^ 31" "distinct (map fst sample_chain)"
    by (simp_all add: sample_chain_def upt_rec comp_def)
  have "sample_chain \<noteq> []" "length sample_chain = 5" by (simp_all add: sample_chain_def)
  with block_locator_covers_reorg[OF chain_view_state_of[OF sample, of 2]]
  show ?thesis by (auto simp: MAX_BLOCK_REORG_HEIGHT_def)
qed

end
