(* ===== verification/Difficulty.thy ===== *)
theory Difficulty
  imports Crosslink_Prelude
begin

text \<open>
  Difficulty thresholds and work (\<^verbatim>\<open>zebra-chain/src/work/difficulty.rs\<close>). A compact difficulty is the
  32-bit word of the header; expanded difficulties are the natural numbers below \<^verbatim>\<open>2^256\<close>, with the
  checked arithmetic of the \<^verbatim>\<open>U256\<close> type: a result that does not fit panics.
\<close>

unbundle bit_operations_syntax

section \<open>256-bit arithmetic\<close>

definition u256 :: "nat \<Rightarrow> nat option" where
  "u256 v = (if v < 2 ^ 256 then Some v else None)"

text \<open>\<^verbatim>\<open>U256::bits\<close> is the position of the highest bit, counted from one.\<close>

fun u256_bits :: "nat \<Rightarrow> nat" where
  "u256_bits n = (if n = 0 then 0 else Suc (u256_bits (n div 2)))"

declare u256_bits.simps [simp del]

section \<open>The compact format\<close>

definition PRECISION :: nat where "PRECISION = 24"

definition OFFSET :: int where "OFFSET = 3"

definition SIGN_BIT :: u32 where "SIGN_BIT = push_bit (PRECISION - 1) 1"

definition UNSIGNED_MANTISSA_MASK :: u32 where "UNSIGNED_MANTISSA_MASK = SIGN_BIT - 1"

definition normalise :: "u32 \<Rightarrow> int \<Rightarrow> (u32 \<times> int) option" where
  "normalise m e =
     (if e \<ge> 32 then None
      else if e = 31 \<and> m > 0xff then None
      else if e = 31 \<and> m \<le> 0xff then Some (push_bit 16 m, e - 2)
      else if e = 30 \<and> m > 0xffff then None
      else if e = 30 \<and> m \<le> 0xffff then Some (push_bit 8 m, e - 1)
      else if e < 0 then Some (drop_bit (nat (\<bar>e\<bar> * 8)) m, 0)
      else Some (m, e))"

text \<open>The outer \<open>None\<close> is a panic, the inner one is the source's \<^verbatim>\<open>None\<close>.\<close>

definition to_expanded :: "u32 \<Rightarrow> nat option option" where
  "to_expanded c =
     (if c AND SIGN_BIT = SIGN_BIT then Some None
      else let mantissa = c AND UNSIGNED_MANTISSA_MASK;
               exponent = int (unat (drop_bit PRECISION c)) - OFFSET
           in case normalise mantissa exponent of
                None \<Rightarrow> Some None
              | Some (m, e) \<Rightarrow> do {
                  p \<leftarrow> u256 (256 ^ nat e);
                  result \<leftarrow> u256 (unat m * p);
                  Some (if result = 0 then None else Some result) })"

definition to_compact :: "nat \<Rightarrow> u32 option" where
  "to_compact x =
     (if x = 0 then None
      else let size = u256_bits x div 8 + 1;
               mantissa = (if x \<le> unat UNSIGNED_MANTISSA_MASK then x * 2 ^ (8 * (3 - size))
                           else x div 2 ^ (8 * (size - 3)))
           in if \<not> size < 34 then None
              else if mantissa > unat UNSIGNED_MANTISSA_MASK then None
              else if mantissa > 0 then Some (of_nat mantissa + push_bit 24 (of_nat size)) else None)"

section \<open>Work\<close>

text \<open>\<^verbatim>\<open>!x\<close> is the complement in 256 bits. An \<open>Inl\<close> result does not fit in a \<^verbatim>\<open>u128\<close>.\<close>

definition Work_try_from :: "nat \<Rightarrow> (unit + nat) option" where
  "Work_try_from x = do {
     d \<leftarrow> u256 (x + 1);
     result \<leftarrow> u256 ((2 ^ 256 - 1 - x) div d + 1);
     Some (if result \<le> 2 ^ 128 - 1 then Inr result else Inl ()) }"

definition to_work :: "u32 \<Rightarrow> nat option option" where
  "to_work c = do {
     expanded \<leftarrow> to_expanded c;
     case expanded of
       None \<Rightarrow> Some None
     | Some x \<Rightarrow> map_option (\<lambda>r. case r of Inl _ \<Rightarrow> None | Inr w \<Rightarrow> Some w) (Work_try_from x) }"

definition work_add :: "nat \<Rightarrow> nat \<Rightarrow> nat option" where
  "work_add total_work w = (if total_work + w < 2 ^ 128 then Some (total_work + w) else None)"

definition work_sub :: "nat \<Rightarrow> nat \<Rightarrow> nat option" where
  "work_sub total_work w = (if w \<le> total_work then Some (total_work - w) else None)"

section \<open>Comparison with hashes, and limits\<close>

definition from_hash :: "bytes \<Rightarrow> nat" where
  "from_hash x = le_value x"

definition meets_threshold :: "bytes \<Rightarrow> nat \<Rightarrow> bool" where
  "meets_threshold x threshold \<longleftrightarrow> from_hash x \<le> threshold"

definition difficulty_from_bytes_in_display_order :: "bytes \<Rightarrow> (string + u32) option" where
  "difficulty_from_bytes_in_display_order bs =
     (let difficulty = u32_of_le (rev bs) in
      map_option (\<lambda>e. if e = None then Inl ''invalid difficulty value'' else Inr difficulty)
        (to_expanded difficulty))"

definition expanded_sum :: "nat list \<Rightarrow> nat option" where
  "expanded_sum xs = fold (\<lambda>x acc. Option.bind acc (\<lambda>s. u256 (s + x))) xs (Some 0)"

definition mainnet_target_difficulty_limit :: "nat option" where
  "mainnet_target_difficulty_limit = do {
     c \<leftarrow> to_compact (2 ^ 243 - 1);
     e \<leftarrow> to_expanded c;
     e }"

section \<open>Meaning of the format\<close>

text \<open>The value a compact difficulty denotes: a 23-bit mantissa times a power of 256, rounded down.\<close>

definition compact_value :: "u32 \<Rightarrow> nat" where
  "compact_value c = unat c mod 2 ^ 23 * 256 ^ (unat c div 2 ^ 24) div 256 ^ 3"

definition compact_negative :: "u32 \<Rightarrow> bool" where
  "compact_negative c \<longleftrightarrow> odd (unat c div 2 ^ 23)"

lemma sign_bit_iff: "c AND SIGN_BIT = SIGN_BIT \<longleftrightarrow> compact_negative c"
proof -
  have "c AND push_bit n 1 = push_bit n 1 \<longleftrightarrow> bit c n" if "n < 32" for n
  proof
    assume "c AND push_bit n 1 = push_bit n 1"
    then have "bit (c AND push_bit n 1) n = bit (push_bit n 1 :: u32) n" by simp
    then show "bit c n" using that by (simp add: bit_simps)
  next
    assume "bit c n"
    then show "c AND push_bit n 1 = push_bit n 1" by (intro bit_word_eqI) (auto simp: bit_simps)
  qed
  from this[of "PRECISION - 1"] have "c AND SIGN_BIT = SIGN_BIT \<longleftrightarrow> bit c 23"
    unfolding SIGN_BIT_def by (simp add: PRECISION_def)
  also have "\<dots> \<longleftrightarrow> odd (unat c div 2 ^ 23)"
    using bit_unsigned_iff[of c 23, where ?'a = nat] by (simp only: bit_iff_odd) simp
  finally show ?thesis by (simp add: compact_negative_def)
qed

lemma unat_mantissa: "unat (c AND UNSIGNED_MANTISSA_MASK) = unat c mod 2 ^ 23"
proof -
  have "UNSIGNED_MANTISSA_MASK = mask 23"
    by (simp add: UNSIGNED_MANTISSA_MASK_def SIGN_BIT_def PRECISION_def mask_eq_exp_minus_1)
  then have "unat (c AND UNSIGNED_MANTISSA_MASK) = unat (take_bit 23 c)"
    by (simp only: take_bit_eq_mask)
  also have "\<dots> = unat c mod 2 ^ 23" by (simp add: take_bit_eq_mod unat_mod)
  finally show ?thesis .
qed

lemma unat_exponent: "unat (drop_bit PRECISION c) = unat c div 2 ^ 24" for c :: u32
  by (simp add: PRECISION_def drop_bit_eq_div unat_div)

lemma u256_Some [simp]: "v < 2 ^ 256 \<Longrightarrow> u256 v = Some v"
  by (simp add: u256_def)

lemma u256_power [simp]: "e \<le> 31 \<Longrightarrow> u256 (256 ^ e) = Some (256 ^ e)"
proof -
  assume "e \<le> 31"
  then have "(256 :: nat) ^ e \<le> 256 ^ 31" by (intro power_increasing) auto
  also have "\<dots> < 2 ^ 256" by simp
  finally show ?thesis by simp
qed

lemma scale_down: "3 \<le> e \<Longrightarrow> m * 256 ^ e div 16777216 = m * 256 ^ (e - 3)" for m :: nat
proof -
  assume "3 \<le> e"
  then have "(256 :: nat) ^ e = 256 ^ (e - 3) * 256 ^ 3" by (metis le_add_diff_inverse2 power_add)
  then show ?thesis by simp
qed

lemma scale_up: "e < 3 \<Longrightarrow> m * 256 ^ e div 16777216 = m div 256 ^ (3 - e)" for m :: nat
proof -
  assume "e < 3"
  then have "16777216 = 256 ^ (3 - e) * (256 :: nat) ^ e" by (simp flip: power_add)
  then have "m * 256 ^ e div 16777216 = m * 256 ^ e div (256 ^ (3 - e) * 256 ^ e)" by (rule arg_cong)
  then show ?thesis by simp
qed

lemma unat_shifts:
  "unat m < 2 ^ 16 \<Longrightarrow> unat (push_bit 8 m) = unat m * 2 ^ 8"
  "unat m < 2 ^ 8 \<Longrightarrow> unat (push_bit 16 m) = unat m * 2 ^ 16"
  "unat (drop_bit 8 m) = unat m div 2 ^ 8" "unat (drop_bit 16 m) = unat m div 2 ^ 16"
  "unat (drop_bit 24 m) = unat m div 2 ^ 24" for m :: u32
  by (simp_all add: push_bit_eq_mult unat_word_ariths(2) drop_bit_eq_div unat_div)

lemma normalise_value:
  assumes norm: "normalise m (int e - 3) = Some (m', e')" and m: "unat m < 2 ^ 23"
  shows "0 \<le> e' \<and> e' \<le> 29 \<and> unat m' * 256 ^ nat e' = unat m * 256 ^ e div 256 ^ 3 \<and>
    unat m' * 256 ^ nat e' < 2 ^ 256 - 1"
proof -
  consider (small) "e < 3" | (mid) "3 \<le> e" "e \<le> 32" | (high) "e = 33" | (top) "e = 34" | (over) "35 \<le> e"
    by linarith
  then show ?thesis
  proof cases
    case small
    then consider "e = 0" | "e = 1" | "e = 2" by linarith
    then have "e' = 0 \<and> unat m' = unat m div 256 ^ (3 - e)"
      using norm by cases (auto simp: normalise_def unat_shifts)
    moreover have "unat m div 256 ^ (3 - e) < 2 ^ 23" using m by (metis div_le_dividend le_less_trans)
    ultimately show ?thesis by (simp add: scale_up[OF small])
  next
    case mid
    then have "nat e' = e - 3" "0 \<le> e'" "e' \<le> 29" "m' = m"
      using norm by (auto simp: normalise_def split: if_splits)
    moreover have "unat m * 256 ^ (e - 3) < 2 ^ 23 * 256 ^ 29 + 1"
    proof -
      have "(256 :: nat) ^ (e - 3) \<le> 256 ^ 29" using mid by (intro power_increasing) auto
      with m show ?thesis by (intro le_imp_less_Suc[unfolded Suc_eq_plus1] mult_mono) auto
    qed
    ultimately show ?thesis using mid by (simp add: scale_down[OF mid(1)])
  next
    case high
    then have "unat m < 2 ^ 16" "m' = push_bit 8 m" "e' = 29"
      using norm by (auto simp: normalise_def word_le_nat_alt word_less_nat_alt split: if_splits)
    with high show ?thesis by (simp add: unat_shifts scale_down)
  next
    case top
    then have "unat m < 2 ^ 8" "m' = push_bit 16 m" "e' = 29"
      using norm by (auto simp: normalise_def word_le_nat_alt word_less_nat_alt split: if_splits)
    with top show ?thesis by (simp add: unat_shifts scale_down)
  next
    case over
    with norm show ?thesis by (simp add: normalise_def)
  qed
qed

lemma normalise_None:
  assumes "normalise m (int e - 3) = None" and "unat m < 2 ^ 23"
  shows "unat m = 0 \<or> 2 ^ 256 \<le> unat m * 256 ^ e div 256 ^ 3"
proof -
  have "35 \<le> e \<or> e = 34 \<and> 256 \<le> unat m \<or> e = 33 \<and> 65536 \<le> unat m"
    using assms by (auto simp: normalise_def word_le_nat_alt word_less_nat_alt split: if_splits)
  moreover have "(256 :: nat) ^ 32 \<le> 256 ^ (e - 3)" if "35 \<le> e"
    using that by (intro power_increasing) auto
  ultimately show ?thesis
  proof (elim disjE)
    assume e: "35 \<le> e" and "35 \<le> e \<Longrightarrow> (256 :: nat) ^ 32 \<le> 256 ^ (e - 3)"
    then have "(256 :: nat) ^ 32 \<le> unat m * 256 ^ (e - 3)" if "unat m \<noteq> 0"
      using that by (metis le_trans mult_le_mono1 nat_mult_1 One_nat_def Suc_leI neq0_conv)
    then show ?thesis using e by (auto simp: scale_down)
  qed (auto simp: scale_down)
qed

lemma to_expanded_eq:
  "to_expanded c = Some (if compact_negative c \<or> compact_value c = 0 \<or> 2 ^ 256 \<le> compact_value c
     then None else Some (compact_value c))"
proof (cases "compact_negative c")
  case True
  then show ?thesis by (simp add: to_expanded_def sign_bit_iff)
next
  case False
  let ?m = "c AND UNSIGNED_MANTISSA_MASK" and ?e = "unat c div 2 ^ 24"
  have m: "unat ?m < 2 ^ 23" "unat ?m * 256 ^ ?e div 256 ^ 3 = compact_value c"
    by (simp_all add: unat_mantissa compact_value_def)
  show ?thesis
  proof (cases "normalise ?m (int ?e - 3)")
    case None
    with False normalise_None[OF None m(1)] m show ?thesis
      by (auto simp: to_expanded_def sign_bit_iff unat_exponent OFFSET_def Let_def)
  next
    case (Some p)
    obtain m' e' where p: "p = (m', e')" by (cases p)
    from normalise_value[OF Some[unfolded p] m(1)] m(2)
    have "0 \<le> e'" "e' \<le> 29" "unat m' * 256 ^ nat e' = compact_value c" "compact_value c < 2 ^ 256"
      by auto
    with False Some p show ?thesis
      by (simp add: to_expanded_def sign_bit_iff unat_exponent OFFSET_def Let_def)
  qed
qed

lemma compact_value_bound:
  assumes "\<not> compact_negative c" "compact_value c \<noteq> 0" "compact_value c < 2 ^ 256"
  shows "compact_value c < 2 ^ 256 - 1"
proof -
  let ?m = "c AND UNSIGNED_MANTISSA_MASK" and ?e = "unat c div 2 ^ 24"
  have m: "unat ?m < 2 ^ 23" "unat ?m * 256 ^ ?e div 256 ^ 3 = compact_value c"
    by (simp_all add: unat_mantissa compact_value_def)
  show ?thesis
  proof (cases "normalise ?m (int ?e - 3)")
    case None
    from normalise_None[OF None m(1)] m(2) assms show ?thesis by auto
  next
    case (Some p)
    obtain m' e' where p: "p = (m', e')" by (cases p)
    from normalise_value[OF Some[unfolded p] m(1)] m(2) show ?thesis by auto
  qed
qed

section \<open>Encoding a threshold\<close>

lemma u256_bits_bounds: "0 < x \<Longrightarrow> 0 < u256_bits x \<and> 2 ^ (u256_bits x - 1) \<le> x \<and> x < 2 ^ u256_bits x"
proof (induction x rule: u256_bits.induct)
  case (1 n)
  show ?case
  proof (cases "n = 1")
    case True
    then show ?thesis by (simp add: u256_bits.simps[of "Suc 0"] u256_bits.simps[of 0])
  next
    case False
    with 1 have IH: "0 < u256_bits (n div 2)" "2 ^ (u256_bits (n div 2) - 1) \<le> n div 2"
      "n div 2 < 2 ^ u256_bits (n div 2)" by auto
    then obtain k where k: "u256_bits (n div 2) = Suc k" by (cases "u256_bits (n div 2)") auto
    from IH have "2 * 2 ^ k \<le> n" "n < 2 * (2 * 2 ^ k)" by (auto simp: k)
    then show ?thesis using "1.prems" by (simp add: u256_bits.simps[of n] k)
  qed
qed

lemma u256_bits_eq: "2 ^ k \<le> x \<Longrightarrow> x < 2 ^ Suc k \<Longrightarrow> u256_bits x = Suc k"
proof -
  assume x: "2 ^ k \<le> x" "x < 2 ^ Suc k"
  then have "0 < x" by (metis less_le_trans zero_less_numeral zero_less_power)
  from u256_bits_bounds[OF this] obtain j where j: "u256_bits x = Suc j" "2 ^ j \<le> x" "x < 2 ^ Suc j"
    by (cases "u256_bits x") auto
  have "j < Suc k" "k < Suc j" by (metis x j le_less_trans nat_power_less_imp_less zero_less_numeral)+
  with j show ?thesis by simp
qed

text \<open>What a threshold becomes: its low bytes are cleared, down to the highest 16 to 23 bits.\<close>

definition dropped_bytes :: "nat \<Rightarrow> nat" where
  "dropped_bytes x = u256_bits x div 8 + 1 - 3"

definition round_down :: "nat \<Rightarrow> nat" where
  "round_down x = x div 256 ^ dropped_bytes x * 256 ^ dropped_bytes x"

lemma pow256: "(256 :: nat) ^ k = 2 ^ (8 * k)"
  by (simp add: power_mult)

lemma dropped_bytes_less:
  assumes "0 < x"
  shows "8 * dropped_bytes x + 15 \<le> u256_bits x - 1 \<or> dropped_bytes x = 0"
    and "u256_bits x \<le> 8 * dropped_bytes x + 23"
  unfolding dropped_bytes_def by linarith+

lemma round_down_bounds:
  assumes "0 < x"
  shows "round_down x \<le> x" "2 ^ (u256_bits x - 1) \<le> round_down x" "2 ^ 15 * (x - round_down x) < x"
    "0 < round_down x"
proof -
  let ?k = "dropped_bytes x" and ?b = "u256_bits x - 1"
  have b: "2 ^ ?b \<le> x" using u256_bits_bounds[OF assms] by blast
  show "round_down x \<le> x" by (simp add: round_down_def)
  have "8 * ?k \<le> ?b" using dropped_bytes_less(1)[OF assms] by linarith
  then have split: "(2 :: nat) ^ ?b = 2 ^ (?b - 8 * ?k) * 256 ^ ?k"
    by (simp add: pow256 flip: power_add)
  then have "2 ^ (?b - 8 * ?k) \<le> x div 256 ^ ?k" using b by (simp add: less_eq_div_iff_mult_less_eq)
  then show low: "2 ^ ?b \<le> round_down x" unfolding split round_down_def by simp
  then show "0 < round_down x" by (metis less_le_trans zero_less_numeral zero_less_power)
  have rest: "x - round_down x = x mod 256 ^ ?k"
    unfolding round_down_def by (simp add: minus_div_mult_eq_mod)
  show "2 ^ 15 * (x - round_down x) < x"
  proof (cases "?k = 0")
    case True
    with assms show ?thesis unfolding rest by simp
  next
    case False
    then have "8 * ?k + 15 \<le> ?b" using dropped_bytes_less(1)[OF assms] by linarith
    then have "(2 :: nat) ^ 15 * 256 ^ ?k \<le> 2 ^ ?b"
      unfolding pow256 by (simp only: power_add[symmetric] power_increasing add.commute)
    moreover have "x mod 256 ^ ?k < 256 ^ ?k" by simp
    ultimately show ?thesis unfolding rest using b by (meson le_trans less_le_trans mult_less_mono2 zero_less_numeral zero_less_power)
  qed
qed

lemma mantissa_mask: "unat UNSIGNED_MANTISSA_MASK = 2 ^ 23 - 1"
  by (simp add: UNSIGNED_MANTISSA_MASK_def SIGN_BIT_def PRECISION_def)

definition compact_mantissa :: "nat \<Rightarrow> nat" where
  "compact_mantissa x =
     x div 256 ^ dropped_bytes x * 256 ^ (3 - (u256_bits x div 8 + 1))"

lemma compact_mantissa_bounds:
  assumes "0 < x"
  shows "0 < compact_mantissa x" "compact_mantissa x < 2 ^ 23"
proof -
  let ?k = "dropped_bytes x" and ?j = "3 - (u256_bits x div 8 + 1)"
  have bits: "x < 2 ^ u256_bits x" using u256_bits_bounds[OF assms] by blast
  have "0 < x div 256 ^ ?k" using round_down_bounds(4)[OF assms] by (simp add: round_down_def)
  then show "0 < compact_mantissa x" by (simp add: compact_mantissa_def)
  show "compact_mantissa x < 2 ^ 23"
  proof (cases "?k = 0")
    case True
    then have "compact_mantissa x = x * 2 ^ (8 * ?j)" by (simp add: compact_mantissa_def pow256)
    also have "\<dots> < 2 ^ u256_bits x * 2 ^ (8 * ?j)" using bits by simp
    also have "\<dots> = 2 ^ (u256_bits x + 8 * ?j)" by (rule power_add[symmetric])
    also have "\<dots> \<le> 2 ^ 23" using True unfolding dropped_bytes_def by (intro power_increasing) linarith+
    finally show ?thesis .
  next
    case False
    then have "?j = 0" unfolding dropped_bytes_def by linarith
    then have "compact_mantissa x = x div 256 ^ ?k" by (simp add: compact_mantissa_def)
    moreover have "u256_bits x \<le> 23 + 8 * ?k" using dropped_bytes_less(2)[OF assms] by simp
    then have "x < 2 ^ (23 + 8 * ?k)" using bits by (meson less_le_trans one_le_numeral power_increasing)
    then have "x div 256 ^ ?k < 2 ^ 23" unfolding pow256 by (simp add: power_add div_less_iff_less_mult)
    ultimately show ?thesis by simp
  qed
qed

lemma to_compact_eq:
  assumes "0 < x" "x < 2 ^ 256"
  shows "to_compact x = Some (of_nat (compact_mantissa x + (u256_bits x div 8 + 1) * 2 ^ 24))"
    and "u256_bits x div 8 + 1 \<le> 33"
proof -
  let ?size = "u256_bits x div 8 + 1"
  have "2 ^ (u256_bits x - 1) < (2 :: nat) ^ 256" using u256_bits_bounds[OF assms(1)] assms(2) by linarith
  then have "u256_bits x - 1 < 256" by (rule nat_power_less_imp_less[rotated]) simp
  then show size: "?size \<le> 33" by linarith
  have mantissa: "(if x \<le> unat UNSIGNED_MANTISSA_MASK then x * 2 ^ (8 * (3 - ?size))
      else x div 2 ^ (8 * (?size - 3))) = compact_mantissa x"
  proof (cases "x < 2 ^ 23")
    case True
    have "2 ^ (u256_bits x - 1) < (2 :: nat) ^ 23" using u256_bits_bounds[OF assms(1)] True by linarith
    then have "u256_bits x - 1 < 23" by (rule nat_power_less_imp_less[rotated]) simp
    then have "dropped_bytes x = 0" unfolding dropped_bytes_def by linarith
    with True show ?thesis by (simp add: mantissa_mask compact_mantissa_def pow256)
  next
    case False
    then have "(2 :: nat) ^ 23 < 2 ^ u256_bits x" using u256_bits_bounds[OF assms(1)] by linarith
    then have "23 < u256_bits x" by (rule nat_power_less_imp_less[rotated]) simp
    then have "3 - ?size = 0" by linarith
    with False show ?thesis by (simp add: mantissa_mask compact_mantissa_def dropped_bytes_def pow256)
  qed
  have "push_bit 24 (of_nat ?size) = (of_nat (?size * 2 ^ 24) :: u32)" by (simp add: push_bit_eq_mult algebra_simps)
  then show "to_compact x = Some (of_nat (compact_mantissa x + ?size * 2 ^ 24))"
    unfolding to_compact_def Let_def mantissa
    using assms(1) size compact_mantissa_bounds[OF assms(1)] by (simp add: mantissa_mask)
qed

lemma compact_value_encoded:
  assumes x: "0 < x" "x < 2 ^ 256" and c: "to_compact x = Some c"
  shows "\<not> compact_negative c" "compact_value c = round_down x"
proof -
  let ?size = "u256_bits x div 8 + 1" and ?m = "compact_mantissa x"
  note m = compact_mantissa_bounds[OF x(1)]
  have unat: "unat (of_nat n :: u32) = n" if "n < 2 ^ 32" for n using that by (simp add: unat_of_nat)
  have "c = of_nat (?m + ?size * 2 ^ 24)" using c to_compact_eq(1)[OF x] by simp
  moreover have "?m + ?size * 2 ^ 24 < 2 ^ 32" using m to_compact_eq(2)[OF x] by simp
  ultimately have c: "unat c = ?m + ?size * 2 ^ 24" by (simp only: unat)
  have halves: "(a + s * 2 ^ 24) div 2 ^ 23 = 2 * s" "(a + s * 2 ^ 24) mod 2 ^ 23 = a"
    "(a + s * 2 ^ 24) div 2 ^ 24 = s" if "a < 2 ^ 23" for a s :: nat
  proof -
    have "a + s * 2 ^ 24 = a + 2 ^ 23 * (2 * s)" by simp
    then show "(a + s * 2 ^ 24) div 2 ^ 23 = 2 * s" "(a + s * 2 ^ 24) mod 2 ^ 23 = a"
      using that by (simp_all only: div_mult_self2 mod_mult_self2) simp_all
    show "(a + s * 2 ^ 24) div 2 ^ 24 = s" using that by simp
  qed
  note parts = halves[OF m(2), of ?size]
  show "\<not> compact_negative c" unfolding compact_negative_def c parts by simp
  have "?m * 256 ^ ?size div 256 ^ 3 = round_down x"
  proof (cases "?size \<le> 3")
    case True
    then have "?m = x * 256 ^ (3 - ?size)" "round_down x = x"
      by (simp_all add: compact_mantissa_def round_down_def dropped_bytes_def)
    moreover have "(256 :: nat) ^ (3 - ?size) * 256 ^ ?size = 256 ^ 3"
      using True by (metis le_add_diff_inverse2 power_add)
    ultimately show ?thesis by (simp only: mult.assoc) simp
  next
    case False
    then have "?m = x div 256 ^ dropped_bytes x" "dropped_bytes x = ?size - 3"
      by (simp_all add: compact_mantissa_def dropped_bytes_def)
    with False show ?thesis using scale_down[of ?size ?m] by (simp add: round_down_def)
  qed
  then show "compact_value c = round_down x" unfolding compact_value_def c parts .
qed

lemma u256_bits_round_down: "0 < x \<Longrightarrow> u256_bits (round_down x) = u256_bits x"
proof -
  assume x: "0 < x"
  obtain k where k: "u256_bits x = Suc k" using u256_bits_bounds[OF x] by (cases "u256_bits x") auto
  with x show ?thesis
    using round_down_bounds[OF x] u256_bits_bounds[OF x] by (intro trans[OF u256_bits_eq[of k]]) auto
qed

lemma to_compact_round_down:
  assumes x: "0 < x" "x < 2 ^ 256"
  shows "to_compact (round_down x) = to_compact x"
proof -
  have r: "0 < round_down x" "round_down x < 2 ^ 256" using round_down_bounds[OF x(1)] x(2) by auto
  have "dropped_bytes (round_down x) = dropped_bytes x"
    by (simp add: dropped_bytes_def u256_bits_round_down[OF x(1)])
  moreover from this have "compact_mantissa (round_down x) = compact_mantissa x"
    unfolding compact_mantissa_def u256_bits_round_down[OF x(1)] by (simp add: round_down_def)
  ultimately show ?thesis
    unfolding to_compact_eq(1)[OF x] to_compact_eq(1)[OF r] u256_bits_round_down[OF x(1)] by simp
qed

section \<open>Properties\<close>

text \<open>C29: Expanding a compact difficulty never panics. It is rejected exactly when it is negative, denotes
  zero or needs more than 256 bits; otherwise the threshold is exactly the denoted value, mantissa times
  256 to the exponent minus three, rounded down.\<close>

theorem to_expanded_denotes:
  "to_expanded c = Some (if compact_negative c \<or> compact_value c = 0 \<or> 2 ^ 256 \<le> compact_value c
     then None else Some (compact_value c))"
  by (rule to_expanded_eq)

lemma kept_bytes:
  assumes "0 < x"
  shows "x div 256 ^ dropped_bytes x < 2 ^ 23 \<and> (dropped_bytes x = 0 \<or> 2 ^ 15 \<le> x div 256 ^ dropped_bytes x)"
proof
  let ?k = "dropped_bytes x" and ?b = "u256_bits x - 1"
  have "x div 256 ^ ?k \<le> compact_mantissa x" by (simp add: compact_mantissa_def)
  then show "x div 256 ^ ?k < 2 ^ 23" using compact_mantissa_bounds(2)[OF assms] by linarith
  show "?k = 0 \<or> 2 ^ 15 \<le> x div 256 ^ ?k"
  proof (cases "?k = 0")
    case False
    then have "8 * ?k + 15 \<le> ?b" using dropped_bytes_less(1)[OF assms] by linarith
    then have "(2 :: nat) ^ 15 * 256 ^ ?k \<le> 2 ^ ?b"
      unfolding pow256 by (simp only: power_add[symmetric] power_increasing add.commute)
    also have "\<dots> \<le> x" using u256_bits_bounds[OF assms] by blast
    finally show ?thesis by (simp add: less_eq_div_iff_mult_less_eq)
  qed simp
qed

text \<open>C31: Every non-zero threshold can be encoded without a panic. Decoding clears its lowest \<open>n\<close> bytes and
  changes nothing else, where \<open>n\<close> is the number that leaves a mantissa below \<open>2^23\<close> and, unless no byte is
  cleared, of at least \<open>2^15\<close>: three leading bytes are kept, or two when the leading bit of the first is set. So less than one
  part in \<open>2^15\<close> is lost, and the decoded threshold encodes to the same word again.\<close>

theorem to_compact_roundtrip:
  assumes x: "0 < x" "x < 2 ^ 256"
  shows "\<exists>c n. to_compact x = Some c \<and> to_expanded c = Some (Some (x div 256 ^ n * 256 ^ n)) \<and>
    to_compact (x div 256 ^ n * 256 ^ n) = Some c \<and>
    x div 256 ^ n < 2 ^ 23 \<and> (n = 0 \<or> 2 ^ 15 \<le> x div 256 ^ n) \<and>
    0 < x div 256 ^ n \<and> 2 ^ 15 * (x - x div 256 ^ n * 256 ^ n) < x"
proof -
  obtain c where c: "to_compact x = Some c" using to_compact_eq(1)[OF x] by simp
  note bounds = round_down_bounds[OF x(1)]
  have "to_expanded c = Some (Some (round_down x))"
    using compact_value_encoded[OF x c] bounds x(2) by (simp add: to_expanded_eq)
  moreover have "to_compact (round_down x) = Some c" using to_compact_round_down[OF x] c by simp
  ultimately show ?thesis using c bounds(3,4) kept_bytes[OF x(1)] unfolding round_down_def
    by (intro exI[of _ c] exI[of _ "dropped_bytes x"]) simp
qed

theorem to_compact_roundtrip_witness:
  "\<exists>c n. to_compact 0x80FFFFFF = Some c \<and> to_expanded c = Some (Some (0x80FFFFFF div 256 ^ n * 256 ^ n)) \<and>
    0x80FFFFFF div 256 ^ n < (2 :: nat) ^ 23"
proof -
  have "0 < (0x80FFFFFF :: nat)" "(0x80FFFFFF :: nat) < 2 ^ 256" by simp_all
  from to_compact_roundtrip[OF this] show ?thesis by blast
qed

text \<open>C32: The work of a block with a valid threshold \<open>t\<close> is exactly \<open>2^256 div (t + 1)\<close>, or refused when it
  needs more than 128 bits; the computation never panics, although neither \<open>2^256\<close> nor every
  intermediate value is representable.\<close>

theorem to_work_spec:
  "\<exists>t. to_expanded c = Some t \<and>
    to_work c = Some (case t of None \<Rightarrow> None
      | Some v \<Rightarrow> if 2 ^ 256 div (v + 1) < 2 ^ 128 then Some (2 ^ 256 div (v + 1)) else None)"
proof (cases "compact_negative c \<or> compact_value c = 0 \<or> 2 ^ 256 \<le> compact_value c")
  case True
  then show ?thesis by (simp add: to_work_def to_expanded_eq)
next
  case False
  let ?v = "compact_value c"
  have v: "0 < ?v" "?v < 2 ^ 256 - 1" using compact_value_bound False by auto
  have "2 ^ 256 = (2 ^ 256 - 1 - ?v) + (?v + 1)" using v by simp
  then have div: "(2 ^ 256 - 1 - ?v) div (?v + 1) + 1 = 2 ^ 256 div (?v + 1)"
    by (metis add.commute div_add_self1 add_is_0 one_neq_zero)
  have "u256 (2 ^ 256 div (?v + 1)) = Some (2 ^ 256 div (?v + 1))" "u256 (?v + 1) = Some (?v + 1)"
    using v by (intro u256_Some div_less_dividend; simp)+
  then have "Work_try_from ?v = Some (if 2 ^ 256 div (?v + 1) \<le> 2 ^ 128 - 1
      then Inr (2 ^ 256 div (?v + 1)) else Inl ())"
    unfolding Work_try_from_def by (simp only: div bind.bind_lunit)
  then show ?thesis using False by (auto simp: to_work_def to_expanded_eq)
qed

end
