(* ===== verification/Chain_Set.thy ===== *)
theory Chain_Set
  imports Read_State Difficulty "HOL-Library.List_Lexorder"
begin

text \<open>
  The non-finalized chains (\<^verbatim>\<open>zebra-state/src/service/non_finalized_state.rs\<close> and \<^verbatim>\<open>chain.rs\<close>): growing and
  popping a chain, forks, the set of chains ordered by work, finalization of the lowest block, Crosslink
  finalization of a named block, invalidated blocks. A chain is modelled by its blocks, its hash index
  and its work; the indexes of transactions, outputs, nullifiers and trees are not, and the two
  parameters \<open>context_check\<close> and \<open>index_update\<close> say which blocks they refuse. The set of chains is a
  list, best chain first.
\<close>

section \<open>Data\<close>

type_synonym verified_block = "Height \<times> bytes \<times> pow_block"

datatype ValidateContextError =
    BlockPreviouslyInvalidated bytes
  | NotReadyToBeCommitted
  | OrphanedBlock Height Height
  | NonSequentialBlock Height Height
  | TimeTooEarly int int
  | TimeTooLate int int
  | InvalidDifficultyThreshold u32 u32
  | DuplicateCommitRequest bytes
  | AlreadyFinalized Height
  | ReplacedByNewerRequest bytes
  | PrunedBelowFinalizedTip Height
  | CommitTaskExited
  | OtherContextError string

datatype ReconsiderError =
    MissingInvalidatedBlock bytes
  | ParentChainNotFound bytes
  | InvalidatedBlocksEmpty
  | ValidationError ValidateContextError

type_synonym block_check = "Chain \<Rightarrow> verified_block \<Rightarrow> ValidateContextError option"

record NonFinalizedState =
  chain_set :: "Chain list"
  invalidated_blocks :: "(Height \<times> verified_block list) list"

definition MAX_NON_FINALIZED_CHAIN_FORKS :: nat where "MAX_NON_FINALIZED_CHAIN_FORKS = 10"

definition MAX_INVALIDATED_BLOCKS :: nat where "MAX_INVALIDATED_BLOCKS = 100"

abbreviation block_hash :: "verified_block \<Rightarrow> bytes" where
  "block_hash v \<equiv> fst (snd v)"

abbreviation prev_hash :: "verified_block \<Rightarrow> bytes" where
  "prev_hash v \<equiv> previous_block_hash (block_header_field (snd (snd v)))"

definition expect_work :: "verified_block \<Rightarrow> nat option" where
  "expect_work v = Option.bind (to_work (difficulty_threshold (block_header_field (snd (snd v))))) (\<lambda>w. w)"

definition GENESIS_PREVIOUS_BLOCK_HASH :: bytes where "GENESIS_PREVIOUS_BLOCK_HASH = replicate 32 0"

definition finalized_tip_hash :: "ZebraDb \<Rightarrow> bytes" where
  "finalized_tip_hash d = (case db_tip d of Some (_, x) \<Rightarrow> x | None \<Rightarrow> GENESIS_PREVIOUS_BLOCK_HASH)"

section \<open>One chain\<close>

definition Chain_new :: Chain where
  "Chain_new = \<lparr>blocks = [], chain_height_by_hash = Map.empty, partial_cumulative_work = 0,
     last_fork_height = None\<rparr>"

definition Chain_is_empty :: "Chain \<Rightarrow> bool" where
  "Chain_is_empty c \<longleftrightarrow> blocks c = []"

definition contains_block_hash :: "Chain \<Rightarrow> bytes \<Rightarrow> bool" where
  "contains_block_hash c x \<longleftrightarrow> chain_height_by_hash c x \<noteq> None"

definition contains_block_height :: "Chain \<Rightarrow> Height \<Rightarrow> bool" where
  "contains_block_height c h \<longleftrightarrow> map_of (blocks c) h \<noteq> None"

definition non_finalized_root_hash :: "Chain \<Rightarrow> bytes option" where
  "non_finalized_root_hash c = (case blocks c of [] \<Rightarrow> None | v # _ \<Rightarrow> Some (block_hash v))"

definition non_finalized_root_height :: "Chain \<Rightarrow> Height option" where
  "non_finalized_root_height c = (case blocks c of [] \<Rightarrow> None | v # _ \<Rightarrow> Some (fst v))"

definition non_finalized_tip_hash :: "Chain \<Rightarrow> bytes option" where
  "non_finalized_tip_hash c = (if blocks c = [] then None else Some (block_hash (last (blocks c))))"

definition non_finalized_tip_height :: "Chain \<Rightarrow> Height option" where
  "non_finalized_tip_height c = (if blocks c = [] then None else Some (fst (last (blocks c))))"

definition child_blocks :: "Chain \<Rightarrow> Height \<Rightarrow> verified_block list" where
  "child_blocks c h = filter (\<lambda>v. h \<le> fst v) (blocks c)"

text \<open>Insertion in a map that is ordered by height.\<close>

definition blocks_insert :: "Height \<times> 'v \<Rightarrow> (Height \<times> 'v) list \<Rightarrow> (Height \<times> 'v) list" where
  "blocks_insert v bs =
     takeWhile (\<lambda>w. fst w < fst v) bs @ v # dropWhile (\<lambda>w. fst w \<le> fst v) bs"

text \<open>The updates of the hash index and the work, when a block is added at the tip and when it is
  removed from either end.\<close>

definition update_chain_tip_with :: "block_check \<Rightarrow> Chain \<Rightarrow> verified_block \<Rightarrow> (ValidateContextError + Chain) option" where
  "update_chain_tip_with index_update c v =
     (if chain_height_by_hash c (block_hash v) \<noteq> None then None
      else do {
        w \<leftarrow> expect_work v;
        total_work \<leftarrow> work_add (partial_cumulative_work c) w;
        Some (case index_update c v of
            Some e \<Rightarrow> Inl e
          | None \<Rightarrow> Inr (c\<lparr>chain_height_by_hash := (chain_height_by_hash c)(block_hash v \<mapsto> fst v),
                          partial_cumulative_work := total_work\<rparr>)) })"

definition revert_chain_with :: "Chain \<Rightarrow> verified_block \<Rightarrow> Chain option" where
  "revert_chain_with c v =
     (if chain_height_by_hash c (block_hash v) = None then None
      else do {
        w \<leftarrow> expect_work v;
        total_work \<leftarrow> work_sub (partial_cumulative_work c) w;
        Some (c\<lparr>chain_height_by_hash := (chain_height_by_hash c)(block_hash v := None),
                partial_cumulative_work := total_work\<rparr>) })"

definition Chain_push :: "block_check \<Rightarrow> Chain \<Rightarrow> verified_block \<Rightarrow> (ValidateContextError + Chain) option" where
  "Chain_push index_update c v =
     run_try (update_chain_tip_with index_update c v) id
       (\<lambda>c. Some (Inr (c\<lparr>blocks := blocks_insert v (blocks c)\<rparr>)))"

definition pop_root :: "Chain \<Rightarrow> (verified_block \<times> Chain) option" where
  "pop_root c = (case blocks c of
      [] \<Rightarrow> None
    | v # vs \<Rightarrow> map_option (\<lambda>c'. (v, c')) (revert_chain_with (c\<lparr>blocks := vs\<rparr>) v))"

definition pop_tip :: "Chain \<Rightarrow> Chain option" where
  "pop_tip c =
     (if length (blocks c) \<le> 1 then None
      else revert_chain_with (c\<lparr>blocks := butlast (blocks c)\<rparr>) (last (blocks c)))"

lemma pop_tip_blocks: "pop_tip c = Some c' \<Longrightarrow> blocks c' = butlast (blocks c) \<and> blocks c \<noteq> []"
  by (auto simp: pop_tip_def revert_chain_with_def split: if_splits Option.bind_splits)

function fork_loop :: "Chain \<Rightarrow> bytes \<Rightarrow> Chain option" where
  "fork_loop c x =
     (if non_finalized_tip_hash c = None then None
      else if non_finalized_tip_hash c = Some x then Some c
      else case pop_tip c of
          None \<Rightarrow> None
        | Some c' \<Rightarrow> fork_loop (c'\<lparr>last_fork_height := non_finalized_tip_height c'\<rparr>) x)"
  by pat_completeness auto
termination
  by (relation "measure (\<lambda>(c, x). length (blocks c))") (auto dest!: pop_tip_blocks)

declare fork_loop.simps [simp del]

text \<open>The outer \<open>None\<close> is a panic.\<close>

definition Chain_fork :: "Chain \<Rightarrow> bytes \<Rightarrow> Chain option option" where
  "Chain_fork c x = (if chain_height_by_hash c x = None then Some None else map_option Some (fork_loop c x))"

definition Chain_invalidate_block :: "Chain \<Rightarrow> bytes \<Rightarrow> (Chain \<times> verified_block list) option option" where
  "Chain_invalidate_block c x = (case Chain_height_by_hash c x of
      None \<Rightarrow> Some None
    | Some h \<Rightarrow> do {
        forked \<leftarrow> Chain_fork c x;
        case forked of
          None \<Rightarrow> Some None
        | Some new_chain \<Rightarrow> do {
            new_chain \<leftarrow> pop_tip new_chain;
            Some (Some (new_chain\<lparr>last_fork_height :=
              (case last_fork_height c of None \<Rightarrow> None | Some l \<Rightarrow> Some (min l h))\<rparr>, child_blocks c h)) } })"

section \<open>The order of chains\<close>

datatype ordering = Less | Greater

text \<open>Equal tip hashes are unreachable code: comparing a chain with itself panics.\<close>

definition Chain_cmp :: "Chain \<Rightarrow> Chain \<Rightarrow> ordering option" where
  "Chain_cmp c d =
     (if partial_cumulative_work c < partial_cumulative_work d then Some Less
      else if partial_cumulative_work d < partial_cumulative_work c then Some Greater
      else do {
        x \<leftarrow> non_finalized_tip_hash c;
        y \<leftarrow> non_finalized_tip_hash d;
        if x < y then Some Less else if y < x then Some Greater else None })"

text \<open>\<^verbatim>\<open>BTreeSet\<close> operations on the list with the greatest chain first.\<close>

fun set_insert :: "Chain \<Rightarrow> Chain list \<Rightarrow> Chain list option" where
  "set_insert c [] = Some [c]"
| "set_insert c (d # ds) = (case Chain_cmp c d of
      None \<Rightarrow> None
    | Some Greater \<Rightarrow> Some (c # d # ds)
    | Some Less \<Rightarrow> map_option (Cons d) (set_insert c ds))"

fun set_remove :: "Chain \<Rightarrow> Chain list \<Rightarrow> Chain list option" where
  "set_remove c [] = Some []"
| "set_remove c (d # ds) = (case Chain_cmp c d of
      None \<Rightarrow> None
    | Some Greater \<Rightarrow> Some (d # ds)
    | Some Less \<Rightarrow> map_option (Cons d) (set_remove c ds))"

section \<open>The set of chains\<close>

definition NonFinalizedState_new :: NonFinalizedState where
  "NonFinalizedState_new = \<lparr>chain_set = [], invalidated_blocks = []\<rparr>"

text \<open>\<^verbatim>\<open>BTreeSet::retain\<close> with a predicate that may panic.\<close>

fun retain :: "(Chain \<Rightarrow> bool option) \<Rightarrow> Chain list \<Rightarrow> Chain list option" where
  "retain p [] = Some []"
| "retain p (c # cs) = do {
     keep \<leftarrow> p c;
     cs \<leftarrow> retain p cs;
     Some (if keep then c # cs else cs) }"

definition insert_with :: "Chain \<Rightarrow> (Chain \<Rightarrow> bool option) \<Rightarrow> NonFinalizedState \<Rightarrow> NonFinalizedState option" where
  "insert_with c keep s = do {
     cs \<leftarrow> set_insert c (chain_set s);
     cs \<leftarrow> retain keep cs;
     Some (s\<lparr>chain_set := take MAX_NON_FINALIZED_CHAIN_FORKS cs\<rparr>) }"

definition nfs_insert :: "Chain \<Rightarrow> NonFinalizedState \<Rightarrow> NonFinalizedState option" where
  "nfs_insert c s = insert_with c (\<lambda>_. Some True) s"

definition find_chain :: "(Chain \<Rightarrow> bool) \<Rightarrow> NonFinalizedState \<Rightarrow> Chain option" where
  "find_chain p s = find p (chain_set s)"

fun finalize_side_chains :: "bytes \<Rightarrow> Chain list \<Rightarrow> NonFinalizedState \<Rightarrow> NonFinalizedState option" where
  "finalize_side_chains root [] s = Some s"
| "finalize_side_chains root (c # cs) s = do {
     r \<leftarrow> non_finalized_root_hash c;
     if r \<noteq> root then finalize_side_chains root cs s
     else do {
       (side_root, c') \<leftarrow> pop_root c;
       if block_hash side_root \<noteq> root then None
       else do {
         s \<leftarrow> nfs_insert c' s;
         finalize_side_chains root cs s } } }"

definition finalize :: "NonFinalizedState \<Rightarrow> (verified_block \<times> NonFinalizedState) option" where
  "finalize s = (case chain_set s of
      [] \<Rightarrow> None
    | best # side_chains \<Rightarrow> do {
        (root, best') \<leftarrow> pop_root best;
        let s = s\<lparr>chain_set := []\<rparr>;
        s \<leftarrow> (if Chain_is_empty best' then Some s else nfs_insert best' s);
        s \<leftarrow> finalize_side_chains (block_hash root) side_chains s;
        Some (root, s\<lparr>invalidated_blocks := filter (\<lambda>(h, _). fst root \<le> h) (invalidated_blocks s)\<rparr>) })"

fun remove_chains_without :: "bytes \<Rightarrow> Chain list \<Rightarrow> Chain list \<Rightarrow> Chain list option" where
  "remove_chains_without x [] new_chain_set = Some new_chain_set"
| "remove_chains_without x (c # cs) new_chain_set =
     (if contains_block_hash c x then remove_chains_without x cs new_chain_set
      else if Chain_is_empty c then None
      else Option.bind (set_remove c new_chain_set) (remove_chains_without x cs))"

definition remove_chains_invalidated_by_crosslink_finalized ::
  "bytes \<Rightarrow> NonFinalizedState \<Rightarrow> NonFinalizedState option" where
  "remove_chains_invalidated_by_crosslink_finalized x s =
     map_option (\<lambda>cs. s\<lparr>chain_set := cs\<rparr>) (remove_chains_without x (chain_set s) (chain_set s))"

definition crosslink_finalize ::
  "bytes \<Rightarrow> NonFinalizedState \<Rightarrow> verified_block list option \<times> NonFinalizedState" where
  "crosslink_finalize x s = (case find_chain (\<lambda>c. Chain_height_by_hash c x \<noteq> None) s of
      None \<Rightarrow> (None, s)
    | Some c \<Rightarrow>
        (let h = the (Chain_height_by_hash c x) in
         (Some (filter (\<lambda>v. fst v \<le> h) (blocks c)),
          s\<lparr>chain_set := filter (\<lambda>c. contains_block_hash c x) (chain_set s)\<rparr>)))"

fun first_fork :: "Chain list \<Rightarrow> bytes \<Rightarrow> Chain option option" where
  "first_fork [] x = Some None"
| "first_fork (c # cs) x = do {
     f \<leftarrow> Chain_fork c x;
     case f of Some c' \<Rightarrow> Some (Some c') | None \<Rightarrow> first_fork cs x }"

text \<open>\<^verbatim>\<open>find_chain\<close> with the tip hash panics on an empty chain before a match.\<close>

fun find_tip :: "Chain list \<Rightarrow> bytes \<Rightarrow> Chain option option" where
  "find_tip [] x = Some None"
| "find_tip (c # cs) x = do {
     t \<leftarrow> non_finalized_tip_hash c;
     if t = x then Some (Some c) else find_tip cs x }"

definition parent_chain :: "bytes \<Rightarrow> NonFinalizedState \<Rightarrow> (ValidateContextError + Chain) option" where
  "parent_chain x s = do {
     found \<leftarrow> find_tip (chain_set s) x;
     case found of
       Some c \<Rightarrow> Some (Inr c)
     | None \<Rightarrow> map_option (\<lambda>f. case f of Some c \<Rightarrow> Inr c | None \<Rightarrow> Inl NotReadyToBeCommitted)
         (first_fork (chain_set s) x) }"

text \<open>The code runs some of the checks in parallel with the push on an unshared chain; the new chain is returned only if
  they succeed, and their errors go before an error of the push. So the push comes after all checks here; only a push
  that panics beside a failing check is different, where the model gives the error.\<close>

definition validate_and_commit ::
  "block_check \<Rightarrow> block_check \<Rightarrow> Chain \<Rightarrow> verified_block \<Rightarrow> NonFinalizedState \<Rightarrow>
   (ValidateContextError + Chain) option" where
  "validate_and_commit context_check index_update new_chain prepared s =
     (if fst prepared \<in> fst ` set (invalidated_blocks s)
      then Some (Inl (BlockPreviouslyInvalidated (block_hash prepared)))
      else case context_check new_chain prepared of
          Some e \<Rightarrow> Some (Inl e)
        | None \<Rightarrow> Chain_push index_update new_chain prepared)"

definition commit_block ::
  "block_check \<Rightarrow> block_check \<Rightarrow> verified_block \<Rightarrow> NonFinalizedState \<Rightarrow>
   (ValidateContextError + NonFinalizedState) option" where
  "commit_block context_check index_update prepared s =
     run_try (parent_chain (prev_hash prepared) s) id (\<lambda>parent.
     run_try (validate_and_commit context_check index_update parent prepared s) id (\<lambda>modified_chain.
       map_option Inr (insert_with modified_chain
         (\<lambda>c. map_option (\<lambda>t. t \<noteq> prev_hash prepared) (non_finalized_tip_hash c)) s)))"

definition commit_new_chain ::
  "block_check \<Rightarrow> block_check \<Rightarrow> ZebraDb \<Rightarrow> verified_block \<Rightarrow> NonFinalizedState \<Rightarrow>
   (ValidateContextError + NonFinalizedState) option" where
  "commit_new_chain context_check index_update d prepared s =
     (if db_tip d = None then None
      else run_try (validate_and_commit context_check index_update Chain_new prepared s) id
        (\<lambda>c. map_option Inr (nfs_insert c s)))"

definition map_insert :: "'k \<Rightarrow> 'v \<Rightarrow> ('k \<times> 'v) list \<Rightarrow> ('k \<times> 'v) list" where
  "map_insert h v m =
     (if h \<in> fst ` set m then map (\<lambda>(k, w). if k = h then (k, v) else (k, w)) m else m @ [(h, v)])"

definition nfs_invalidate_block :: "bytes \<Rightarrow> NonFinalizedState \<Rightarrow> (string + bytes \<times> NonFinalizedState) option" where
  "nfs_invalidate_block x s = (case find_chain (\<lambda>c. contains_block_hash c x) s of
      None \<Rightarrow> Some (Inl ''block hash not found in any non-finalized chain'')
    | Some c \<Rightarrow> do {
        root \<leftarrow> non_finalized_root_hash c;
        (s, invalidated) \<leftarrow>
          (if root = x then map_option (\<lambda>cs. (s\<lparr>chain_set := cs\<rparr>, blocks c)) (set_remove c (chain_set s))
           else do {
             r \<leftarrow> Chain_invalidate_block c x;
             (new_chain, invalidated) \<leftarrow> r;
             s \<leftarrow> insert_with new_chain (\<lambda>c. Some (\<not> contains_block_hash c x)) s;
             Some (s, invalidated) });
        case invalidated of
          [] \<Rightarrow> None
        | v # _ \<Rightarrow>
            (let m = map_insert (fst v) invalidated (invalidated_blocks s) in
             Some (Inr (x, s\<lparr>invalidated_blocks := drop (length m - MAX_INVALIDATED_BLOCKS) m\<rparr>))) })"

fun push_all :: "block_check \<Rightarrow> Chain \<Rightarrow> verified_block list \<Rightarrow> (ValidateContextError + Chain) option" where
  "push_all index_update c [] = Some (Inr c)"
| "push_all index_update c (v # vs) = run_try (Chain_push index_update c v) id (\<lambda>c. push_all index_update c vs)"

text \<open>The entry is taken out of a copy of the map of invalidated blocks.\<close>

definition nfs_reconsider_block ::
  "block_check \<Rightarrow> ZebraDb \<Rightarrow> bytes \<Rightarrow> NonFinalizedState \<Rightarrow>
   (ReconsiderError + bytes list \<times> NonFinalizedState) option" where
  "nfs_reconsider_block index_update d x s =
     (case find (\<lambda>(h, vs). vs \<noteq> [] \<and> block_hash (hd vs) = x) (invalidated_blocks s) of
        None \<Rightarrow> Some (Inl (MissingInvalidatedBlock x))
      | Some (h, _) \<Rightarrow>
         (case map_of (invalidated_blocks s) h of
            None \<Rightarrow> Some (Inl (MissingInvalidatedBlock x))
          | Some [] \<Rightarrow> Some (Inl InvalidatedBlocksEmpty)
          | Some (v # vs) \<Rightarrow>
             (let root_parent_hash = prev_hash v;
                  chain_result =
                    (if root_parent_hash = finalized_tip_hash d
                     then Some (if db_tip d = None then Inl (ParentChainNotFound x) else Inr Chain_new)
                     else map_option (map_err (\<lambda>_. ParentChainNotFound x)) (parent_chain root_parent_hash s))
              in run_try chain_result id (\<lambda>c.
                 run_try (push_all index_update c (v # vs)) ValidationError (\<lambda>modified_chain.
                   let s = (case db_tip d of None \<Rightarrow> s | Some (t, _) \<Rightarrow>
                     s\<lparr>invalidated_blocks := filter (\<lambda>(h, _). t \<le> h) (invalidated_blocks s)\<rparr>)
                   in map_option (\<lambda>s. Inr (map block_hash (v # vs), s))
                     (insert_with modified_chain
                       (\<lambda>c. map_option (\<lambda>t. t \<noteq> root_parent_hash) (non_finalized_tip_hash c)) s))))))"

definition best_chain_len :: "NonFinalizedState \<Rightarrow> nat option" where
  "best_chain_len s = (case chain_set s of [] \<Rightarrow> None | c # _ \<Rightarrow> Some (length (blocks c)))"

definition any_chain_contains :: "NonFinalizedState \<Rightarrow> bytes \<Rightarrow> bool" where
  "any_chain_contains s x \<longleftrightarrow> list_ex (\<lambda>c. chain_height_by_hash c x \<noteq> None) (chain_set s)"

definition best_tip :: "NonFinalizedState \<Rightarrow> (Height \<times> bytes) option option" where
  "best_tip s = (case chain_set s of [] \<Rightarrow> Some None | c # _ \<Rightarrow> map_option Some (non_finalized_tip c))"

definition best_hash :: "NonFinalizedState \<Rightarrow> Height \<Rightarrow> bytes option" where
  "best_hash s h = (case chain_set s of [] \<Rightarrow> None | c # _ \<Rightarrow> map_option fst (map_of (blocks c) h))"

fun any_height_by_hash :: "Chain list \<Rightarrow> bytes \<Rightarrow> Height option" where
  "any_height_by_hash [] x = None"
| "any_height_by_hash (c # cs) x = (case chain_height_by_hash c x of Some h \<Rightarrow> Some h | None \<Rightarrow> any_height_by_hash cs x)"

section \<open>Well-formed chains\<close>

fun linked_from :: "bytes \<Rightarrow> verified_block list \<Rightarrow> bool" where
  "linked_from p [] \<longleftrightarrow> True"
| "linked_from p (v # vs) \<longleftrightarrow> prev_hash v = p \<and> linked_from (block_hash v) vs"

text \<open>A chain that starts at height \<open>n\<close> on top of the block \<open>p\<close>.\<close>

definition chain_wf :: "nat \<Rightarrow> bytes \<Rightarrow> Chain \<Rightarrow> bool" where
  "chain_wf n p c \<longleftrightarrow>
     blocks c \<noteq> [] \<and>
     map fst (blocks c) = map ht [n..<n + length (blocks c)] \<and> n + length (blocks c) \<le> 2 ^ 31 \<and>
     distinct (map block_hash (blocks c)) \<and>
     chain_height_by_hash c = map_of (map (\<lambda>v. (block_hash v, fst v)) (blocks c)) \<and>
     linked_from p (blocks c) \<and>
     (\<exists>ws. map expect_work (blocks c) = map Some ws \<and> partial_cumulative_work c = sum_list ws)"

text \<open>A set of chains on a common base. A hash names one block, and no chain is the start of another.\<close>

definition set_wf :: "nat \<Rightarrow> bytes \<Rightarrow> Chain list \<Rightarrow> bool" where
  "set_wf n p cs \<longleftrightarrow>
     (\<forall>c\<in>set cs. chain_wf n p c) \<and>
     sorted_wrt (\<lambda>c d. Chain_cmp d c = Some Less) cs \<and>
     length cs \<le> MAX_NON_FINALIZED_CHAIN_FORKS \<and>
     (\<forall>c\<in>set cs. \<forall>d\<in>set cs. \<forall>v\<in>set (blocks c). \<forall>w\<in>set (blocks d). block_hash v = block_hash w \<longrightarrow> v = w) \<and>
     sorted_wrt (\<lambda>c d. last (blocks c) \<notin> set (blocks d) \<and> last (blocks d) \<notin> set (blocks c)) cs"

lemma chain_wf_contains:
  assumes "chain_wf n p c"
  shows "contains_block_hash c x \<longleftrightarrow> (\<exists>v\<in>set (blocks c). block_hash v = x)"
    and "v \<in> set (blocks c) \<Longrightarrow> chain_height_by_hash c (block_hash v) = Some (fst v)"
proof -
  show "contains_block_hash c x \<longleftrightarrow> (\<exists>v\<in>set (blocks c). block_hash v = x)"
    using assms by (force simp: contains_block_hash_def chain_wf_def map_of_eq_None_iff image_iff)
  show "v \<in> set (blocks c) \<Longrightarrow> chain_height_by_hash c (block_hash v) = Some (fst v)"
    using assms by (auto simp: chain_wf_def comp_def intro!: map_of_is_SomeI)
qed

definition drop_root :: "Chain \<Rightarrow> Chain" where
  "drop_root c = c\<lparr>blocks := tl (blocks c),
     chain_height_by_hash := (chain_height_by_hash c)(block_hash (hd (blocks c)) := None),
     partial_cumulative_work := partial_cumulative_work c - the (expect_work (hd (blocks c)))\<rparr>"

lemma pop_root_wf:
  assumes "chain_wf n p c"
  shows "pop_root c = Some (hd (blocks c), drop_root c)"
    and "length (blocks c) \<noteq> 1 \<Longrightarrow> chain_wf (Suc n) (block_hash (hd (blocks c))) (drop_root c)"
    and "the (expect_work (hd (blocks c))) \<le> partial_cumulative_work c"
proof -
  obtain v vs where b: "blocks c = v # vs" using assms by (cases "blocks c") (auto simp: chain_wf_def)
  obtain w ws where w: "expect_work v = Some w" "map expect_work vs = map Some ws"
      "partial_cumulative_work c = w + sum_list ws"
    using assms by (auto simp: chain_wf_def b Cons_eq_map_conv)
  have idx: "chain_height_by_hash c (block_hash v) = Some (fst v)"
    using chain_wf_contains(2)[OF assms, of v] b by simp
  show "pop_root c = Some (hd (blocks c), drop_root c)"
    using w idx by (simp add: pop_root_def b revert_chain_with_def work_sub_def drop_root_def)
  show "the (expect_work (hd (blocks c))) \<le> partial_cumulative_work c" using b w by simp
  assume "length (blocks c) \<noteq> 1"
  then have "vs \<noteq> []" using b by auto
  moreover have "map fst vs = map ht [Suc n..<Suc n + length vs]"
    using assms by (auto simp: chain_wf_def b upt_conv_Cons simp del: upt_Suc)
  moreover have "(map_of (map (\<lambda>v. (block_hash v, fst v)) vs))(block_hash v := None) =
      map_of (map (\<lambda>v. (block_hash v, fst v)) vs)"
    using assms by (force simp: chain_wf_def b map_of_eq_None_iff image_iff intro!: fun_upd_idem)
  ultimately show "chain_wf (Suc n) (block_hash (hd (blocks c))) (drop_root c)"
    using assms w by (auto simp: chain_wf_def b drop_root_def)
qed

lemma Chain_cmp_drop_root:
  assumes c: "chain_wf n p c" "length (blocks c) \<noteq> 1" and d: "chain_wf n p d" "length (blocks d) \<noteq> 1"
    and root: "hd (blocks c) = hd (blocks d)"
  shows "Chain_cmp (drop_root c) (drop_root d) = Chain_cmp c d"
proof -
  have "tl (blocks b) \<noteq> [] \<and> last (tl (blocks b)) = last (blocks b) \<and> blocks b \<noteq> []"
    if "chain_wf n p b" "length (blocks b) \<noteq> 1" for b
    using that by (cases "blocks b") (auto simp: chain_wf_def)
  from this[OF c] this[OF d]
  have "non_finalized_tip_hash (drop_root c) = non_finalized_tip_hash c"
    "non_finalized_tip_hash (drop_root d) = non_finalized_tip_hash d"
    by (simp_all add: non_finalized_tip_hash_def drop_root_def)
  moreover have "partial_cumulative_work (drop_root c) < partial_cumulative_work (drop_root d) \<longleftrightarrow>
      partial_cumulative_work c < partial_cumulative_work d"
    "partial_cumulative_work (drop_root d) < partial_cumulative_work (drop_root c) \<longleftrightarrow>
      partial_cumulative_work d < partial_cumulative_work c"
    using pop_root_wf(3)[OF c(1)] pop_root_wf(3)[OF d(1)] root by (auto simp: drop_root_def)
  ultimately show ?thesis by (simp add: Chain_cmp_def)
qed

lemma set_insert_lowest:
  "(\<And>d. d \<in> set ds \<Longrightarrow> Chain_cmp c d = Some Less) \<Longrightarrow> set_insert c ds = Some (ds @ [c])"
  by (induction ds) auto

lemma retain_all: "retain (\<lambda>_. Some True) cs = Some cs"
  by (induction cs) auto

lemma nfs_insert_lowest:
  assumes "\<And>d. d \<in> set (chain_set s) \<Longrightarrow> Chain_cmp c d = Some Less"
    and "length (chain_set s) < MAX_NON_FINALIZED_CHAIN_FORKS"
  shows "nfs_insert c s = Some (s\<lparr>chain_set := chain_set s @ [c]\<rparr>)"
  using assms(2) by (simp add: nfs_insert_def insert_with_def set_insert_lowest[OF assms(1)] retain_all)

text \<open>Finalizing pops the root of every chain that has it and keeps their order.\<close>

lemma finalize_side_chains_wf:
  assumes "\<And>c. c \<in> set cs \<Longrightarrow> chain_wf n p c"
    and "\<And>c. c \<in> set cs \<Longrightarrow> non_finalized_root_hash c = Some root \<Longrightarrow> length (blocks c) \<noteq> 1"
    and "sorted_wrt (\<lambda>c d. Chain_cmp d c = Some Less) (chain_set s @ map drop_root (filter (\<lambda>c. non_finalized_root_hash c = Some root) cs))"
    and "length (chain_set s) + length cs \<le> MAX_NON_FINALIZED_CHAIN_FORKS"
  shows "finalize_side_chains root cs s =
    Some (s\<lparr>chain_set := chain_set s @ map drop_root (filter (\<lambda>c. non_finalized_root_hash c = Some root) cs)\<rparr>)"
  using assms
proof (induction cs arbitrary: s)
  case (Cons c cs)
  have c: "chain_wf n p c" using Cons.prems(1) by simp
  then obtain r where r: "non_finalized_root_hash c = Some r" "r = block_hash (hd (blocks c))"
    by (cases "blocks c") (auto simp: chain_wf_def non_finalized_root_hash_def)
  show ?case
  proof (cases "r = root")
    case True
    let ?s = "s\<lparr>chain_set := chain_set s @ [drop_root c]\<rparr>"
    have "nfs_insert (drop_root c) s = Some ?s"
      using Cons.prems(3,4) r True by (intro nfs_insert_lowest) (auto simp: sorted_wrt_append)
    moreover have "finalize_side_chains root cs ?s = Some (?s\<lparr>chain_set := chain_set ?s @
        map drop_root (filter (\<lambda>c. non_finalized_root_hash c = Some root) cs)\<rparr>)"
      using Cons.prems r True by (intro Cons.IH) auto
    ultimately show ?thesis using pop_root_wf(1)[OF c] r True by simp
  next
    case False
    then show ?thesis using Cons.IH[of s] Cons.prems r by simp
  qed
qed simp

definition finalized_set :: "Chain list \<Rightarrow> Chain list" where
  "finalized_set cs = (case cs of
      [] \<Rightarrow> []
    | best # _ \<Rightarrow> if length (blocks best) = 1 then []
        else map drop_root (filter (\<lambda>c. hd (blocks c) = hd (blocks best)) cs))"

lemma set_wf_memberD:
  assumes "set_wf n p cs" "c \<in> set cs"
  shows "chain_wf n p c" "blocks c \<noteq> []" "hd (blocks c) \<in> set (blocks c)"
    "non_finalized_root_hash c = Some (block_hash (hd (blocks c)))"
proof -
  show wf: "chain_wf n p c" using assms unfolding set_wf_def by blast
  then show "blocks c \<noteq> []" "hd (blocks c) \<in> set (blocks c)"
    "non_finalized_root_hash c = Some (block_hash (hd (blocks c)))"
    by (cases "blocks c"; simp add: chain_wf_def non_finalized_root_hash_def)+
qed

lemma set_wf_same:
  assumes "set_wf n p cs" "c \<in> set cs" "d \<in> set cs" "v \<in> set (blocks c)" "w \<in> set (blocks d)"
    "block_hash v = block_hash w"
  shows "v = w"
  using assms unfolding set_wf_def by blast

lemma set_wf_root_eq:
  assumes "set_wf n p cs" "c \<in> set cs" "d \<in> set cs"
  shows "block_hash (hd (blocks c)) = block_hash (hd (blocks d)) \<longleftrightarrow> hd (blocks c) = hd (blocks d)"
  using set_wf_same[OF assms set_wf_memberD(3)[OF assms(1,2)] set_wf_memberD(3)[OF assms(1,3)]] by auto

lemma single_block: "length (blocks c) = 1 \<Longrightarrow> last (blocks c) = hd (blocks c)"
  by (cases "blocks c") auto

lemma set_wf_single:
  assumes "set_wf n p (best # sides)" "c \<in> set sides" "hd (blocks c) = hd (blocks best)"
  shows "length (blocks best) \<noteq> 1" "length (blocks c) \<noteq> 1"
proof -
  have "last (blocks best) \<notin> set (blocks c)" "last (blocks c) \<notin> set (blocks best)"
    using assms(1,2) unfolding set_wf_def sorted_wrt.simps by blast+
  then show "length (blocks best) \<noteq> 1" "length (blocks c) \<noteq> 1"
    using set_wf_memberD(3)[OF assms(1), of c] set_wf_memberD(3)[OF assms(1), of best] assms(2,3)
      single_block[of c] single_block[of best]
    by auto
qed

lemma set_wf_finalized:
  assumes wf: "set_wf n p (best # sides)" and len: "length (blocks best) \<noteq> 1"
  shows "set_wf (Suc n) (block_hash (hd (blocks best))) (finalized_set (best # sides))"
proof -
  let ?keep = "filter (\<lambda>c. hd (blocks c) = hd (blocks best)) (best # sides)"
  have many: "length (blocks c) \<noteq> 1" if "c \<in> set ?keep" for c
    using that len set_wf_single(2)[OF wf] by auto
  have wf_c: "chain_wf n p c" if "c \<in> set ?keep" for c using that set_wf_memberD(1)[OF wf] by auto
  have root: "hd (blocks c) = hd (blocks best)" if "c \<in> set ?keep" for c using that by auto
  have tl: "tl (blocks c) \<noteq> [] \<and> last (tl (blocks c)) = last (blocks c) \<and> set (tl (blocks c)) \<subseteq> set (blocks c)"
    if "c \<in> set ?keep" for c
    using many[OF that] wf_c[OF that] by (cases "blocks c") (auto simp: chain_wf_def)
  have sorted: "sorted_wrt (\<lambda>c d. Chain_cmp d c = Some Less) ?keep"
    "sorted_wrt (\<lambda>c d. last (blocks c) \<notin> set (blocks d) \<and> last (blocks d) \<notin> set (blocks c)) ?keep"
    using wf unfolding set_wf_def by (blast intro: sorted_wrt_filter)+
  have 1: "sorted_wrt (\<lambda>c d. Chain_cmp (drop_root d) (drop_root c) = Some Less) ?keep"
  proof (rule sorted_wrt_mono_rel[OF _ sorted(1)])
    fix c d
    assume c: "c \<in> set ?keep" and d: "d \<in> set ?keep" and "Chain_cmp d c = Some Less"
    with Chain_cmp_drop_root[OF wf_c[OF d] many[OF d] wf_c[OF c] many[OF c]] root[OF c] root[OF d]
    show "Chain_cmp (drop_root d) (drop_root c) = Some Less" by metis
  qed
  have 2: "sorted_wrt (\<lambda>c d. last (tl (blocks c)) \<notin> set (tl (blocks d)) \<and>
      last (tl (blocks d)) \<notin> set (tl (blocks c))) ?keep"
  proof (rule sorted_wrt_mono_rel[OF _ sorted(2)])
    fix c d
    assume c: "c \<in> set ?keep" and d: "d \<in> set ?keep"
      and "last (blocks c) \<notin> set (blocks d) \<and> last (blocks d) \<notin> set (blocks c)"
    with tl[OF c] tl[OF d]
    show "last (tl (blocks c)) \<notin> set (tl (blocks d)) \<and> last (tl (blocks d)) \<notin> set (tl (blocks c))" by auto
  qed
  have 3: "length ?keep \<le> MAX_NON_FINALIZED_CHAIN_FORKS"
  proof -
    have "length (best # sides) \<le> MAX_NON_FINALIZED_CHAIN_FORKS" using wf unfolding set_wf_def by blast
    then show ?thesis by (rule le_trans[OF length_filter_le])
  qed
  have 4: "\<forall>c\<in>set ?keep. \<forall>d\<in>set ?keep. \<forall>v\<in>set (tl (blocks c)). \<forall>w\<in>set (tl (blocks d)).
      block_hash v = block_hash w \<longrightarrow> v = w"
  proof (intro ballI impI)
    fix c d v w
    assume "c \<in> set ?keep" "d \<in> set ?keep" "v \<in> set (tl (blocks c))" "w \<in> set (tl (blocks d))"
      and eq: "block_hash v = block_hash w"
    with tl[of c] tl[of d] have "c \<in> set (best # sides)" "d \<in> set (best # sides)"
      "v \<in> set (blocks c)" "w \<in> set (blocks d)" by (auto simp only: set_filter mem_Collect_eq)
    from set_wf_same[OF wf this eq] show "v = w" .
  qed
  have 5: "\<forall>c\<in>set ?keep. chain_wf (Suc n) (block_hash (hd (blocks best))) (drop_root c)"
  proof
    fix c
    assume "c \<in> set ?keep"
    from pop_root_wf(2)[OF wf_c[OF this] many[OF this]] root[OF this]
    show "chain_wf (Suc n) (block_hash (hd (blocks best))) (drop_root c)" by simp
  qed
  have fin: "finalized_set (best # sides) = map drop_root ?keep"
    using len unfolding finalized_set_def by (simp only: list.case if_False)
  have bl: "blocks (drop_root c) = tl (blocks c)" for c by (simp add: drop_root_def)
  show ?thesis
    unfolding fin set_wf_def sorted_wrt_map length_map set_map ball_simps(9) bl
    by (intro conjI 1 2 3 4 5)
qed

lemma finalize_wf:
  assumes wf: "set_wf n p (chain_set s)" and cs: "chain_set s = best # sides"
  shows "finalize s = Some (hd (blocks best), s\<lparr>chain_set := finalized_set (chain_set s),
    invalidated_blocks := filter (\<lambda>(h, _). fst (hd (blocks best)) \<le> h) (invalidated_blocks s)\<rparr>)"
proof -
  let ?root = "hd (blocks best)" and ?s = "s\<lparr>chain_set := []\<rparr>"
  note wf' = wf[unfolded cs]
  have best: "chain_wf n p best" using set_wf_memberD(1)[OF wf'] by simp
  have filters: "filter (\<lambda>c. non_finalized_root_hash c = Some (block_hash ?root)) sides =
      filter (\<lambda>c. hd (blocks c) = ?root) sides"
    using set_wf_memberD(4)[OF wf'] set_wf_root_eq[OF wf', of _ best] by (intro filter_cong) auto
  have empty: "Chain_is_empty (drop_root best) \<longleftrightarrow> length (blocks best) = 1"
    using best by (cases "blocks best") (auto simp: Chain_is_empty_def drop_root_def chain_wf_def)
  have side_wf: "chain_wf n p c" if "c \<in> set sides" for c using that set_wf_memberD(1)[OF wf'] by simp
  have many: "length (blocks c) \<noteq> 1"
    if "c \<in> set sides" "non_finalized_root_hash c = Some (block_hash ?root)" for c
    using that set_wf_memberD(4)[OF wf', of c] set_wf_root_eq[OF wf', of c best] set_wf_single[OF wf', of c] by simp
  have len: "Suc (length sides) \<le> MAX_NON_FINALIZED_CHAIN_FORKS" using wf' by (simp add: set_wf_def)
  have sides: "finalize_side_chains (block_hash ?root) sides s' =
      Some (s'\<lparr>chain_set := chain_set s' @ map drop_root (filter (\<lambda>c. hd (blocks c) = ?root) sides)\<rparr>)"
    if "sorted_wrt (\<lambda>c d. Chain_cmp d c = Some Less)
        (chain_set s' @ map drop_root (filter (\<lambda>c. hd (blocks c) = ?root) sides))"
      "length (chain_set s') \<le> 1" for s'
    unfolding filters[symmetric]
  proof (rule finalize_side_chains_wf)
    show "chain_wf n p c" if "c \<in> set sides" for c by (rule side_wf[OF that])
    show "length (blocks c) \<noteq> 1"
      if "c \<in> set sides" "non_finalized_root_hash c = Some (block_hash ?root)" for c
      by (rule many[OF that])
    show "sorted_wrt (\<lambda>c d. Chain_cmp d c = Some Less) (chain_set s' @
        map drop_root (filter (\<lambda>c. non_finalized_root_hash c = Some (block_hash ?root)) sides))"
      unfolding filters by (rule that(1))
    show "length (chain_set s') + length sides \<le> MAX_NON_FINALIZED_CHAIN_FORKS"
      using len that(2) by linarith
  qed
  show ?thesis
  proof (cases "length (blocks best) = 1")
    case True
    then have none: "filter (\<lambda>c. hd (blocks c) = ?root) sides = []"
      using set_wf_single(1)[OF wf'] by (auto simp: filter_empty_conv)
    have "finalize_side_chains (block_hash ?root) sides ?s = Some ?s"
      using sides[of ?s, unfolded none] by simp
    moreover have "finalized_set (best # sides) = []" using True by (simp add: finalized_set_def)
    ultimately show ?thesis
      unfolding finalize_def cs list.case pop_root_wf(1)[OF best] bind.bind_lunit prod.case Let_def
      using True empty by simp
  next
    case False
    let ?t = "s\<lparr>chain_set := [drop_root best]\<rparr>"
    have set: "finalized_set (chain_set s) = [drop_root best] @ map drop_root (filter (\<lambda>c. hd (blocks c) = ?root) sides)"
      using False by (simp add: finalized_set_def cs)
    have "sorted_wrt (\<lambda>c d. Chain_cmp d c = Some Less) (finalized_set (chain_set s))"
      using set_wf_finalized[OF wf' False] unfolding set_wf_def cs by blast
    then have "finalize_side_chains (block_hash ?root) sides ?t = Some (s\<lparr>chain_set := finalized_set (chain_set s)\<rparr>)"
      unfolding set using sides[of ?t] by simp
    moreover have "nfs_insert (drop_root best) ?s = Some ?t"
      using nfs_insert_lowest[of ?s "drop_root best"] by (simp add: MAX_NON_FINALIZED_CHAIN_FORKS_def)
    ultimately show ?thesis
      unfolding finalize_def cs list.case pop_root_wf(1)[OF best] bind.bind_lunit prod.case Let_def
      using False empty by simp
  qed
qed

section \<open>Chains that share a block\<close>

lemma linked_nth: "linked_from p vs \<Longrightarrow> Suc k < length vs \<Longrightarrow> prev_hash (vs ! Suc k) = block_hash (vs ! k)"
proof (induction vs arbitrary: p k)
  case (Cons v vs)
  then show ?case by (cases vs; cases k) auto
qed simp

lemma chain_wf_height:
  assumes "chain_wf n p c" "i < length (blocks c)"
  shows "fst (blocks c ! i) = ht (n + i)" "height_nat (fst (blocks c ! i)) = n + i"
proof -
  have "map fst (blocks c) ! i = ht (n + i)"
    using assms unfolding chain_wf_def by (simp del: of_nat_add)
  then show h: "fst (blocks c ! i) = ht (n + i)" using assms(2) by simp
  show "height_nat (fst (blocks c ! i)) = n + i"
    unfolding h by (rule height_nat_ht) (use assms in \<open>auto simp: chain_wf_def\<close>)
qed

lemma shared_prefix:
  assumes wf: "set_wf n p cs" and c: "c \<in> set cs" and d: "d \<in> set cs" and i: "i < length (blocks c)"
    and x: "contains_block_hash d (block_hash (blocks c ! i))"
  shows "i < length (blocks d) \<and> take (Suc i) (blocks d) = take (Suc i) (blocks c)"
proof -
  note wfc = set_wf_memberD(1)[OF wf c] and wfd = set_wf_memberD(1)[OF wf d]
  obtain w where "w \<in> set (blocks d)" "block_hash w = block_hash (blocks c ! i)"
    using x chain_wf_contains(1)[OF wfd] by blast
  with set_wf_same[OF wf c d nth_mem[OF i]] have "blocks c ! i \<in> set (blocks d)" by metis
  then obtain j where j: "j < length (blocks d)" "blocks d ! j = blocks c ! i" by (auto simp: in_set_conv_nth)
  have "n + j = n + i" using chain_wf_height(2)[OF wfc i] chain_wf_height(2)[OF wfd j(1)] j(2) by metis
  then have j: "i < length (blocks d)" "blocks d ! i = blocks c ! i" using j by auto
  have "k \<le> i \<Longrightarrow> blocks d ! (i - k) = blocks c ! (i - k)" for k
  proof (induction k)
    case (Suc k)
    then have k: "Suc (i - Suc k) = i - k" by simp
    have "block_hash (blocks b ! (i - Suc k)) = prev_hash (blocks b ! (i - k))"
      if "chain_wf n p b" "i < length (blocks b)" for b
      using linked_nth[of p "blocks b" "i - Suc k"] that unfolding k chain_wf_def by simp
    from this[OF wfc i] this[OF wfd j(1)] Suc
    have "block_hash (blocks c ! (i - Suc k)) = block_hash (blocks d ! (i - Suc k))" by simp
    moreover have "blocks c ! (i - Suc k) \<in> set (blocks c)" "blocks d ! (i - Suc k) \<in> set (blocks d)"
      using i j by simp_all
    ultimately show ?case using set_wf_same[OF wf c d] by metis
  qed (use j in simp)
  then have "blocks d ! m = blocks c ! m" if "m \<le> i" for m
    using that by (metis diff_diff_cancel diff_le_self)
  with i j show ?thesis by (auto intro!: nth_equalityI)
qed

lemma set_wf_filter: "set_wf n p cs \<Longrightarrow> set_wf n p (filter P cs)"
  unfolding set_wf_def set_filter
  by (elim conjE, intro conjI; blast intro: sorted_wrt_filter le_trans[OF length_filter_le])

text \<open>When all chains start with the same block, finalizing it keeps every chain that is longer.\<close>

lemma finalized_set_shared:
  assumes "cs \<noteq> []" and "\<And>c. c \<in> set cs \<Longrightarrow> hd (blocks c) = v"
  shows "finalized_set cs = (if length (blocks (hd cs)) = 1 then [] else map drop_root cs)"
proof -
  have "filter (\<lambda>c. hd (blocks c) = hd (blocks (hd cs))) cs = cs"
    using assms by (auto simp: filter_id_conv)
  then show ?thesis using assms(1) by (cases cs) (simp_all add: finalized_set_def)
qed

section \<open>Growing and forking a chain\<close>

definition chain_base :: "nat \<Rightarrow> bytes \<Rightarrow> Chain \<Rightarrow> bool" where
  "chain_base n p c \<longleftrightarrow> chain_wf n p c \<or> c = Chain_new"

definition tip_or :: "bytes \<Rightarrow> Chain \<Rightarrow> bytes" where
  "tip_or p c = (if blocks c = [] then p else block_hash (last (blocks c)))"

lemma chain_base_parts:
  assumes "chain_base n p c"
  shows "map fst (blocks c) = map ht [n..<n + length (blocks c)]" "distinct (map block_hash (blocks c))"
    "chain_height_by_hash c = map_of (map (\<lambda>v. (block_hash v, fst v)) (blocks c))"
    "linked_from p (blocks c)"
    "\<exists>ws. map expect_work (blocks c) = map Some ws \<and> partial_cumulative_work c = sum_list ws"
  using assms by (auto simp: chain_base_def chain_wf_def Chain_new_def)

lemma linked_from_append:
  "linked_from p (vs @ [v]) \<longleftrightarrow>
     linked_from p vs \<and> prev_hash v = (if vs = [] then p else block_hash (last vs))"
  by (induction p vs rule: linked_from.induct) auto

lemma blocks_insert_last: "(\<And>w. w \<in> set vs \<Longrightarrow> fst w < fst v) \<Longrightarrow> blocks_insert v vs = vs @ [v]"
proof -
  assume less: "\<And>w. w \<in> set vs \<Longrightarrow> fst w < fst v"
  then have "takeWhile (\<lambda>w. fst w < fst v) vs = vs" "dropWhile (\<lambda>w. fst w \<le> fst v) vs = []"
    by (auto simp: takeWhile_eq_all_conv dropWhile_eq_Nil_conv less_imp_le)
  then show ?thesis by (simp add: blocks_insert_def)
qed

lemma map_of_snoc: "k \<notin> fst ` set xs \<Longrightarrow> map_of (xs @ [(k, v)]) = (map_of xs)(k \<mapsto> v)"
  by (auto simp: fun_eq_iff map_of_append map_add_def split: option.splits dest: map_of_SomeD
      intro: rev_image_eqI)

lemma height_index_snoc:
  assumes "block_hash v \<notin> block_hash ` set vs"
  shows "map_of (map (\<lambda>v. (block_hash v, fst v)) (vs @ [v])) =
    (map_of (map (\<lambda>v. (block_hash v, fst v)) vs))(block_hash v \<mapsto> fst v)"
  using map_of_snoc[of "block_hash v" "map (\<lambda>v. (block_hash v, fst v)) vs" "fst v"] assms
  by (simp add: image_image)

lemma Chain_push_wf:
  assumes base: "chain_base n p c" and height: "fst v = ht (n + length (blocks c))"
    and room: "n + length (blocks c) < 2 ^ 31" and fresh: "block_hash v \<notin> block_hash ` set (blocks c)"
    and link: "prev_hash v = tip_or p c"
    and work: "expect_work v = Some w" "partial_cumulative_work c + w < 2 ^ 128"
    and ok: "index_update c v = None"
  shows "\<exists>c'. Chain_push index_update c v = Some (Inr c') \<and> blocks c' = blocks c @ [v] \<and> chain_wf n p c'"
proof -
  note parts = chain_base_parts[OF base]
  have less: "u < v" if "u \<in> set (map fst (blocks c))" and "v = ht (n + length (blocks c))" for u v
  proof -
    have "u \<in> ht ` set [n..<n + length (blocks c)]" using that(1) unfolding parts(1) set_map .
    then obtain i where i: "i \<in> set [n..<n + length (blocks c)]" "u = ht i" by blast
    have "height_nat (ht i) = i" "height_nat (ht (n + length (blocks c))) = n + length (blocks c)"
      using i room by (intro height_nat_ht; simp)+
    then have "height_nat u < height_nat v" using i that(2) by simp
    then show ?thesis by (simp add: Height_less_iff)
  qed
  have "blocks_insert v (blocks c) = blocks c @ [v]"
    using less[OF _ height] by (intro blocks_insert_last) auto
  moreover have "chain_height_by_hash c (block_hash v) = None"
    using fresh unfolding parts(3) by (force simp: map_of_eq_None_iff image_iff)
  ultimately have push: "Chain_push index_update c v = Some (Inr (c\<lparr>
      chain_height_by_hash := (chain_height_by_hash c)(block_hash v \<mapsto> fst v),
      partial_cumulative_work := partial_cumulative_work c + w, blocks := blocks c @ [v]\<rparr>))"
    using work ok by (simp add: Chain_push_def update_chain_tip_with_def work_add_def)
  have "map_of (map (\<lambda>v. (block_hash v, fst v)) (blocks c @ [v])) =
      (chain_height_by_hash c)(block_hash v \<mapsto> fst v)"
    unfolding parts(3) by (rule height_index_snoc[OF fresh])
  moreover have "map fst (blocks c @ [v]) = map ht [n..<n + length (blocks c @ [v])]"
    using parts(1) height by simp
  moreover have "linked_from p (blocks c @ [v])"
    using parts(4) link unfolding linked_from_append tip_or_def by simp
  moreover obtain ws where "map expect_work (blocks c) = map Some ws" "partial_cumulative_work c = sum_list ws"
    using parts(5) by blast
  then have "map expect_work (blocks c @ [v]) = map Some (ws @ [w]) \<and>
      partial_cumulative_work c + w = sum_list (ws @ [w])"
    using work by simp
  then have "\<exists>ws. map expect_work (blocks c @ [v]) = map Some ws \<and> partial_cumulative_work c + w = sum_list ws"
    by blast
  moreover have "n + length (blocks c @ [v]) \<le> 2 ^ 31" using room by simp
  moreover have "distinct (map block_hash (blocks c @ [v]))" using parts(2) fresh by simp
  ultimately have "chain_wf n p (c\<lparr>chain_height_by_hash := (chain_height_by_hash c)(block_hash v \<mapsto> fst v),
      partial_cumulative_work := partial_cumulative_work c + w, blocks := blocks c @ [v]\<rparr>)"
    unfolding chain_wf_def Chain.simps by (intro conjI) (assumption | simp)+
  with push show ?thesis by simp
qed

lemma chain_wf_last_fork [simp]: "chain_wf n p (c\<lparr>last_fork_height := h\<rparr>) = chain_wf n p c"
  by (simp add: chain_wf_def)

lemma pop_tip_wf:
  assumes "chain_wf n p c" "1 < length (blocks c)"
  shows "\<exists>c'. pop_tip c = Some c' \<and> blocks c' = butlast (blocks c) \<and> chain_wf n p c'"
proof -
  have base: "chain_base n p c" using assms(1) by (simp add: chain_base_def)
  obtain vs v where b: "blocks c = vs @ [v]" "vs \<noteq> []"
    using assms(2) by (cases "blocks c" rule: rev_cases) auto
  have idx: "chain_height_by_hash c (block_hash v) = Some (fst v)"
    using chain_wf_contains(2)[OF assms(1), of v] b by simp
  obtain ws w where w: "map expect_work vs = map Some ws" "expect_work v = Some w"
      "partial_cumulative_work c = sum_list ws + w"
    using assms(1) unfolding chain_wf_def b(1) by (auto simp: append_eq_map_conv Cons_eq_map_conv)
  have fresh: "block_hash v \<notin> block_hash ` set vs" "distinct (map block_hash vs)"
    using assms(1) unfolding chain_wf_def b(1) by auto
  have "chain_height_by_hash c = (map_of (map (\<lambda>v. (block_hash v, fst v)) vs))(block_hash v \<mapsto> fst v)"
    unfolding chain_base_parts(3)[OF base] b(1) by (rule height_index_snoc[OF fresh(1)])
  moreover have "map_of (map (\<lambda>v. (block_hash v, fst v)) vs) (block_hash v) = None"
    using fresh(1) by (force simp: map_of_eq_None_iff image_iff)
  ultimately have "(chain_height_by_hash c)(block_hash v := None) = map_of (map (\<lambda>v. (block_hash v, fst v)) vs)"
    by (simp add: fun_upd_idem)
  moreover have "map fst vs = map ht [n..<n + length vs]" "n + length vs \<le> 2 ^ 31" "linked_from p vs"
    using assms(1) unfolding chain_wf_def b(1) by (auto simp: linked_from_append)
  ultimately show ?thesis
    using b idx w fresh by (simp add: pop_tip_def revert_chain_with_def work_sub_def chain_wf_def)
qed

lemma fork_loop_wf:
  "chain_wf n p c \<Longrightarrow> i < length (blocks c) \<Longrightarrow>
   \<exists>c'. fork_loop c (block_hash (blocks c ! i)) = Some c' \<and> blocks c' = take (Suc i) (blocks c) \<and> chain_wf n p c'"
proof (induction "length (blocks c)" arbitrary: c)
  case (Suc k)
  have ne: "blocks c \<noteq> []" and dist: "distinct (map block_hash (blocks c))"
    using Suc.prems by (auto simp: chain_wf_def)
  have tip: "non_finalized_tip_hash c = Some (block_hash (blocks c ! (length (blocks c) - 1)))"
    using ne by (simp add: non_finalized_tip_hash_def last_conv_nth)
  show ?case
  proof (cases "i = length (blocks c) - 1")
    case True
    with Suc.prems ne tip show ?thesis by (subst fork_loop.simps) auto
  next
    case False
    then have i: "i < length (blocks c) - 1" using Suc.prems(2) by simp
    then have "block_hash (blocks c ! (length (blocks c) - 1)) \<noteq> block_hash (blocks c ! i)"
      using dist Suc.prems(2) ne by (simp add: distinct_conv_nth)
    moreover obtain c' where c': "pop_tip c = Some c'" "blocks c' = butlast (blocks c)" "chain_wf n p c'"
      using pop_tip_wf[OF Suc.prems(1)] i by fastforce
    moreover have "\<exists>c''. fork_loop (c'\<lparr>last_fork_height := non_finalized_tip_height c'\<rparr>)
        (block_hash (blocks (c'\<lparr>last_fork_height := non_finalized_tip_height c'\<rparr>) ! i)) = Some c'' \<and>
        blocks c'' = take (Suc i) (blocks (c'\<lparr>last_fork_height := non_finalized_tip_height c'\<rparr>)) \<and> chain_wf n p c''"
      using c' i Suc.hyps(2) by (intro Suc.hyps(1)) auto
    ultimately show ?thesis
      using tip i by (subst fork_loop.simps) (auto simp: nth_butlast take_butlast)
  qed
qed simp


section \<open>Inserting a chain\<close>

lemma Chain_cmp_Less:
  "Chain_cmp c d = Some Less \<longleftrightarrow> partial_cumulative_work c < partial_cumulative_work d \<or>
     partial_cumulative_work c = partial_cumulative_work d \<and>
     (\<exists>x y. non_finalized_tip_hash c = Some x \<and> non_finalized_tip_hash d = Some y \<and> x < y)"
  by (auto simp: Chain_cmp_def split: bind_splits)

lemma Chain_cmp_Greater: "Chain_cmp c d = Some Greater \<longleftrightarrow> Chain_cmp d c = Some Less"
  by (auto simp: Chain_cmp_Less) (auto simp: Chain_cmp_def split: bind_splits if_splits)

lemma Chain_cmp_trans: "Chain_cmp c d = Some Less \<Longrightarrow> Chain_cmp d e = Some Less \<Longrightarrow> Chain_cmp c e = Some Less"
  unfolding Chain_cmp_Less by (elim disjE conjE exE) (auto dest: less_trans)

lemma Chain_cmp_tips:
  "non_finalized_tip_hash c = Some x \<Longrightarrow> non_finalized_tip_hash d = Some y \<Longrightarrow> x \<noteq> y \<Longrightarrow> Chain_cmp c d \<noteq> None"
  by (auto simp: Chain_cmp_def)

lemma set_insert_splits:
  assumes "sorted_wrt (\<lambda>c d. Chain_cmp d c = Some Less) cs" and "\<And>d. d \<in> set cs \<Longrightarrow> Chain_cmp m d \<noteq> None"
  shows "\<exists>xs ys. cs = xs @ ys \<and> set_insert m cs = Some (xs @ m # ys) \<and>
    sorted_wrt (\<lambda>c d. Chain_cmp d c = Some Less) (xs @ m # ys)"
  using assms
proof (induction cs)
  case (Cons d cs)
  show ?case
  proof (cases "Chain_cmp m d = Some Less")
    case True
    obtain xs ys where IH: "cs = xs @ ys" "set_insert m cs = Some (xs @ m # ys)"
      "sorted_wrt (\<lambda>c d. Chain_cmp d c = Some Less) (xs @ m # ys)"
      using Cons by auto
    have "sorted_wrt (\<lambda>c d. Chain_cmp d c = Some Less) ((d # xs) @ m # ys)"
      using IH Cons.prems(1) True by auto
    with IH True show ?thesis by (intro exI[of _ "d # xs"] exI[of _ ys]) simp
  next
    case False
    then have g: "Chain_cmp m d = Some Greater" using Cons.prems(2)[of d] by (cases "Chain_cmp m d") (auto intro: ordering.exhaust)
    then have "Chain_cmp e m = Some Less" if "e \<in> set (d # cs)" for e
      using that Cons.prems(1) Chain_cmp_trans[of e d m] by (auto simp: Chain_cmp_Greater)
    with g Cons.prems(1) show ?thesis by (intro exI[of _ "[]"] exI[of _ "d # cs"]) simp
  qed
qed simp

lemma retain_filter: "(\<And>c. c \<in> set cs \<Longrightarrow> keep c = Some (q c)) \<Longrightarrow> retain keep cs = Some (filter q cs)"
  by (induction cs) auto

definition compatible :: "Chain \<Rightarrow> Chain \<Rightarrow> bool" where
  "compatible c d \<longleftrightarrow>
     (\<forall>v\<in>set (blocks c). \<forall>w\<in>set (blocks d). block_hash v = block_hash w \<longrightarrow> v = w) \<and>
     last (blocks c) \<notin> set (blocks d) \<and> last (blocks d) \<notin> set (blocks c)"

definition best_of :: "Chain list \<Rightarrow> Chain set \<Rightarrow> bool" where
  "best_of cs A \<longleftrightarrow> (\<exists>c rest. cs = c # rest \<and> c \<in> A \<and> (\<forall>d\<in>A. d = c \<or> Chain_cmp d c = Some Less))"

lemma distinct_hashes_eq:
  "distinct (map f vs) \<Longrightarrow> v \<in> set vs \<Longrightarrow> w \<in> set vs \<Longrightarrow> f v = f w \<Longrightarrow> v = w"
  by (auto simp: distinct_map inj_on_def)



lemma insert_with_wf:
  assumes wf: "set_wf n p (chain_set s)" and m: "chain_wf n p m" "q m"
    and cmp: "\<And>d. d \<in> set (chain_set s) \<Longrightarrow> Chain_cmp m d \<noteq> None"
    and ok: "\<And>d. d \<in> set (chain_set s) \<Longrightarrow> q d \<Longrightarrow> compatible m d"
    and keep: "\<And>d. d \<in> insert m (set (chain_set s)) \<Longrightarrow> keep d = Some (q d)"
  shows "\<exists>cs. insert_with m keep s = Some (s\<lparr>chain_set := cs\<rparr>) \<and> set_wf n p cs \<and>
    set cs \<subseteq> insert m (set (chain_set s)) \<and> best_of cs (insert m {d \<in> set (chain_set s). q d}) \<and>
    (m \<in> set cs \<or> length cs = MAX_NON_FINALIZED_CHAIN_FORKS)"
proof -
  have sorted: "sorted_wrt (\<lambda>c d. Chain_cmp d c = Some Less) (chain_set s)"
    and alone: "sorted_wrt (\<lambda>c d. last (blocks c) \<notin> set (blocks d) \<and> last (blocks d) \<notin> set (blocks c)) (chain_set s)"
    using wf unfolding set_wf_def by blast+
  obtain xs ys where split: "chain_set s = xs @ ys" and ins: "set_insert m (chain_set s) = Some (xs @ m # ys)"
    and sorted': "sorted_wrt (\<lambda>c d. Chain_cmp d c = Some Less) (xs @ m # ys)"
    using set_insert_splits[OF sorted cmp] by blast
  let ?cs = "filter q xs @ m # filter q ys"
  let ?t = "take MAX_NON_FINALIZED_CHAIN_FORKS ?cs"
  have members: "set ?cs = insert m {d \<in> set (chain_set s). q d}" unfolding split by auto
  have "retain keep (xs @ m # ys) = Some (filter q (xs @ m # ys))"
    using keep unfolding split by (intro retain_filter) auto
  then have run: "insert_with m keep s = Some (s\<lparr>chain_set := ?t\<rparr>)"
    using ins m(2) by (simp add: insert_with_def)
  have sorted_cs: "sorted_wrt (\<lambda>c d. Chain_cmp d c = Some Less) ?cs"
    using sorted_wrt_filter[OF sorted', of q] m(2) by simp
  have with_m: "compatible m d" if "d \<in> set (filter q xs @ filter q ys)" for d
    using that ok unfolding split by auto
  have alone_cs: "sorted_wrt (\<lambda>c d. last (blocks c) \<notin> set (blocks d) \<and> last (blocks d) \<notin> set (blocks c)) ?cs"
    using sorted_wrt_filter[OF alone, of q] with_m unfolding split
    by (auto simp: sorted_wrt_append compatible_def)
  have m_same: "v = w" if "v \<in> set (blocks m)" "w \<in> set (blocks m)" "block_hash v = block_hash w" for v w
    using m(1) that distinct_hashes_eq[of block_hash "blocks m" v w] by (simp add: chain_wf_def)
  have same: "v = w" if "c \<in> set ?cs" "d \<in> set ?cs" "v \<in> set (blocks c)" "w \<in> set (blocks d)"
      "block_hash v = block_hash w" for c d v w
  proof -
    have "c = m \<or> c \<in> set (chain_set s) \<and> q c" "d = m \<or> d \<in> set (chain_set s) \<and> q d"
      using that(1,2) unfolding members by auto
    then show ?thesis
      using m_same[of v w] set_wf_same[OF wf, of c d v w] ok[of c] ok[of d] that(3-) unfolding compatible_def
      by metis
  qed
  have all_wf: "chain_wf n p c" if "c \<in> set ?cs" for c
    using that m(1) set_wf_memberD(1)[OF wf, of c] unfolding members by auto
  have "set_wf n p ?t"
    unfolding set_wf_def
  proof (intro conjI ballI impI)
    show "sorted_wrt (\<lambda>c d. Chain_cmp d c = Some Less) ?t" by (rule sorted_wrt_take[OF sorted_cs])
    show "sorted_wrt (\<lambda>c d. last (blocks c) \<notin> set (blocks d) \<and> last (blocks d) \<notin> set (blocks c)) ?t"
      by (rule sorted_wrt_take[OF alone_cs])
    show "chain_wf n p c" if "c \<in> set ?t" for c using all_wf[OF in_set_takeD[OF that]] .
    show "v = w" if "c \<in> set ?t" "d \<in> set ?t" "v \<in> set (blocks c)" "w \<in> set (blocks d)"
      "block_hash v = block_hash w" for c d v w
      by (rule same[OF in_set_takeD[OF that(1)] in_set_takeD[OF that(2)] that(3-)])
  qed simp
  moreover have "best_of ?t (set ?cs)"
    using sorted_cs by (cases ?cs) (auto simp: best_of_def MAX_NON_FINALIZED_CHAIN_FORKS_def)
  moreover have "m \<in> set ?t \<or> length ?t = MAX_NON_FINALIZED_CHAIN_FORKS"
    by (cases "length ?cs \<le> MAX_NON_FINALIZED_CHAIN_FORKS") auto
  moreover have "set ?t \<subseteq> insert m (set (chain_set s))" using members in_set_takeD[of _ _ ?cs] by blast
  ultimately show ?thesis using run unfolding members by blast
qed


section \<open>Committing a block\<close>

lemma chain_wf_index:
  "chain_wf n p c \<Longrightarrow> i < length (blocks c) \<Longrightarrow> j < length (blocks c) \<Longrightarrow>
   block_hash (blocks c ! i) = block_hash (blocks c ! j) \<Longrightarrow> i = j"
  by (auto simp: chain_wf_def distinct_conv_nth)

lemma find_tip_wf:
  "(\<And>c. c \<in> set cs \<Longrightarrow> blocks c \<noteq> []) \<Longrightarrow>
   find_tip cs x = Some (find (\<lambda>c. block_hash (last (blocks c)) = x) cs)"
  by (induction cs) (auto simp: non_finalized_tip_hash_def)

lemma first_fork_wf:
  assumes "\<And>c. c \<in> set cs \<Longrightarrow> chain_wf n p c" and "\<exists>c\<in>set cs. contains_block_hash c x"
  shows "\<exists>d\<in>set cs. contains_block_hash d x \<and> first_fork cs x = map_option Some (fork_loop d x)"
  using assms
proof (induction cs)
  case (Cons c cs)
  have wf: "chain_wf n p c" using Cons.prems(1) by simp
  show ?case
  proof (cases "contains_block_hash c x")
    case True
    then obtain i where "i < length (blocks c)" "block_hash (blocks c ! i) = x"
      using chain_wf_contains(1)[OF wf] by (auto simp: in_set_conv_nth)
    with fork_loop_wf[OF wf, of i] True show ?thesis
      by (auto simp: Chain_fork_def contains_block_hash_def)
  next
    case False
    then show ?thesis using Cons by (auto simp: Chain_fork_def contains_block_hash_def)
  qed
qed simp

lemma parent_chain_wf:
  assumes wf: "set_wf n p (chain_set s)" and c: "c \<in> set (chain_set s)" and i: "i < length (blocks c)"
  shows "\<exists>m. parent_chain (block_hash (blocks c ! i)) s = Some (Inr m) \<and> chain_wf n p m \<and>
    blocks m = take (Suc i) (blocks c)"
proof -
  let ?x = "block_hash (blocks c ! i)"
  have has: "contains_block_hash c ?x"
    using chain_wf_contains(1)[OF set_wf_memberD(1)[OF wf c]] i by auto
  note tip = find_tip_wf[of "chain_set s" ?x, OF set_wf_memberD(2)[OF wf]]
  show ?thesis
  proof (cases "find (\<lambda>c. block_hash (last (blocks c)) = ?x) (chain_set s)")
    case None
    obtain d where d: "d \<in> set (chain_set s)" "contains_block_hash d ?x"
      "first_fork (chain_set s) ?x = map_option Some (fork_loop d ?x)"
      using first_fork_wf[OF set_wf_memberD(1)[OF wf], of "chain_set s" ?x] c has by blast
    have sh: "i < length (blocks d)" "take (Suc i) (blocks d) = take (Suc i) (blocks c)"
      using shared_prefix[OF wf c d(1) i d(2)] by auto
    then have "blocks d ! i = blocks c ! i" by (metis lessI nth_take)
    with fork_loop_wf[OF set_wf_memberD(1)[OF wf d(1)] sh(1)] sh(2) show ?thesis
      using tip None d(3) by (auto simp: parent_chain_def)
  next
    case (Some d)
    then have d: "d \<in> set (chain_set s)" "block_hash (last (blocks d)) = ?x"
      by (auto simp: find_Some_iff)
    note wfd = set_wf_memberD[OF wf d(1)]
    have "contains_block_hash d ?x" using chain_wf_contains(1)[OF wfd(1)] d(2) wfd(2) last_in_set by blast
    then have sh: "i < length (blocks d)" "take (Suc i) (blocks d) = take (Suc i) (blocks c)"
      using shared_prefix[OF wf c d(1) i] by auto
    have "block_hash (blocks d ! i) = block_hash (blocks d ! (length (blocks d) - 1))"
      using sh(2) d(2) wfd(2) by (metis last_conv_nth lessI nth_take)
    then have "i = length (blocks d) - 1"
      using wfd(2) sh(1) chain_wf_index[OF wfd(1), of i "length (blocks d) - 1"] by simp
    then have "blocks d = take (Suc i) (blocks c)" using sh wfd(2) by simp
    with Some tip wfd(1) show ?thesis by (auto simp: parent_chain_def)
  qed
qed

lemma sorted_wrt_member:
  "sorted_wrt R xs \<Longrightarrow> x \<in> set xs \<Longrightarrow> y \<in> set xs \<Longrightarrow> x \<noteq> y \<Longrightarrow> R x y \<or> R y x"
  by (induction xs) auto

lemma set_wf_alone:
  assumes "set_wf n p cs" "c \<in> set cs" "d \<in> set cs" "c \<noteq> d"
  shows "last (blocks c) \<notin> set (blocks d)"
proof -
  have "sorted_wrt (\<lambda>c d. last (blocks c) \<notin> set (blocks d) \<and> last (blocks d) \<notin> set (blocks c)) cs"
    using assms(1) unfolding set_wf_def by blast
  from sorted_wrt_member[OF this assms(2-)] show ?thesis by blast
qed

text \<open>A chain that ends with a new block on top of a chain of the set fits the chains with another tip.\<close>

lemma compatible_commit:
  assumes wf: "set_wf n p (chain_set s)" and c: "c \<in> set (chain_set s)" and i: "i < length (blocks c)"
    and m: "blocks m = take (Suc i) (blocks c) @ [v]"
    and fresh: "\<And>d. d \<in> set (chain_set s) \<Longrightarrow> block_hash v \<notin> block_hash ` set (blocks d)"
    and d: "d \<in> set (chain_set s)" "block_hash (last (blocks d)) \<noteq> block_hash (blocks c ! i)"
  shows "compatible m d"
proof -
  note wfd = set_wf_memberD[OF wf d(1)] and wfc = set_wf_memberD[OF wf c]
  have "v' = w" if "v' \<in> set (blocks m)" "w \<in> set (blocks d)" "block_hash v' = block_hash w" for v' w
    using that fresh[OF d(1)] set_wf_same[OF wf c d(1), of v' w] in_set_takeD unfolding m by fastforce
  moreover have "v \<notin> set (blocks d)" using fresh[OF d(1)] by auto
  moreover have "last (blocks d) \<notin> set (take (Suc i) (blocks c))"
  proof
    assume "last (blocks d) \<in> set (take (Suc i) (blocks c))"
    then obtain j where j: "j < Suc i" "last (blocks d) = blocks c ! j" using i by (auto simp: in_set_conv_nth)
    then have "j < i" using d(2) by (cases "j = i") auto
    have "d \<noteq> c"
    proof
      assume "d = c"
      then have "block_hash (blocks c ! j) = block_hash (blocks c ! (length (blocks c) - 1))"
        using j(2) last_conv_nth[OF wfc(2)] by metis
      then have "j = length (blocks c) - 1"
        by (rule chain_wf_index[OF wfc(1), rotated 2]) (use \<open>j < i\<close> i in linarith)+
      then show False using \<open>j < i\<close> i by linarith
    qed
    from set_wf_alone[OF wf d(1) c this] show False using j i by simp
  qed
  moreover have "v \<noteq> last (blocks d)" using fresh[OF d(1)] wfd(2) by force
  ultimately show ?thesis unfolding compatible_def using m by auto
qed


lemma fresh_tip: "x \<notin> block_hash ` set vs \<Longrightarrow> vs \<noteq> [] \<Longrightarrow> block_hash (last vs) \<noteq> x"
  by (metis imageI last_in_set)

lemma prefix_work:
  assumes "chain_wf n p c" "chain_wf n p m" "blocks m = take k (blocks c)"
  shows "partial_cumulative_work m \<le> partial_cumulative_work c"
proof -
  obtain ws us where ws: "map expect_work (blocks c) = map Some ws" "partial_cumulative_work c = sum_list ws"
    and us: "map expect_work (blocks m) = map Some us" "partial_cumulative_work m = sum_list us"
    using assms unfolding chain_wf_def by blast
  have "map Some us = map Some (take k ws)" using ws(1) us(1) assms(3) by (metis take_map)
  then have "us = take k ws" by (rule map_injective) simp
  moreover have "sum_list ws = sum_list (take k ws) + sum_list (drop k ws)"
    by (metis append_take_drop_id sum_list_append)
  ultimately show ?thesis using ws(2) us(2) by simp
qed

lemma validate_and_commit_cases:
  assumes base: "chain_base n p c" and height: "fst v = ht (n + length (blocks c))"
    and room: "n + length (blocks c) < 2 ^ 31" and fresh: "block_hash v \<notin> block_hash ` set (blocks c)"
    and link: "prev_hash v = tip_or p c"
    and work: "expect_work v = Some w" "partial_cumulative_work c + w < 2 ^ 128"
  shows "(\<exists>e. validate_and_commit context_check index_update c v s = Some (Inl e)) \<or>
    (\<exists>m. validate_and_commit context_check index_update c v s = Some (Inr m) \<and>
      blocks m = blocks c @ [v] \<and> chain_wf n p m)"
proof (cases "index_update c v")
  case None
  from Chain_push_wf[where index_update = index_update, OF base height room fresh link work None] show ?thesis
    by (auto simp: validate_and_commit_def split: option.splits)
next
  case (Some e)
  have "chain_height_by_hash c (block_hash v) = None"
    using fresh unfolding chain_base_parts(3)[OF base] by (force simp: map_of_eq_None_iff image_iff)
  with Some work have "Chain_push index_update c v = Some (Inl e)"
    by (simp add: Chain_push_def update_chain_tip_with_def work_add_def)
  then show ?thesis by (auto simp: validate_and_commit_def split: option.splits)
qed

lemma commit_block_wf:
  assumes wf: "set_wf n p (chain_set s)" and c: "c \<in> set (chain_set s)" and i: "i < length (blocks c)"
    and parent: "prev_hash v = block_hash (blocks c ! i)"
    and height: "fst v = ht (n + Suc i)" and room: "n + Suc i < 2 ^ 31"
    and fresh: "\<And>d. d \<in> set (chain_set s) \<Longrightarrow> block_hash v \<notin> block_hash ` set (blocks d)"
    and work: "expect_work v = Some w" "partial_cumulative_work c + w < 2 ^ 128"
  shows "(\<exists>e. commit_block context_check index_update v s = Some (Inl e)) \<or>
    (\<exists>cs m. commit_block context_check index_update v s = Some (Inr (s\<lparr>chain_set := cs\<rparr>)) \<and>
      set_wf n p cs \<and> blocks m = take (Suc i) (blocks c) @ [v] \<and> set cs \<subseteq> insert m (set (chain_set s)) \<and>
      best_of cs (insert m {d \<in> set (chain_set s). block_hash (last (blocks d)) \<noteq> prev_hash v}) \<and>
      (m \<in> set cs \<or> length cs = MAX_NON_FINALIZED_CHAIN_FORKS))"
proof -
  obtain q where q: "parent_chain (prev_hash v) s = Some (Inr q)" "chain_wf n p q" "blocks q = take (Suc i) (blocks c)"
    using parent_chain_wf[OF wf c i] unfolding parent by blast
  have len: "length (blocks q) = Suc i" using q(3) i by simp
  then have ne: "blocks q \<noteq> []" by auto
  have link: "prev_hash v = tip_or p q" using q(3) i ne parent by (simp add: take_Suc_conv_app_nth tip_or_def)
  have new: "block_hash v \<notin> block_hash ` set (blocks q)"
    using fresh[OF c] q(3) by (auto dest: in_set_takeD)
  have total_work: "partial_cumulative_work q + w < 2 ^ 128"
    using prefix_work[OF set_wf_memberD(1)[OF wf c] q(2,3)] work(2) by linarith
  have base: "chain_base n p q" using q(2) by (simp add: chain_base_def)
  consider e where "validate_and_commit context_check index_update q v s = Some (Inl e)"
    | m where "validate_and_commit context_check index_update q v s = Some (Inr m)" "blocks m = blocks q @ [v]"
      "chain_wf n p m"
    using validate_and_commit_cases[OF base _ _ new link work(1) total_work, unfolded len, OF height room] by blast
  then show ?thesis
  proof cases
    case 1
    then show ?thesis using q(1) by (auto simp: commit_block_def)
  next
    case (2 m)
    have tips: "non_finalized_tip_hash d = Some (block_hash (last (blocks d)))"
      if "d \<in> insert m (set (chain_set s))" for d
      using that set_wf_memberD(2)[OF wf] 2(2) by (auto simp: non_finalized_tip_hash_def)
    have "block_hash v \<noteq> prev_hash v" using fresh[OF c] i unfolding parent by auto
    moreover have "Chain_cmp m d \<noteq> None" if "d \<in> set (chain_set s)" for d
      using Chain_cmp_tips[OF tips tips, of m d] fresh_tip[OF fresh[OF that] set_wf_memberD(2)[OF wf that]] that 2(2)
      by simp
    moreover have "compatible m d" if "d \<in> set (chain_set s)" "block_hash (last (blocks d)) \<noteq> prev_hash v" for d
      using compatible_commit[OF wf c i _ fresh that(1)] that(2) 2(2) q(3) parent by simp
    ultimately have "\<exists>cs. insert_with m
        (\<lambda>c. map_option (\<lambda>t. t \<noteq> prev_hash v) (non_finalized_tip_hash c)) s = Some (s\<lparr>chain_set := cs\<rparr>) \<and>
        set_wf n p cs \<and> set cs \<subseteq> insert m (set (chain_set s)) \<and>
        best_of cs (insert m {d \<in> set (chain_set s). block_hash (last (blocks d)) \<noteq> prev_hash v}) \<and>
        (m \<in> set cs \<or> length cs = MAX_NON_FINALIZED_CHAIN_FORKS)"
      using 2(2,3) tips
      by (intro insert_with_wf[OF wf, where q = "\<lambda>d. block_hash (last (blocks d)) \<noteq> prev_hash v"]) simp_all
    with q(1,3) 2(1,2) show ?thesis by (force simp: commit_block_def run_try_def)
  qed
qed

lemma commit_new_chain_wf:
  assumes wf: "set_wf n p (chain_set s)" and tip_known: "db_tip d \<noteq> None"
    and parent: "prev_hash v = p" and height: "fst v = ht n" and room: "n < 2 ^ 31"
    and fresh: "\<And>d. d \<in> set (chain_set s) \<Longrightarrow> block_hash v \<notin> block_hash ` set (blocks d)"
    and work: "expect_work v = Some w" "w < 2 ^ 128"
  shows "(\<exists>e. commit_new_chain context_check index_update d v s = Some (Inl e)) \<or>
    (\<exists>cs m. commit_new_chain context_check index_update d v s = Some (Inr (s\<lparr>chain_set := cs\<rparr>)) \<and>
      set_wf n p cs \<and> blocks m = [v] \<and> set cs \<subseteq> insert m (set (chain_set s)) \<and>
      best_of cs (insert m (set (chain_set s))) \<and> (m \<in> set cs \<or> length cs = MAX_NON_FINALIZED_CHAIN_FORKS))"
proof -
  consider e where "validate_and_commit context_check index_update Chain_new v s = Some (Inl e)"
    | m where "validate_and_commit context_check index_update Chain_new v s = Some (Inr m)" "blocks m = [v]"
      "chain_wf n p m"
    using validate_and_commit_cases[of n p Chain_new v w context_check index_update s] height room work parent
    by (auto simp: chain_base_def tip_or_def Chain_new_def)
  then show ?thesis
  proof cases
    case 1
    then show ?thesis using tip_known by (simp add: commit_new_chain_def)
  next
    case (2 m)
    have old: "v \<notin> set (blocks d) \<and> block_hash (last (blocks d)) \<noteq> block_hash v \<and>
        non_finalized_tip_hash d = Some (block_hash (last (blocks d)))" if "d \<in> set (chain_set s)" for d
      using fresh[OF that] fresh_tip[OF fresh[OF that]] set_wf_memberD(2)[OF wf that]
      by (auto simp: non_finalized_tip_hash_def)
    have "\<exists>cs. insert_with m (\<lambda>_. Some True) s = Some (s\<lparr>chain_set := cs\<rparr>) \<and> set_wf n p cs \<and>
        set cs \<subseteq> insert m (set (chain_set s)) \<and> best_of cs (insert m {d \<in> set (chain_set s). True}) \<and>
        (m \<in> set cs \<or> length cs = MAX_NON_FINALIZED_CHAIN_FORKS)"
    proof (rule insert_with_wf[OF wf 2(3), where q = "\<lambda>_. True"])
      fix d assume d: "d \<in> set (chain_set s)"
      show "Chain_cmp m d \<noteq> None"
        using Chain_cmp_tips[of m "block_hash v" d "block_hash (last (blocks d))"] old[OF d] 2(2)
        by (auto simp: non_finalized_tip_hash_def)
      show "compatible m d" using old[OF d] fresh[OF d] 2(2) unfolding compatible_def by (auto simp: image_iff)
    qed simp_all
    with 2(1,2) tip_known show ?thesis by (simp add: commit_new_chain_def nfs_insert_def) blast
  qed
qed

section \<open>Invalidated blocks\<close>

lemma Chain_cmp_self: "blocks c \<noteq> [] \<Longrightarrow> Chain_cmp c c = None"
  by (simp add: Chain_cmp_def non_finalized_tip_hash_def)

lemma set_remove_member:
  "sorted_wrt (\<lambda>c d. Chain_cmp d c = Some Less) cs \<Longrightarrow> c \<in> set cs \<Longrightarrow> blocks c \<noteq> [] \<Longrightarrow> set_remove c cs = None"
  by (induction cs) (auto simp: Chain_cmp_self)

definition sample_block :: "nat \<Rightarrow> byte \<Rightarrow> byte \<Rightarrow> verified_block" where
  "sample_block n q x = (ht n, replicate 32 x,
     \<lparr>block_header_field = (sample_header 5 FatPointer_null)\<lparr>previous_block_hash := replicate 32 q\<rparr>,
      transactions = []\<rparr>)"

definition sample_fork :: "verified_block list \<Rightarrow> Chain" where
  "sample_fork vs = \<lparr>blocks = vs, chain_height_by_hash = map_of (map (\<lambda>v. (block_hash v, fst v)) vs),
     partial_cumulative_work = 32 * length vs, last_fork_height = None\<rparr>"

definition sample_set :: "Chain list" where
  "sample_set = [sample_fork [sample_block 3 2 10, sample_block 4 10 12],
     sample_fork [sample_block 3 2 10, sample_block 4 10 11]]"

lemma sample_block_simps [simp]:
  "fst (sample_block n q x) = ht n" "block_hash (sample_block n q x) = replicate 32 x"
  "prev_hash (sample_block n q x) = replicate 32 q" "expect_work (sample_block n q x) = Some 32"
  by (simp_all add: sample_block_def expect_work_def sample_header_def to_work_def to_expanded_eq
      compact_value_def compact_negative_def Work_try_from_def u256_def)

lemma sample_block_eq [simp]: "sample_block n q x = sample_block k r y \<longleftrightarrow> ht n = ht k \<and> q = r \<and> x = y"
  by (auto simp: sample_block_def sample_header_def)

lemma blocks_sample_fork: "blocks (sample_fork vs) = vs"
  by (simp add: sample_fork_def)

lemma sample_fork_wf:
  assumes "vs \<noteq> []" "map fst vs = map ht [n..<n + length vs]" "n + length vs \<le> 2 ^ 31"
    "distinct (map block_hash vs)" "linked_from p vs" "map expect_work vs = replicate (length vs) (Some 32)"
  shows "chain_wf n p (sample_fork vs)"
proof -
  have "map expect_work vs = map Some (replicate (length vs) 32) \<and> 32 * length vs = sum_list (replicate (length vs) (32 :: nat))"
    using assms(6) by (simp add: sum_list_replicate)
  then have "\<exists>ws. map expect_work vs = map Some ws \<and> 32 * length vs = sum_list ws" by blast
  then show ?thesis using assms(1-5) unfolding chain_wf_def sample_fork_def Chain.simps by (intro conjI) simp_all
qed

lemma replicate_less: "0 < k \<Longrightarrow> replicate k a < replicate k b \<longleftrightarrow> a < (b :: byte)"
  by (cases k) auto

lemma sample_set_wf: "set_wf 3 (replicate 32 2) sample_set"
proof -
  have cmp: "Chain_cmp (sample_fork [sample_block 3 2 10, sample_block 4 10 11])
      (sample_fork [sample_block 3 2 10, sample_block 4 10 12]) = Some Less"
    by (simp add: Chain_cmp_def sample_fork_def non_finalized_tip_hash_def replicate_less)
  have wf: "chain_wf 3 (replicate 32 2) c" if "c \<in> set sample_set" for c
    using that unfolding sample_set_def by (auto intro!: sample_fork_wf simp: upt_rec)
  have "\<forall>c\<in>set sample_set. chain_wf 3 (replicate 32 2) c" using wf by blast
  then show ?thesis
    unfolding set_wf_def by (simp add: sample_set_def cmp MAX_NON_FINALIZED_CHAIN_FORKS_def blocks_sample_fork)
qed


text \<open>The chain whose lowest block is invalidated is removed from the ordered set by comparing it with
  itself, which the order of chains treats as unreachable.\<close>

lemma invalidate_root_panics:
  assumes wf: "set_wf n p (chain_set s)" and c: "c \<in> set (chain_set s)"
    and root: "non_finalized_root_hash c = Some x"
  shows "nfs_invalidate_block x s = None"
proof -
  note wfc = set_wf_memberD[OF wf c]
  have x: "x = block_hash (blocks c ! 0)" using root wfc(2,4) by (simp add: hd_conv_nth)
  then have has: "contains_block_hash c x" using chain_wf_contains(1)[OF wfc(1)] wfc(2) by auto
  then obtain d where find: "find_chain (\<lambda>c. contains_block_hash c x) s = Some d"
    using c by (cases "find_chain (\<lambda>c. contains_block_hash c x) s") (auto simp: find_chain_def find_None_iff)
  then have d: "d \<in> set (chain_set s)" "contains_block_hash d x"
    by (auto simp: find_chain_def find_Some_iff)
  have "take 1 (blocks d) = take 1 (blocks c)"
    using shared_prefix[OF wf c d(1), of 0] d(2) wfc(2) x by simp
  then have "non_finalized_root_hash d = Some x"
    using set_wf_memberD(2,4)[OF wf d(1)] wfc(2) x by (cases "blocks c"; cases "blocks d") auto
  moreover have "set_remove d (chain_set s) = None"
    using set_remove_member[of "chain_set s" d] wf d(1) set_wf_memberD(2)[OF wf d(1)] by (simp add: set_wf_def)
  ultimately show ?thesis using find by (simp add: nfs_invalidate_block_def)
qed

lemma nfs_reconsider_block_invalidated:
  "nfs_reconsider_block index_update d x s = Some (Inr (hs, s')) \<Longrightarrow> db_tip d = Some (t, y) \<Longrightarrow>
   invalidated_blocks s' = filter (\<lambda>(h, _). t \<le> h) (invalidated_blocks s)"
  by (auto simp: nfs_reconsider_block_def insert_with_def run_try_def Let_def
      split: option.splits sum.splits list.splits bind_splits if_splits)

text \<open>C27: Reconsidering an invalidated block leaves its height among the invalidated ones, so every later
  block at that height is refused, on any chain.\<close>

theorem reconsidered_height_stays_refused:
  assumes "nfs_reconsider_block index_update d x s = Some (Inr (hs, s'))" and "db_tip d = Some (t, y)"
    and "(h, vs) \<in> set (invalidated_blocks s)" and "t \<le> h" and "fst w = h"
  shows "validate_and_commit context_check index_update' c w s' = Some (Inl (BlockPreviouslyInvalidated (block_hash w)))"
proof -
  have "(h, vs) \<in> set (invalidated_blocks s')"
    using nfs_reconsider_block_invalidated[OF assms(1,2)] assms(3,4) by simp
  then have "fst w \<in> fst ` set (invalidated_blocks s')" using assms(5) by force
  then show ?thesis by (simp add: validate_and_commit_def)
qed


theorem reconsidered_height_stays_refused_witness:
  "\<exists>hs s'. nfs_reconsider_block (\<lambda>_ _. None) (db (state_of sample_chain 3)) (replicate 32 13)
       \<lparr>chain_set = sample_set, invalidated_blocks = [(ht 5, [sample_block 5 12 13])]\<rparr> = Some (Inr (hs, s')) \<and>
     validate_and_commit (\<lambda>_ _. None) (\<lambda>_ _. None) Chain_new (sample_block 5 11 14) s' =
       Some (Inl (BlockPreviouslyInvalidated (replicate 32 14)))"
proof -
  let ?d = "db (state_of sample_chain 3)"
  let ?s = "\<lparr>chain_set = sample_set, invalidated_blocks = [(ht 5, [sample_block 5 12 13])]\<rparr>"
  have tip: "db_tip ?d = Some (ht 2, replicate 32 2)"
    by (simp add: db_tip_def state_of_def sample_chain_def upt_rec)
  have "\<exists>hs s'. nfs_reconsider_block (\<lambda>_ _. None) ?d (replicate 32 13) ?s = Some (Inr (hs, s'))"
    by (simp add: nfs_reconsider_block_def tip finalized_tip_hash_def parent_chain_def sample_set_def
        non_finalized_tip_hash_def blocks_sample_fork Chain_push_def update_chain_tip_with_def
        sample_fork_def blocks_insert_def work_add_def insert_with_def Chain_cmp_def Let_def)
  then obtain hs s' where r: "nfs_reconsider_block (\<lambda>_ _. None) ?d (replicate 32 13) ?s = Some (Inr (hs, s'))"
    by blast
  moreover have "ht 2 \<le> ht 5" by (simp add: less_eq_Height_def)
  ultimately show ?thesis
    using reconsidered_height_stays_refused[OF r tip, of "ht 5" "[sample_block 5 12 13]" "sample_block 5 11 14"
        "\<lambda>_ _. None" "\<lambda>_ _. None" Chain_new]
    by simp
qed

end
