(* ===== verification/Write_Task.thy ===== *)
theory Write_Task
  imports Chain_Set "HOL-Library.Sublist"
begin

text \<open>
  The task that owns both parts of the state (\<^verbatim>\<open>zebra-state/src/service/write.rs\<close>), with the finalized state's
  commit (\<^verbatim>\<open>finalized_state.rs\<close>), the writes of one block to the database
  (\<^verbatim>\<open>zebra_db/block.rs\<close>), the ancestor iterator (\<^verbatim>\<open>block_iter.rs\<close>) and the contextual checks that
  order blocks by height (\<^verbatim>\<open>check.rs\<close>). Each message is one transition of the task's state. What the
  transaction-level checks, the difficulty adjustment and the storage layer decide is collected in a
  record of parameters.
\<close>

section \<open>Parameters\<close>

record Checks =
  coinbase_height :: "pow_block \<Rightarrow> Height option"
  difficulty_threshold_and_time :: "verified_block \<Rightarrow> pow_block list \<Rightarrow> ValidateContextError option"
  nullifier_check :: "ZebraDb \<Rightarrow> verified_block \<Rightarrow> ValidateContextError option"
  context_check :: block_check
  index_update :: block_check
  checkpoint_check :: "ZebraDb \<Rightarrow> verified_block \<Rightarrow> string option"
  batch_error :: "ZebraDb \<Rightarrow> verified_block \<Rightarrow> string option"
  debug_stop_at_height :: "Height option"

section \<open>The finalized state\<close>

text \<open>The blocks, transactions and hashes of one block are written in one batch.\<close>

definition prepare_block_header_and_transaction_data_batch :: "ZebraDb \<Rightarrow> verified_block \<Rightarrow> ZebraDb" where
  "prepare_block_header_and_transaction_data_batch d v =
     (let h = fst v; b = snd (snd v) in
      d\<lparr>block_header_by_height_cf := (block_header_by_height_cf d)(h \<mapsto> block_header_field b),
        hash_by_height_cf := blocks_insert (h, block_hash v) (hash_by_height_cf d),
        height_by_hash_cf := (height_by_hash_cf d)(block_hash v \<mapsto> h),
        transactions_by_height_cf := (transactions_by_height_cf d)
          (h := transactions b @ drop (length (transactions b)) (transactions_by_height_cf d h))\<rparr>)"

definition write_block :: "Checks \<Rightarrow> ZebraDb \<Rightarrow> verified_block \<Rightarrow> string + bytes \<times> ZebraDb" where
  "write_block k d v = (case batch_error k d v of
      Some e \<Rightarrow> Inl e
    | None \<Rightarrow> Inr (block_hash v, prepare_block_header_and_transaction_data_batch d v))"

definition is_at_stop_height :: "Checks \<Rightarrow> Height \<Rightarrow> bool" where
  "is_at_stop_height k h = (case debug_stop_at_height k of None \<Rightarrow> False | Some stop \<Rightarrow> \<not> h < stop)"

datatype FinalizableBlock = Checkpoint verified_block | Contextual verified_block

text \<open>The assertions on the order of commits are the \<open>None\<close> branches, as is the exit at the stop height.\<close>

definition commit_in_order :: "ZebraDb \<Rightarrow> verified_block \<Rightarrow> bool" where
  "commit_in_order d v = (case db_tip d of
      None \<Rightarrow> finalized_tip_hash d = prev_hash v \<and> fst v = Height 0
    | Some (t, _) \<Rightarrow> height_add t 1 = Some (fst v) \<and> finalized_tip_hash d = prev_hash v)"

definition commit_finalized_direct ::
  "Checks \<Rightarrow> ZebraDb \<Rightarrow> FinalizableBlock \<Rightarrow> (string + bytes \<times> ZebraDb) option" where
  "commit_finalized_direct k d b =
     (case (case b of
          Checkpoint v \<Rightarrow> (case checkpoint_check k d v of Some e \<Rightarrow> Inl e | None \<Rightarrow> Inr v)
        | Contextual v \<Rightarrow> Inr v) of
        Inl e \<Rightarrow> Some (Inl e)
      | Inr v \<Rightarrow>
          if \<not> commit_in_order d v then None
          else case write_block k d v of
              Inl e \<Rightarrow> Some (Inl e)
            | Inr r \<Rightarrow> if is_at_stop_height k (fst v) then None else Some (Inr r))"

definition commit_finalized :: "Checks \<Rightarrow> ZebraDb \<Rightarrow> verified_block \<Rightarrow> (string + verified_block \<times> ZebraDb) option" where
  "commit_finalized k d v =
     map_option (\<lambda>r. case r of Inl e \<Rightarrow> Inl e | Inr (_, d) \<Rightarrow> Inr (v, d))
       (commit_finalized_direct k d (Checkpoint v))"

section \<open>Ancestors and the first contextual checks\<close>

definition POW_AVERAGING_WINDOW :: nat where "POW_AVERAGING_WINDOW = 17"

definition POW_MEDIAN_BLOCK_SPAN :: nat where "POW_MEDIAN_BLOCK_SPAN = 11"

definition POW_ADJUSTMENT_BLOCK_SPAN :: nat where
  "POW_ADJUSTMENT_BLOCK_SPAN = POW_AVERAGING_WINDOW + POW_MEDIAN_BLOCK_SPAN"

record Iter =
  iter_chain :: "Chain option"
  iter_height :: "Height option"

definition yield_by_height :: "ZebraDb \<Rightarrow> Iter \<Rightarrow> (pow_block \<times> Iter) option" where
  "yield_by_height d it = do {
     current_height \<leftarrow> iter_height it;
     let h = (case height_previous current_height of Inl _ \<Rightarrow> None | Inr h \<Rightarrow> Some h);
     let c = (case iter_chain it of
         None \<Rightarrow> None
       | Some c \<Rightarrow> (case h of None \<Rightarrow> None | Some h \<Rightarrow> if contains_block_height c h then Some c else None));
     item \<leftarrow> read_block (iter_chain it) d (OfHeight current_height);
     Some (item, \<lparr>iter_chain = c, iter_height = h\<rparr>) }"

fun iter_take :: "nat \<Rightarrow> ZebraDb \<Rightarrow> Iter \<Rightarrow> pow_block list" where
  "iter_take 0 d it = []"
| "iter_take (Suc n) d it = (case yield_by_height d it of
      None \<Rightarrow> []
    | Some (item, it) \<Rightarrow> item # iter_take n d it)"

definition any_chain_ancestor_iter :: "NonFinalizedState \<Rightarrow> ZebraDb \<Rightarrow> bytes \<Rightarrow> Iter" where
  "any_chain_ancestor_iter s d x =
     (let c = find_chain (\<lambda>c. contains_block_hash c x) s in
      \<lparr>iter_chain = c, iter_height = height_by_hash c d x\<rparr>)"

definition block_is_not_orphaned :: "Height \<Rightarrow> Height \<Rightarrow> ValidateContextError option" where
  "block_is_not_orphaned finalized_tip_height candidate_height =
     (if candidate_height \<le> finalized_tip_height
      then Some (OrphanedBlock candidate_height finalized_tip_height) else None)"

definition height_one_more_than_parent_height :: "Height \<Rightarrow> Height \<Rightarrow> ValidateContextError option" where
  "height_one_more_than_parent_height parent_height candidate_height =
     (if height_add parent_height 1 \<noteq> Some candidate_height
      then Some (NonSequentialBlock candidate_height parent_height) else None)"

text \<open>\<open>Some (Some e)\<close> is an error, \<open>Some None\<close> accepts the block.\<close>

definition block_is_valid_for_recent_chain ::
  "Checks \<Rightarrow> verified_block \<Rightarrow> Height option \<Rightarrow> pow_block list \<Rightarrow> ValidateContextError option option" where
  "block_is_valid_for_recent_chain k v finalized_tip_height relevant_chain = do {
     t \<leftarrow> finalized_tip_height;
     case block_is_not_orphaned t (fst v) of
       Some e \<Rightarrow> Some (Some e)
     | None \<Rightarrow> (case relevant_chain of
           [] \<Rightarrow> Some (Some NotReadyToBeCommitted)
         | parent # _ \<Rightarrow> do {
             parent_height \<leftarrow> coinbase_height k parent;
             case height_one_more_than_parent_height parent_height (fst v) of
               Some e \<Rightarrow> Some (Some e)
             | None \<Rightarrow> Some (difficulty_threshold_and_time k v relevant_chain) }) }"

definition initial_contextual_validity ::
  "Checks \<Rightarrow> ZebraDb \<Rightarrow> NonFinalizedState \<Rightarrow> verified_block \<Rightarrow> ValidateContextError option option" where
  "initial_contextual_validity k d s v = do {
     r \<leftarrow> block_is_valid_for_recent_chain k v (map_option fst (db_tip d))
       (iter_take POW_ADJUSTMENT_BLOCK_SPAN d (any_chain_ancestor_iter s d (prev_hash v)));
     Some (case r of Some e \<Rightarrow> Some e | None \<Rightarrow> nullifier_check k d v) }"

definition validate_and_commit_non_finalized ::
  "Checks \<Rightarrow> ZebraDb \<Rightarrow> NonFinalizedState \<Rightarrow> verified_block \<Rightarrow>
   (ValidateContextError + NonFinalizedState) option" where
  "validate_and_commit_non_finalized k d s v = do {
     r \<leftarrow> initial_contextual_validity k d s v;
     case r of
       Some e \<Rightarrow> Some (Inl e)
     | None \<Rightarrow>
         if finalized_tip_hash d = prev_hash v
         then commit_new_chain (context_check k) (index_update k) d v s
         else commit_block (context_check k) (index_update k) v s }"

section \<open>The task\<close>

definition PARENT_ERROR_MAP_LIMIT :: nat where "PARENT_ERROR_MAP_LIMIT = MAX_BLOCK_REORG_HEIGHT * 2"

text \<open>The watch channel is its last value, the reset channel the list of hashes sent and not yet received.\<close>

record WriteBlockWorkerTask =
  finalized_state :: ZebraDb
  non_finalized_state :: NonFinalizedState
  non_finalized_state_sender :: NonFinalizedState
  parent_error_map :: "(bytes \<times> ValidateContextError) list"
  invalid_block_reset_sender :: "bytes list"

datatype NonFinalizedWriteMessage =
    Commit verified_block
  | CrosslinkFinalized bytes
  | Invalidate bytes
  | Reconsider bytes

datatype write_response =
    CommitResult "ValidateContextError + bytes"
  | CrosslinkResult "string + bytes"
  | InvalidateResult "string + bytes"
  | ReconsiderResult "ReconsiderError + bytes list"

definition spawn_worker :: "ZebraDb \<Rightarrow> NonFinalizedState \<Rightarrow> WriteBlockWorkerTask" where
  "spawn_worker d s = \<lparr>finalized_state = d, non_finalized_state = s, non_finalized_state_sender = s,
     parent_error_map = [], invalid_block_reset_sender = []\<rparr>"

definition update_latest_chain_channels :: "WriteBlockWorkerTask \<Rightarrow> (Height \<times> WriteBlockWorkerTask) option" where
  "update_latest_chain_channels w = (case chain_set (non_finalized_state w) of
      [] \<Rightarrow> None
    | best # _ \<Rightarrow> (case blocks best of
        [] \<Rightarrow> None
      | bs \<Rightarrow> Some (fst (last bs), w\<lparr>non_finalized_state_sender := non_finalized_state w\<rparr>)))"

text \<open>A checkpoint-verified block: dropped at the wrong height, otherwise committed or a reset is sent.\<close>

definition write_finalized_block :: "Checks \<Rightarrow> verified_block \<Rightarrow> WriteBlockWorkerTask \<Rightarrow> WriteBlockWorkerTask option" where
  "write_finalized_block k v w = do {
     next_valid_height \<leftarrow> (case db_tip (finalized_state w) of
         Some (t, _) \<Rightarrow> height_add t 1
       | None \<Rightarrow> Some (Height 0));
     if fst v \<noteq> next_valid_height then Some w
     else do {
       r \<leftarrow> commit_finalized k (finalized_state w) v;
       Some (case r of
           Inr (_, d) \<Rightarrow> w\<lparr>finalized_state := d\<rparr>
         | Inl _ \<Rightarrow> w\<lparr>invalid_block_reset_sender :=
             invalid_block_reset_sender w @ [finalized_tip_hash (finalized_state w)]\<rparr>) } }"

definition finalize_root :: "Checks \<Rightarrow> WriteBlockWorkerTask \<Rightarrow> WriteBlockWorkerTask option" where
  "finalize_root k w = do {
     (v, s) \<leftarrow> finalize (non_finalized_state w);
     r \<leftarrow> commit_finalized_direct k (finalized_state w) (Contextual v);
     case r of
       Inl _ \<Rightarrow> None
     | Inr (_, d) \<Rightarrow> Some (w\<lparr>finalized_state := d, non_finalized_state := s\<rparr>) }"

fun finalize_roots :: "Checks \<Rightarrow> nat \<Rightarrow> WriteBlockWorkerTask \<Rightarrow> WriteBlockWorkerTask option" where
  "finalize_roots k 0 w = Some w"
| "finalize_roots k (Suc n) w = Option.bind (finalize_root k w) (finalize_roots k n)"

partial_function (option) finalize_past_reorg_limit :: "Checks \<Rightarrow> WriteBlockWorkerTask \<Rightarrow> WriteBlockWorkerTask option" where
  "finalize_past_reorg_limit k w = Option.bind (best_chain_len (non_finalized_state w)) (\<lambda>n.
     if n > MAX_BLOCK_REORG_HEIGHT
     then Option.bind (finalize_root k w) (finalize_past_reorg_limit k)
     else Some w)"

definition write_crosslink_finalized ::
  "Checks \<Rightarrow> bytes \<Rightarrow> WriteBlockWorkerTask \<Rightarrow> ((string + bytes) \<times> WriteBlockWorkerTask) option" where
  "write_crosslink_finalized k x w =
     (case crosslink_finalize x (non_finalized_state w) of
        (Some newly_finalized_blocks, s) \<Rightarrow> do {
          (_, w) \<leftarrow> update_latest_chain_channels (w\<lparr>non_finalized_state := s\<rparr>);
          w \<leftarrow> finalize_roots k (length newly_finalized_blocks) w;
          Some (Inr x, w) }
      | (None, _) \<Rightarrow>
          if db_contains_hash (finalized_state w) x then Some (Inr x, w)
          else Some (Inl ''Couldn't find finalized block'', w))"

definition write_commit ::
  "Checks \<Rightarrow> verified_block \<Rightarrow> WriteBlockWorkerTask \<Rightarrow>
   ((ValidateContextError + bytes) \<times> WriteBlockWorkerTask) option" where
  "write_commit k v w = do {
     result \<leftarrow> (case map_of (parent_error_map w) (prev_hash v) of
         Some e \<Rightarrow> Some (Inl e)
       | None \<Rightarrow> validate_and_commit_non_finalized k (finalized_state w) (non_finalized_state w) v);
     case result of
       Inl e \<Rightarrow>
         (let m = map_insert (block_hash v) e (parent_error_map w) in
          Some (Inl e, w\<lparr>parent_error_map := (if length m > PARENT_ERROR_MAP_LIMIT then tl m else m)\<rparr>))
     | Inr s \<Rightarrow> do {
         (_, w) \<leftarrow> update_latest_chain_channels (w\<lparr>non_finalized_state := s\<rparr>);
         w \<leftarrow> finalize_past_reorg_limit k w;
         Some (Inr (block_hash v), w) } }"

definition write_invalidate ::
  "bytes \<Rightarrow> WriteBlockWorkerTask \<Rightarrow> ((string + bytes) \<times> WriteBlockWorkerTask) option" where
  "write_invalidate x w = do {
     r \<leftarrow> nfs_invalidate_block x (non_finalized_state w);
     let (rsp, s) = (case r of Inl e \<Rightarrow> (Inl e, non_finalized_state w) | Inr (y, s) \<Rightarrow> (Inr y, s));
     (_, w) \<leftarrow> update_latest_chain_channels (w\<lparr>non_finalized_state := s\<rparr>);
     Some (rsp, w) }"

definition write_reconsider ::
  "Checks \<Rightarrow> bytes \<Rightarrow> WriteBlockWorkerTask \<Rightarrow> ((ReconsiderError + bytes list) \<times> WriteBlockWorkerTask) option" where
  "write_reconsider k x w = do {
     r \<leftarrow> nfs_reconsider_block (index_update k) (finalized_state w) x (non_finalized_state w);
     let (rsp, s) = (case r of Inl e \<Rightarrow> (Inl e, non_finalized_state w) | Inr (ys, s) \<Rightarrow> (Inr ys, s));
     (_, w) \<leftarrow> update_latest_chain_channels (w\<lparr>non_finalized_state := s\<rparr>);
     Some (rsp, w) }"

text \<open>One message of the non-finalized loop. The answer belongs to the step: a panic after the answer was sent, which
  aborts the process, gives \<open>None\<close>, and the answer is lost with it.\<close>

definition write_message ::
  "Checks \<Rightarrow> NonFinalizedWriteMessage \<Rightarrow> WriteBlockWorkerTask \<Rightarrow>
   (write_response \<times> WriteBlockWorkerTask) option" where
  "write_message k m w = (case m of
      Commit v \<Rightarrow> map_option (map_prod CommitResult id) (write_commit k v w)
    | CrosslinkFinalized x \<Rightarrow> map_option (map_prod CrosslinkResult id) (write_crosslink_finalized k x w)
    | Invalidate x \<Rightarrow> map_option (map_prod InvalidateResult id) (write_invalidate x w)
    | Reconsider x \<Rightarrow> map_option (map_prod ReconsiderResult id) (write_reconsider k x w))"


definition empty_db :: ZebraDb where
  "empty_db = \<lparr>hash_by_height_cf = [], height_by_hash_cf = Map.empty, block_header_by_height_cf = Map.empty,
     transactions_by_height_cf = (\<lambda>_. [])\<rparr>"

text \<open>Checks that accept every block.\<close>

definition empty_checks :: Checks where
  "empty_checks = \<lparr>coinbase_height = (\<lambda>_. None), difficulty_threshold_and_time = (\<lambda>_ _. None),
     nullifier_check = (\<lambda>_ _. None), context_check = (\<lambda>_ _. None), index_update = (\<lambda>_ _. None),
     checkpoint_check = (\<lambda>_ _. None), batch_error = (\<lambda>_ _. None), debug_stop_at_height = None\<rparr>"

inductive task_step :: "Checks \<Rightarrow> WriteBlockWorkerTask \<Rightarrow> WriteBlockWorkerTask \<Rightarrow> bool" for k where
  finalized_block: "write_finalized_block k v w = Some w' \<Longrightarrow> task_step k w w'"
| message: "write_message k m w = Some (r, w') \<Longrightarrow> task_step k w w'"

section \<open>The finalized chain only grows\<close>

definition db_chain :: "ZebraDb \<Rightarrow> bool" where
  "db_chain d \<longleftrightarrow>
     (let cf = hash_by_height_cf d in
      length cf \<le> 2 ^ 31 \<and> map fst cf = map ht [0..<length cf] \<and>
      (\<forall>i<length cf. \<exists>hdr. block_header_by_height_cf d (ht i) = Some hdr \<and>
         previous_block_hash hdr = (if i = 0 then GENESIS_PREVIOUS_BLOCK_HASH else snd (cf ! (i - 1)))))"

definition db_extends :: "ZebraDb \<Rightarrow> ZebraDb \<Rightarrow> bool" where
  "db_extends d d' \<longleftrightarrow> db_chain d' \<and> prefix (hash_by_height_cf d) (hash_by_height_cf d')"

lemma db_extends_refl: "db_chain d \<Longrightarrow> db_extends d d"
  by (simp add: db_extends_def)

lemma db_extends_trans: "db_extends d d' \<Longrightarrow> db_extends d' d'' \<Longrightarrow> db_extends d d''"
  by (auto simp: db_extends_def)

lemma height_add_one:
  assumes "n < 2 ^ 31"
  shows "height_add (ht n) 1 = (if Suc n < 2 ^ 31 then Some (ht (Suc n)) else None)"
proof -
  have "in_i64 1" by (simp add: i64_defs)
  from height_add_eq[OF this, of "ht n"] show ?thesis
    unfolding height_nat_ht[OF assms] Let_def by (auto simp: add.commute)
qed

lemma ht_less: "i < n \<Longrightarrow> n < 2 ^ 31 \<Longrightarrow> ht i < ht n"
  using height_nat_ht[of i] height_nat_ht[of n] by (simp add: Height_less_iff del: Height.sel)

lemma db_chain_tip:
  assumes "db_chain d" "hash_by_height_cf d \<noteq> []"
  shows "db_tip d = Some (ht (length (hash_by_height_cf d) - 1), snd (last (hash_by_height_cf d)))"
proof -
  have "map fst (hash_by_height_cf d) ! (length (hash_by_height_cf d) - 1) = ht (length (hash_by_height_cf d) - 1)"
    using assms unfolding db_chain_def Let_def by simp
  then have "fst (last (hash_by_height_cf d)) = ht (length (hash_by_height_cf d) - 1)"
    using assms(2) by (simp add: last_conv_nth)
  then show ?thesis using assms(2) by (simp add: db_tip_def prod_eq_iff)
qed

lemma commit_in_order_iff:
  assumes "db_chain d"
  defines "n \<equiv> length (hash_by_height_cf d)"
  shows "commit_in_order d v \<longleftrightarrow> n < 2 ^ 31 \<and> fst v = ht n \<and>
    prev_hash v = (if n = 0 then GENESIS_PREVIOUS_BLOCK_HASH else snd (last (hash_by_height_cf d)))"
proof (cases "hash_by_height_cf d = []")
  case True
  then have "db_tip d = None" by (simp add: db_tip_def)
  then show ?thesis using True by (auto simp: commit_in_order_def finalized_tip_hash_def n_def)
next
  case False
  then have n: "n - 1 < 2 ^ 31" "Suc (n - 1) = n" "n \<noteq> 0"
    using assms by (auto simp: db_chain_def Let_def)
  have add: "height_add (ht (n - 1)) 1 = (if n < 2 ^ 31 then Some (ht n) else None)"
    using height_add_one[OF n(1)] unfolding n(2) .
  show ?thesis
    unfolding commit_in_order_def finalized_tip_hash_def db_chain_tip[OF assms(1) False, folded n_def]
      option.case prod.case add
    using n(3) by auto
qed

lemma db_chain_commit:
  assumes "db_chain d" "commit_in_order d v"
  shows "hash_by_height_cf (prepare_block_header_and_transaction_data_batch d v) =
      hash_by_height_cf d @ [(fst v, block_hash v)]"
    and "db_extends d (prepare_block_header_and_transaction_data_batch d v)"
proof -
  let ?cf = "hash_by_height_cf d" and ?d = "prepare_block_header_and_transaction_data_batch d v"
  note order = commit_in_order_iff[OF assms(1), THEN iffD1, OF assms(2)]
  have heights: "map fst ?cf = map ht [0..<length ?cf]" using assms(1) by (simp add: db_chain_def Let_def)
  have "fst w < fst v" if "w \<in> set ?cf" for w
  proof -
    have "fst w \<in> ht ` {0..<length ?cf}" using that heights by (metis image_eqI list.set_map set_upt)
    then show ?thesis using order ht_less by fastforce
  qed
  then show cf: "hash_by_height_cf ?d = ?cf @ [(fst v, block_hash v)]"
    by (simp add: prepare_block_header_and_transaction_data_batch_def Let_def blocks_insert_last)
  have "\<exists>hdr. block_header_by_height_cf ?d (ht i) = Some hdr \<and>
      previous_block_hash hdr = (if i = 0 then GENESIS_PREVIOUS_BLOCK_HASH else snd (hash_by_height_cf ?d ! (i - 1)))"
    if "i < length (hash_by_height_cf ?d)" for i
  proof (cases "i = length ?cf")
    case True
    then show ?thesis using order unfolding cf
      by (auto simp: prepare_block_header_and_transaction_data_batch_def Let_def last_conv_nth nth_append)
  next
    case False
    then have i: "i < length ?cf" using that cf by simp
    then have "ht i \<noteq> fst v" using order ht_less[OF i] by auto
    with i assms(1) show ?thesis unfolding cf
      by (auto simp: db_chain_def prepare_block_header_and_transaction_data_batch_def Let_def nth_append)
  qed
  then show "db_extends d ?d" using heights order unfolding db_extends_def db_chain_def Let_def cf by simp
qed


lemma commit_finalized_direct_extends:
  assumes "db_chain d" "commit_finalized_direct k d b = Some (Inr (x, d'))"
  shows "db_extends d d'"
  using assms(2) db_chain_commit(2)[OF assms(1)]
  by (auto simp: commit_finalized_direct_def write_block_def
      split: FinalizableBlock.splits option.splits sum.splits if_splits)

lemma finalize_root_extends:
  assumes "db_chain (finalized_state w)" "finalize_root k w = Some w'"
  shows "db_extends (finalized_state w) (finalized_state w')"
  using assms(2) commit_finalized_direct_extends[OF assms(1)]
  by (auto simp: finalize_root_def split: bind_splits sum.splits)

lemma finalize_roots_extends:
  "db_chain (finalized_state w) \<Longrightarrow> finalize_roots k n w = Some w' \<Longrightarrow>
   db_extends (finalized_state w) (finalized_state w')"
proof (induction n arbitrary: w)
  case (Suc n)
  then obtain w1 where w1: "finalize_root k w = Some w1" "finalize_roots k n w1 = Some w'"
    by (auto split: bind_splits)
  note e = finalize_root_extends[OF Suc.prems(1) w1(1)]
  then have "db_chain (finalized_state w1)" by (simp add: db_extends_def)
  from db_extends_trans[OF e Suc.IH[OF this w1(2)]] show ?case .
qed (simp add: db_extends_refl)

lemma finalize_past_reorg_limit_extends:
  assumes "finalize_past_reorg_limit k w = Some w'" "db_chain (finalized_state w)"
  shows "db_extends (finalized_state w) (finalized_state w')"
proof -
  have "db_chain (finalized_state w) \<longrightarrow> db_extends (finalized_state w) (finalized_state w')"
    using assms(1)
  proof (rule finalize_past_reorg_limit.raw_induct[rotated])
    fix f k w w'
    assume IH: "\<And>k w w'. f k w = Some w' \<Longrightarrow>
        db_chain (finalized_state w) \<longrightarrow> db_extends (finalized_state w) (finalized_state w')"
      and body: "Option.bind (best_chain_len (non_finalized_state w)) (\<lambda>n. if MAX_BLOCK_REORG_HEIGHT < n
        then Option.bind (finalize_root k w) (f k) else Some w) = Some w'"
    show "db_chain (finalized_state w) \<longrightarrow> db_extends (finalized_state w) (finalized_state w')"
    proof
      assume d: "db_chain (finalized_state w)"
      have "w' = w \<or> (\<exists>w1. finalize_root k w = Some w1 \<and> f k w1 = Some w')"
        using body by (auto split: bind_splits if_splits)
      then show "db_extends (finalized_state w) (finalized_state w')"
        using db_extends_refl[OF d] finalize_root_extends[OF d] IH db_extends_trans
        unfolding db_extends_def by blast
    qed
  qed
  with assms(2) show ?thesis by blast
qed

lemma update_latest_chain_channels_db:
  "update_latest_chain_channels w = Some (h, w') \<Longrightarrow> finalized_state w' = finalized_state w"
  by (auto simp: update_latest_chain_channels_def split: list.splits)

lemma write_message_extends:
  assumes "db_chain (finalized_state w)" "write_message k m w = Some (r, w')"
  shows "db_extends (finalized_state w) (finalized_state w')"
proof (cases m)
  case (Commit v)
  have step: "db_extends (finalized_state w) (finalized_state w')"
    if "finalize_past_reorg_limit k b = Some w'" "finalized_state b = finalized_state w" for b
    using finalize_past_reorg_limit_extends[OF that(1)] that(2) assms(1) by simp
  from Commit show ?thesis
    using assms
    by (auto simp: write_message_def write_commit_def Let_def db_extends_refl
        dest!: update_latest_chain_channels_db intro: step split: bind_splits sum.splits)
next
  case (CrosslinkFinalized x)
  have step: "db_extends (finalized_state w) (finalized_state w')"
    if "finalize_roots k n b = Some w'" "finalized_state b = finalized_state w" for b n
    using finalize_roots_extends[OF _ that(1)] that(2) assms(1) by simp
  from CrosslinkFinalized show ?thesis
    using assms
    by (auto simp: write_message_def write_crosslink_finalized_def db_extends_refl
        dest!: update_latest_chain_channels_db intro: step split: prod.splits option.splits bind_splits if_splits)
next
  case (Invalidate x)
  then show ?thesis
    using assms
    by (auto simp: write_message_def write_invalidate_def db_extends_refl
        dest!: update_latest_chain_channels_db split: bind_splits sum.splits prod.splits)
next
  case (Reconsider x)
  then show ?thesis
    using assms
    by (auto simp: write_message_def write_reconsider_def db_extends_refl
        dest!: update_latest_chain_channels_db split: bind_splits sum.splits prod.splits)
qed

lemma write_finalized_block_extends:
  assumes "db_chain (finalized_state w)" "write_finalized_block k v w = Some w'"
  shows "db_extends (finalized_state w) (finalized_state w')"
proof -
  have "finalized_state w' = finalized_state w \<or>
      (\<exists>x. commit_finalized_direct k (finalized_state w) (Checkpoint v) = Some (Inr (x, finalized_state w')))"
    using assms(2) unfolding write_finalized_block_def commit_finalized_def
    by (cases "commit_finalized_direct k (finalized_state w) (Checkpoint v)")
      (auto split: bind_splits sum.splits if_splits)
  then show ?thesis using commit_finalized_direct_extends[OF assms(1)] db_extends_refl[OF assms(1)] by auto
qed

text \<open>C9: Whatever messages the task processes, in any order and with any outcome of the checks, the blocks
  in the finalized state stay there: the new finalized chain extends the old one, at consecutive heights,
  and every block in it points to the one before.\<close>

theorem finalized_chain_append_only:
  assumes "(task_step k)\<^sup>*\<^sup>* w w'" and "db_chain (finalized_state w)"
  shows "db_extends (finalized_state w) (finalized_state w')"
  using assms(1)
proof (induction rule: rtranclp_induct)
  case base
  show ?case using assms(2) by (rule db_extends_refl)
next
  case (step w1 w2)
  from step.IH have "db_chain (finalized_state w1)" by (simp add: db_extends_def)
  then have "db_extends (finalized_state w1) (finalized_state w2)"
    using step.hyps(2) write_message_extends write_finalized_block_extends by (auto elim!: task_step.cases)
  then show ?case by (rule db_extends_trans[OF step.IH])
qed

theorem finalized_chain_append_only_witness:
  "\<exists>w'. write_finalized_block empty_checks (sample_block 0 0 1) (spawn_worker empty_db NonFinalizedState_new) = Some w' \<and>
     db_extends empty_db (finalized_state w') \<and> hash_by_height_cf (finalized_state w') = [(Height 0, replicate 32 1)]"
proof -
  let ?w = "spawn_worker empty_db NonFinalizedState_new"
  let ?w' = "?w\<lparr>finalized_state := prepare_block_header_and_transaction_data_batch empty_db (sample_block 0 0 1)\<rparr>"
  have step: "write_finalized_block empty_checks (sample_block 0 0 1) ?w = Some ?w'"
    by (simp add: write_finalized_block_def commit_finalized_def commit_finalized_direct_def write_block_def
        commit_in_order_def is_at_stop_height_def empty_checks_def spawn_worker_def db_tip_def empty_db_def
        finalized_tip_hash_def GENESIS_PREVIOUS_BLOCK_HASH_def)
  then have "(task_step empty_checks)\<^sup>*\<^sup>* ?w ?w'" by (auto intro: task_step.finalized_block)
  moreover have "db_chain (finalized_state ?w)" by (simp add: db_chain_def spawn_worker_def empty_db_def)
  ultimately have "db_extends (finalized_state ?w) (finalized_state ?w')" by (rule finalized_chain_append_only)
  with step show ?thesis
    by (simp add: spawn_worker_def prepare_block_header_and_transaction_data_batch_def Let_def empty_db_def blocks_insert_def)
qed

section \<open>Finalizing a block on top of the finalized chain\<close>

definition task_inv :: "pow_chain \<Rightarrow> WriteBlockWorkerTask \<Rightarrow> bool" where
  "task_inv fc w \<longleftrightarrow>
     fc \<noteq> [] \<and> length fc \<le> 2 ^ 31 \<and> distinct (map fst fc) \<and>
     db_holds (finalized_state w) fc (length fc) \<and>
     (\<forall>h. length fc \<le> height_nat h \<longrightarrow> transactions_by_height_cf (finalized_state w) h = []) \<and>
     set_wf (length fc) (fst (last fc)) (chain_set (non_finalized_state w)) \<and>
     (\<forall>c\<in>set (chain_set (non_finalized_state w)). \<forall>v\<in>set (blocks c). block_hash v \<notin> fst ` set fc)"

lemma task_invD:
  assumes "task_inv fc w"
  shows "fc \<noteq> []" "length fc \<le> 2 ^ 31" "distinct (map fst fc)" "db_holds (finalized_state w) fc (length fc)"
    "length fc \<le> height_nat h \<Longrightarrow> transactions_by_height_cf (finalized_state w) h = []"
    "set_wf (length fc) (fst (last fc)) (chain_set (non_finalized_state w))"
    "c \<in> set (chain_set (non_finalized_state w)) \<Longrightarrow> v \<in> set (blocks c) \<Longrightarrow> block_hash v \<notin> fst ` set fc"
  using assms unfolding task_inv_def by blast+

lemma position_snoc:
  assumes "fst b \<notin> fst ` set fc"
  shows "position (fc @ [b]) x = (if x = fst b then Some (length fc) else position fc x)"
proof -
  let ?z = "zip (map fst fc) [0..<length fc]"
  have "zip (map fst (fc @ [b])) [0..<length (fc @ [b])] = ?z @ [(fst b, length fc)]" by simp
  moreover have "fst b \<notin> fst ` set ?z" using assms by (auto dest!: set_zip_leftD)
  ultimately show ?thesis unfolding position_def by (metis fun_upd_apply map_of_snoc)
qed

lemma db_holds_tip:
  assumes "db_holds d fc (length fc)" "fc \<noteq> []"
  shows "db_tip d = Some (ht (length fc - 1), fst (last fc))"
  using assms by (simp add: db_holds_def db_tip_def last_map last_zip case_prod_beta)

lemma db_holds_commit:
  assumes d: "db_holds d fc (length fc)" and n: "length fc < 2 ^ 31"
    and v: "fst v = ht (length fc)" "block_hash v \<notin> fst ` set fc"
    and tx: "transactions_by_height_cf d (ht (length fc)) = []"
  shows "db_holds (prepare_block_header_and_transaction_data_batch d v) (fc @ [snd v]) (Suc (length fc))"
    (is "db_holds ?d ?fc _")
proof -
  have nat: "height_nat (ht (length fc)) = length fc" by (rule height_nat_ht[OF n])
  then have eq: "h = ht (length fc) \<longleftrightarrow> height_nat h = length fc" for h
    by (metis Height.expand word_unat_eq_iff)
  have cf: "hash_by_height_cf d = map (\<lambda>(h, b). (h, fst b)) (numbered fc)" using d by (simp add: db_holds_def)
  have less: "fst w < fst v" if "w \<in> set (hash_by_height_cf d)" for w
  proof -
    have "fst w \<in> ht ` {0..<length fc}" using that unfolding cf by (auto dest!: set_zip_leftD)
    then show ?thesis using ht_less n v(1) by fastforce
  qed
  have "hash_by_height_cf ?d = hash_by_height_cf d @ [(fst v, block_hash v)]"
    using less by (simp add: prepare_block_header_and_transaction_data_batch_def Let_def blocks_insert_last)
  then have "hash_by_height_cf ?d = map (\<lambda>(h, b). (h, fst b)) (take (Suc (length fc)) (numbered ?fc))"
    using v(1) by (simp add: cf)
  moreover have "height_by_hash_cf ?d = (\<lambda>x. case position ?fc x of
      Some i \<Rightarrow> if i < Suc (length fc) then Some (ht i) else None | None \<Rightarrow> None)"
  proof
    fix x
    have "i < length fc" if "position fc x = Some i" for i
      using that unfolding position_def by (auto dest!: map_of_SomeD set_zip_rightD)
    then show "height_by_hash_cf ?d x = (case position ?fc x of
        Some i \<Rightarrow> if i < Suc (length fc) then Some (ht i) else None | None \<Rightarrow> None)"
      using d v unfolding position_snoc[OF v(2)]
      by (auto simp: prepare_block_header_and_transaction_data_batch_def Let_def db_holds_def split: option.splits)
  qed
  moreover have "block_header_by_height_cf ?d h = (if height_nat h < Suc (length fc)
      then Some (block_header_field (snd (?fc ! height_nat h))) else None)" for h
    using d eq[of h] v(1)
    by (auto simp: prepare_block_header_and_transaction_data_batch_def Let_def db_holds_def nth_append less_Suc_eq)
  moreover have "transactions_by_height_cf ?d h = transactions (snd (?fc ! height_nat h))"
    if "height_nat h < Suc (length fc)" for h
    using d eq[of h] v(1) tx that
    by (auto simp: prepare_block_header_and_transaction_data_batch_def Let_def db_holds_def nth_append less_Suc_eq)
  ultimately show ?thesis unfolding db_holds_def by simp
qed


definition storage_ok :: "Checks \<Rightarrow> bool" where
  "storage_ok k \<longleftrightarrow> (\<forall>d v. batch_error k d v = None) \<and> debug_stop_at_height k = None"

lemma commit_contextual:
  assumes "storage_ok k" "commit_in_order d v"
  shows "commit_finalized_direct k d (Contextual v) =
    Some (Inr (block_hash v, prepare_block_header_and_transaction_data_batch d v))"
proof -
  have "batch_error k d v = None" "debug_stop_at_height k = None" using assms(1) unfolding storage_ok_def by blast+
  then show ?thesis using assms(2) by (simp add: commit_finalized_direct_def write_block_def is_at_stop_height_def)
qed

lemma root_in_order:
  assumes inv: "task_inv fc w" and c: "c \<in> set (chain_set (non_finalized_state w))"
  shows "length fc < 2 ^ 31" "fst (hd (blocks c)) = ht (length fc)" "prev_hash (hd (blocks c)) = fst (last fc)"
    "commit_in_order (finalized_state w) (hd (blocks c))"
proof -
  let ?n = "length fc"
  have wf: "chain_wf ?n (fst (last fc)) c" and ne: "blocks c \<noteq> []"
    using set_wf_memberD[OF task_invD(6)[OF inv] c] by auto
  then show n: "?n < 2 ^ 31" unfolding chain_wf_def by (cases "blocks c") auto
  show h: "fst (hd (blocks c)) = ht ?n" "prev_hash (hd (blocks c)) = fst (last fc)"
    using chain_wf_height(1)[OF wf, of 0] wf ne by (cases "blocks c"; simp add: chain_wf_def)+
  have "Suc (?n - 1) = ?n" using task_invD(1)[OF inv] by (cases fc) auto
  then have "height_add (ht (?n - 1)) 1 = Some (ht ?n)" using height_add_one[of "?n - 1"] n by simp
  then show "commit_in_order (finalized_state w) (hd (blocks c))"
    unfolding commit_in_order_def finalized_tip_hash_def db_holds_tip[OF task_invD(4)[OF inv] task_invD(1)[OF inv]]
    using h by simp
qed

lemma finalized_set_fresh:
  assumes wf: "set_wf n p (best # sides)" and c: "c \<in> set (finalized_set (best # sides))" and v: "v \<in> set (blocks c)"
  shows "block_hash v \<noteq> block_hash (hd (blocks best))" "\<exists>d\<in>set (best # sides). v \<in> set (blocks d)"
proof -
  obtain d where d: "d \<in> set (best # sides)" "hd (blocks d) = hd (blocks best)" "c = drop_root d"
    using c unfolding finalized_set_def by (auto split: if_splits)
  then have v': "v \<in> set (tl (blocks d))" using v by (simp add: drop_root_def)
  have "distinct (map block_hash (blocks d))" "blocks d \<noteq> []"
    using set_wf_memberD(1,2)[OF wf d(1)] by (simp_all add: chain_wf_def)
  then have "block_hash (hd (blocks d)) \<notin> block_hash ` set (tl (blocks d))" by (cases "blocks d") simp_all
  with imageI[OF v', of block_hash] d(2) show "block_hash v \<noteq> block_hash (hd (blocks best))" by metis
  show "\<exists>d\<in>set (best # sides). v \<in> set (blocks d)"     using d(1) list.set_sel(2)[OF \<open>blocks d \<noteq> []\<close> v'] by blast
qed

lemma finalize_root_inv:
  assumes inv: "task_inv fc w" and cs: "chain_set (non_finalized_state w) = best # sides" and ok: "storage_ok k"
  shows "\<exists>w'. finalize_root k w = Some w' \<and> task_inv (fc @ [snd (hd (blocks best))]) w' \<and>
    chain_set (non_finalized_state w') = finalized_set (best # sides) \<and>
    non_finalized_state_sender w' = non_finalized_state_sender w"
proof -
  let ?v = "hd (blocks best)" and ?n = "length fc"
  let ?s = "(non_finalized_state w)\<lparr>chain_set := finalized_set (best # sides), invalidated_blocks :=
      filter (\<lambda>(h, _). fst ?v \<le> h) (invalidated_blocks (non_finalized_state w))\<rparr>"
  define w' where "w' = w\<lparr>finalized_state := prepare_block_header_and_transaction_data_batch (finalized_state w) ?v,
      non_finalized_state := ?s\<rparr>"
  have fin: "finalized_state w' = prepare_block_header_and_transaction_data_batch (finalized_state w) ?v"
    and chains: "chain_set (non_finalized_state w') = finalized_set (best # sides)"
    and sender: "non_finalized_state_sender w' = non_finalized_state_sender w"
    by (simp_all add: w'_def)
  note I = task_invD[OF inv]
  note wf = I(6)[unfolded cs]
  have best: "best \<in> set (chain_set (non_finalized_state w))" by (simp add: cs)
  note root = root_in_order[OF inv best]
  have fresh: "block_hash ?v \<notin> fst ` set fc" using I(7)[OF best] set_wf_memberD(3)[OF wf, of best] by simp
  have nat: "height_nat (ht ?n) = ?n" by (rule height_nat_ht[OF root(1)])
  have run: "finalize_root k w = Some w'"
    unfolding finalize_root_def finalize_wf[OF I(6) cs] using commit_contextual[OF ok root(4)] by (simp add: cs w'_def)
  have db: "db_holds (finalized_state w') (fc @ [snd ?v]) (length (fc @ [snd ?v]))"
    using db_holds_commit[OF I(4) root(1,2) fresh I(5)] nat by (simp add: fin)
  have tx: "transactions_by_height_cf (finalized_state w') h = []" if "length (fc @ [snd ?v]) \<le> height_nat h" for h
    using that I(5)[of h] nat root(2)
    by (auto simp: fin prepare_block_header_and_transaction_data_batch_def Let_def simp del: Height.sel)
  have set: "set_wf (Suc ?n) (block_hash ?v) (finalized_set (best # sides))"
  proof (cases "length (blocks best) = 1")
    case True
    then show ?thesis by (simp add: finalized_set_def set_wf_def)
  next
    case False
    then show ?thesis by (rule set_wf_finalized[OF wf])
  qed
  have new: "block_hash v \<notin> fst ` set (fc @ [snd ?v])"
    if v: "c \<in> set (finalized_set (best # sides))" "v \<in> set (blocks c)" for c v
  proof -
    obtain e where "e \<in> set (chain_set (non_finalized_state w))" "v \<in> set (blocks e)"
      using finalized_set_fresh(2)[OF wf v] unfolding cs by blast
    from I(7)[OF this] finalized_set_fresh(1)[OF wf v] show ?thesis by auto
  qed
  have inv': "task_inv (fc @ [snd ?v]) w'"
    unfolding task_inv_def chains
  proof (intro conjI db allI ballI impI tx new)
    show "length (fc @ [snd ?v]) \<le> 2 ^ 31" using root(1) by simp
    show "distinct (map fst (fc @ [snd ?v]))" using I(3) fresh by simp
    show "set_wf (length (fc @ [snd ?v])) (fst (last (fc @ [snd ?v]))) (finalized_set (best # sides))"
      using set by simp
  qed simp_all
  show ?thesis by (rule exI[of _ w'], intro conjI run inv' chains sender)
qed

section \<open>Crosslink finalization\<close>

lemma set_wf_short_best:
  assumes "set_wf n p (best # sides)" "length (blocks best) = 1"
    "\<And>c. c \<in> set sides \<Longrightarrow> hd (blocks c) = hd (blocks best)"
  shows "sides = []"
proof (rule ccontr)
  assume "sides \<noteq> []"
  then have "hd sides \<in> set sides" by simp
  from set_wf_single(1)[OF assms(1) this assms(3)[OF this]] assms(2) show False by simp
qed

text \<open>Finalizing the blocks that all chains share moves them to the finalized chain, one by one.\<close>

lemma finalize_roots_shared:
  assumes "task_inv fc w" "storage_ok k" "chain_set (non_finalized_state w) \<noteq> []"
    and "\<And>c. c \<in> set (chain_set (non_finalized_state w)) \<Longrightarrow> take j (blocks c) = vs \<and> j \<le> length (blocks c)"
  shows "\<exists>w'. finalize_roots k j w = Some w' \<and> task_inv (fc @ map snd vs) w' \<and>
    map blocks (chain_set (non_finalized_state w')) =
      filter (\<lambda>bs. bs \<noteq> []) (map (\<lambda>c. drop j (blocks c)) (chain_set (non_finalized_state w))) \<and>
    non_finalized_state_sender w' = non_finalized_state_sender w"
  using assms(1,3,4)
proof (induction j arbitrary: fc w vs)
  case 0
  have "vs = []" using 0(3)[OF hd_in_set[OF 0(2)]] by simp
  then have inv: "task_inv (fc @ map snd vs) w" using 0(1) by simp
  have "filter (\<lambda>bs. bs \<noteq> []) (map blocks (chain_set (non_finalized_state w))) =
      map blocks (chain_set (non_finalized_state w))"
    using set_wf_memberD(2)[OF task_invD(6)[OF 0(1)]] by (auto simp: filter_id_conv)
  then have "map blocks (chain_set (non_finalized_state w)) =
      filter (\<lambda>bs. bs \<noteq> []) (map (\<lambda>c. drop 0 (blocks c)) (chain_set (non_finalized_state w)))" by simp
  then show ?case by (intro exI[of _ w] conjI inv refl finalize_roots.simps(1))
next
  case (Suc j)
  let ?cs = "chain_set (non_finalized_state w)"
  obtain best sides where cs: "?cs = best # sides" using Suc.prems(2) by (cases ?cs) auto
  note wf = task_invD(6)[OF Suc.prems(1), unfolded cs]
  have vs: "vs = hd (blocks c) # take j (tl (blocks c))" "j \<le> length (tl (blocks c))" if "c \<in> set ?cs" for c
    using Suc.prems(3)[OF that] by (cases "blocks c"; auto)+
  have heads: "hd (blocks c) = hd (blocks best)" if "c \<in> set ?cs" for c
  proof -
    have "best \<in> set ?cs" by (simp add: cs)
    from vs(1)[OF that] vs(1)[OF this] show ?thesis by simp
  qed
  obtain w1 where w1: "finalize_root k w = Some w1" "task_inv (fc @ [snd (hd (blocks best))]) w1"
    "chain_set (non_finalized_state w1) = finalized_set (best # sides)"
    "non_finalized_state_sender w1 = non_finalized_state_sender w"
    using finalize_root_inv[OF Suc.prems(1) cs assms(2)] by blast
  have shared: "finalized_set (best # sides) = (if length (blocks best) = 1 then [] else map drop_root ?cs)"
    using finalized_set_shared[OF Suc.prems(2) heads] by (simp add: cs)
  show ?case
  proof (cases "length (blocks best) = 1")
    case True
    have "sides = []" by (rule set_wf_short_best[OF wf True]) (rule heads, simp add: cs)
    moreover have "j = 0" "vs = [hd (blocks best)]" using vs[of best] cs True by (cases "blocks best"; auto)+
    moreover have "tl (blocks best) = []" using True by (cases "blocks best") auto
    ultimately have "finalize_roots k (Suc j) w = Some w1" "task_inv (fc @ map snd vs) w1"
      "map blocks (chain_set (non_finalized_state w1)) =
        filter (\<lambda>bs. bs \<noteq> []) (map (\<lambda>c. drop (Suc j) (blocks c)) ?cs)"
      using w1 shared True cs by (simp_all add: drop_Suc)
    then show ?thesis by (intro exI[of _ w1] conjI w1(4))
  next
    case False
    then have cs1: "chain_set (non_finalized_state w1) = map drop_root ?cs" using w1(3) shared by simp
    have rest: "take j (blocks c) = tl vs \<and> j \<le> length (blocks c)"
      if c: "c \<in> set (chain_set (non_finalized_state w1))" for c
    proof -
      obtain d where "d \<in> set ?cs" "blocks c = tl (blocks d)" using c unfolding cs1 by (auto simp: drop_root_def)
      then show ?thesis using vs[of d] by simp
    qed
    have ne: "chain_set (non_finalized_state w1) \<noteq> []" by (simp add: cs1 cs)
    obtain w' where w': "finalize_roots k j w1 = Some w'" "task_inv ((fc @ [snd (hd (blocks best))]) @ map snd (tl vs)) w'"
      "map blocks (chain_set (non_finalized_state w')) =
        filter (\<lambda>bs. bs \<noteq> []) (map (\<lambda>c. drop j (blocks c)) (chain_set (non_finalized_state w1)))"
      "non_finalized_state_sender w' = non_finalized_state_sender w1"
      using Suc.IH[OF w1(2) ne, of "tl vs"] rest by blast
    have "best \<in> set ?cs" by (simp add: cs)
    then have "map snd vs = snd (hd (blocks best)) # map snd (tl vs)" using vs(1)[of best] by simp
    then have inv: "task_inv (fc @ map snd vs) w'" using w'(2) by simp
    have drops: "map (\<lambda>c. drop j (blocks c)) (map drop_root ?cs) = map (\<lambda>c. drop (Suc j) (blocks c)) ?cs"
      by (simp add: drop_root_def drop_Suc)
    have "finalize_roots k (Suc j) w = Some w'" "map blocks (chain_set (non_finalized_state w')) =
        filter (\<lambda>bs. bs \<noteq> []) (map (\<lambda>c. drop (Suc j) (blocks c)) ?cs)"
      "non_finalized_state_sender w' = non_finalized_state_sender w"
      using w1(1,4) w'(1,4) w'(3)[unfolded cs1 drops] by simp_all
    then show ?thesis by (intro exI[of _ w'] conjI inv)
  qed
qed


lemma sorted_heights_filter:
  assumes "chain_wf n p c" "i < length (blocks c)"
  shows "filter (\<lambda>v. fst v \<le> ht (n + i)) (blocks c) = take (Suc i) (blocks c)"
proof -
  have nat: "height_nat (fst (blocks c ! j)) = n + j" if "j < length (blocks c)" for j
    by (rule chain_wf_height(2)[OF assms(1) that])
  have le: "fst (blocks c ! j) \<le> ht (n + i) \<longleftrightarrow> j \<le> i" if "j < length (blocks c)" for j
    using nat[OF that] nat[OF assms(2)] chain_wf_height(1)[OF assms] by (metis Height_le_iff nat_add_left_cancel_le)
  have "filter (\<lambda>v. fst v \<le> ht (n + i)) (take (Suc i) (blocks c)) = take (Suc i) (blocks c)"
    unfolding filter_id_conv
  proof
    fix v assume "v \<in> set (take (Suc i) (blocks c))"
    then obtain j where "j < Suc i" "v = blocks c ! j" using assms(2) by (auto simp: in_set_conv_nth)
    then show "fst v \<le> ht (n + i)" using le[of j] assms(2) by simp
  qed
  moreover have "filter (\<lambda>v. fst v \<le> ht (n + i)) (drop (Suc i) (blocks c)) = []"
    unfolding filter_empty_conv
  proof
    fix v assume "v \<in> set (drop (Suc i) (blocks c))"
    then obtain j where "j < length (drop (Suc i) (blocks c))" "v = drop (Suc i) (blocks c) ! j"
      unfolding in_set_conv_nth by blast
    then show "\<not> fst v \<le> ht (n + i)" using le[of "Suc i + j"] by simp
  qed
  ultimately show ?thesis by (metis append_Nil2 append_take_drop_id filter_append)
qed

lemma crosslink_finalize_wf:
  assumes wf: "set_wf n p (chain_set s)" and c: "c \<in> set (chain_set s)" and i: "i < length (blocks c)"
    and x: "x = block_hash (blocks c ! i)"
  shows "crosslink_finalize x s = (Some (take (Suc i) (blocks c)),
    s\<lparr>chain_set := filter (\<lambda>c. contains_block_hash c x) (chain_set s)\<rparr>)"
proof -
  have has: "contains_block_hash c x" using chain_wf_contains(1)[OF set_wf_memberD(1)[OF wf c]] i x by auto
  then obtain d where find: "find_chain (\<lambda>c. Chain_height_by_hash c x \<noteq> None) s = Some d"
    using c by (cases "find_chain (\<lambda>c. Chain_height_by_hash c x \<noteq> None) s")
      (auto simp: find_chain_def find_None_iff contains_block_hash_def Chain_height_by_hash_def)
  then have d: "d \<in> set (chain_set s)" "contains_block_hash d x"
    by (auto simp: find_chain_def find_Some_iff contains_block_hash_def Chain_height_by_hash_def)
  note wfd = set_wf_memberD(1)[OF wf d(1)]
  have sh: "i < length (blocks d)" "take (Suc i) (blocks d) = take (Suc i) (blocks c)"
    using shared_prefix[OF wf c d(1) i] d(2) x by auto
  then have "blocks d ! i = blocks c ! i" by (metis lessI nth_take)
  then have "Chain_height_by_hash d x = Some (ht (n + i))"
    using chain_wf_contains(2)[OF wfd nth_mem[OF sh(1)]] chain_wf_height(1)[OF wfd sh(1)] x
    by (simp add: Chain_height_by_hash_def)
  then show ?thesis using find sorted_heights_filter[OF wfd sh(1)] sh(2) by (simp add: crosslink_finalize_def)
qed

lemma write_crosslink_finalized_inv:
  assumes inv: "task_inv fc w" and ok: "storage_ok k" and c: "c \<in> set (chain_set (non_finalized_state w))"
    and i: "i < length (blocks c)" and x: "x = block_hash (blocks c ! i)"
  defines "kept \<equiv> filter (\<lambda>c. contains_block_hash c x) (chain_set (non_finalized_state w))"
  shows "\<exists>w'. write_crosslink_finalized k x w = Some (Inr x, w') \<and>
    task_inv (fc @ map snd (take (Suc i) (blocks c))) w' \<and>
    map blocks (chain_set (non_finalized_state w')) =
      filter (\<lambda>bs. bs \<noteq> []) (map (\<lambda>c. drop (Suc i) (blocks c)) kept) \<and>
    chain_set (non_finalized_state_sender w') = kept"
proof -
  note I = task_invD[OF inv]
  let ?s = "(non_finalized_state w)\<lparr>chain_set := kept\<rparr>"
  define w1 where "w1 = w\<lparr>non_finalized_state := ?s, non_finalized_state_sender := ?s\<rparr>"
  have c': "c \<in> set kept"
    using c chain_wf_contains(1)[OF set_wf_memberD(1)[OF I(6) c]] i x unfolding kept_def by auto
  have member: "d \<in> set (chain_set (non_finalized_state w))" "contains_block_hash d x" if "d \<in> set kept" for d
    using that unfolding kept_def by auto
  then have ne: "blocks d \<noteq> []" if "d \<in> set kept" for d using set_wf_memberD(2)[OF I(6)] that by blast
  have channels: "\<exists>h. update_latest_chain_channels (w\<lparr>non_finalized_state := ?s\<rparr>) = Some (h, w1)"
    using c' ne unfolding w1_def update_latest_chain_channels_def
    by (cases kept) (auto split: list.splits)
  have w1: "chain_set (non_finalized_state w1) = kept" "finalized_state w1 = finalized_state w"
    "chain_set (non_finalized_state_sender w1) = kept" by (simp_all add: w1_def)
  have "task_inv fc w1"
    unfolding task_inv_def w1
  proof (intro conjI I(1-4) allI impI I(5) ballI)
    show "set_wf (length fc) (fst (last fc)) kept" unfolding kept_def by (rule set_wf_filter[OF I(6)])
    show "block_hash v \<notin> fst ` set fc" if "d \<in> set kept" "v \<in> set (blocks d)" for d v
      by (rule I(7)[OF member(1)[OF that(1)] that(2)])
  qed
  moreover have "take (Suc i) (blocks d) = take (Suc i) (blocks c) \<and> Suc i \<le> length (blocks d)"
    if "d \<in> set (chain_set (non_finalized_state w1))" for d
    using shared_prefix[OF I(6) c member(1) i, of d] member(2)[of d] that x unfolding w1(1) by auto
  moreover have "chain_set (non_finalized_state w1) \<noteq> []" using c' w1(1) by auto
  ultimately obtain w' where w': "finalize_roots k (Suc i) w1 = Some w'"
    "task_inv (fc @ map snd (take (Suc i) (blocks c))) w'"
    "map blocks (chain_set (non_finalized_state w')) =
      filter (\<lambda>bs. bs \<noteq> []) (map (\<lambda>c. drop (Suc i) (blocks c)) (chain_set (non_finalized_state w1)))"
    "non_finalized_state_sender w' = non_finalized_state_sender w1"
    using finalize_roots_shared[OF _ ok, of fc w1 "Suc i" "take (Suc i) (blocks c)"] by blast
  have "length (take (Suc i) (blocks c)) = Suc i" using i by simp
  then have "write_crosslink_finalized k x w = Some (Inr x, w')"
    unfolding write_crosslink_finalized_def crosslink_finalize_wf[OF I(6) c i x, folded kept_def]
    using channels w'(1) by (auto simp del: finalize_roots.simps)
  with w' w1 show ?thesis by auto
qed


section \<open>What readers see after a finalization\<close>

lemma db_holds_append:
  assumes "db_holds d bc (length bc)" "distinct (map fst (bc @ rest))"
  shows "db_holds d (bc @ rest) (length bc)"
proof -
  have pos: "position (bc @ rest) x = Some i \<and> i < length bc \<longleftrightarrow> position bc x = Some i" for x i
    using assms(2) by (auto simp: position_Some_iff nth_append)
  have "(case position (bc @ rest) x of Some i \<Rightarrow> if i < length bc then Some (ht i) else None | None \<Rightarrow> None) =
      (case position bc x of Some i \<Rightarrow> if i < length bc then Some (ht i) else None | None \<Rightarrow> None)" for x
  proof (cases "position bc x")
    case None
    then have "\<not> i < length bc" if "position (bc @ rest) x = Some i" for i using pos[of x i] that by simp
    then show ?thesis using None by (cases "position (bc @ rest) x") simp_all
  next
    case (Some i)
    then have "position (bc @ rest) x = Some i" using pos[of x i] by simp
    then show ?thesis using Some by simp
  qed
  moreover have "take (length bc) (numbered (bc @ rest)) = numbered bc" by (simp add: take_zip take_map)
  ultimately show ?thesis using assms(1) unfolding db_holds_def by (simp add: nth_append)
qed

lemma chain_holds_wf:
  assumes wf: "chain_wf (length fc) p c" and dist: "distinct (map fst (fc @ map snd (blocks c)))"
  shows "chain_holds c (fc @ map snd (blocks c)) (length fc)"
proof -
  let ?n = "length fc" and ?bc = "fc @ map snd (blocks c)"
  have heights: "map fst (blocks c) = map ht [?n..<?n + length (blocks c)]" and ne: "blocks c \<noteq> []"
    using wf by (auto simp: chain_wf_def)
  have "drop ?n (numbered ?bc) = zip (map fst (blocks c)) (map snd (blocks c))"
    unfolding heights by (simp add: drop_zip drop_map)
  then have "blocks c = drop ?n (numbered ?bc)" by (simp add: zip_map_fst_snd)
  moreover have "chain_height_by_hash c x = (case position ?bc x of
      Some i \<Rightarrow> if ?n \<le> i then Some (ht i) else None | None \<Rightarrow> None)" for x
  proof (cases "\<exists>j<length (blocks c). block_hash (blocks c ! j) = x")
    case True
    then obtain j where j: "j < length (blocks c)" "block_hash (blocks c ! j) = x" by blast
    then have "position ?bc x = Some (?n + j)" by (simp add: position_Some_iff[OF dist] nth_append)
    then show ?thesis
      using chain_wf_contains(2)[OF wf nth_mem[OF j(1)]] chain_wf_height(1)[OF wf j(1)] j(2) by simp
  next
    case False
    then have "\<not> contains_block_hash c x" using chain_wf_contains(1)[OF wf, of x] by (metis in_set_conv_nth)
    then have "chain_height_by_hash c x = None" by (simp add: contains_block_hash_def)
    moreover have "i < ?n" if "position ?bc x = Some i" for i
      using that False by (auto simp: position_Some_iff[OF dist] nth_append split: if_splits)
        (metis add_diff_inverse_nat nat_add_left_cancel_less nth_map)
    ultimately show ?thesis by (auto split: option.splits)
  qed
  ultimately show ?thesis using ne unfolding chain_holds_def by auto
qed

lemma agrees_with_wf:
  assumes wf: "set_wf (length fc) p cs" and c: "c \<in> set cs" and d: "d \<in> set cs"
    and fresh: "\<And>v. v \<in> set (blocks d) \<Longrightarrow> block_hash v \<notin> fst ` set fc"
    and dist: "distinct (map fst (fc @ map snd (blocks c)))"
  shows "agrees_with (fc @ map snd (blocks c)) d"
  unfolding agrees_with_def
proof (intro allI impI)
  fix x m h
  assume pos: "position (fc @ map snd (blocks c)) x = Some m" and h: "chain_height_by_hash d x = Some h"
  note wfc = set_wf_memberD(1)[OF wf c] and wfd = set_wf_memberD(1)[OF wf d]
  obtain v where v: "v \<in> set (blocks d)" "block_hash v = x"
    using h chain_wf_contains(1)[OF wfd, of x] by (auto simp: contains_block_hash_def)
  have m: "m < length fc + length (blocks c)" "fst ((fc @ map snd (blocks c)) ! m) = x"
    using pos by (auto simp: position_Some_iff[OF dist])
  have "\<not> m < length fc" using m(2) fresh[OF v(1)] v(2) by (auto simp: nth_append)
  then have j: "m - length fc < length (blocks c)" "block_hash (blocks c ! (m - length fc)) = x"
    using m by (auto simp: nth_append)
  then have "v = blocks c ! (m - length fc)" using set_wf_same[OF wf d c v(1) nth_mem[OF j(1)]] v(2) by simp
  then have "fst v = ht m" using chain_wf_height(1)[OF wfc j(1)] \<open>\<not> m < length fc\<close> by simp
  then show "h = ht m" using h chain_wf_contains(2)[OF wfd v(1)] v(2) by simp
qed

lemma published_view:
  assumes wf: "set_wf (length fc) p (best # sides)"
    and fresh: "\<And>c v. c \<in> set (best # sides) \<Longrightarrow> v \<in> set (blocks c) \<Longrightarrow> block_hash v \<notin> fst ` set fc"
    and dist: "distinct (map fst fc)" and room: "length fc + length (blocks best) < 2 ^ 31"
    and db: "db_holds d (fc @ map snd (take k (blocks best))) (length fc + k)" "k \<le> length (blocks best)"
  shows "chain_view \<lparr>chain_iter = best # sides, db = d\<rparr> (fc @ map snd (blocks best))"
proof -
  let ?bc = "fc @ map snd (blocks best)"
  have best: "chain_wf (length fc) p best" using set_wf_memberD(1)[OF wf] by simp
  have "set (map fst fc) \<inter> set (map fst (map snd (blocks best))) = {}"
  proof (rule ccontr)
    assume "\<not> ?thesis"
    then obtain y where y: "y \<in> set (map fst fc)" "y \<in> set (map fst (map snd (blocks best)))" by blast
    then have "y \<in> block_hash ` set (blocks best)" by (simp add: image_image)
    then obtain v where "y = block_hash v" "v \<in> set (blocks best)" by (rule imageE)
    then show False using fresh[of best v] y(1) by simp
  qed
  moreover have "distinct (map fst (map snd (blocks best)))" using best by (simp add: chain_wf_def comp_def)
  ultimately have all: "distinct (map fst ?bc)" using dist by (simp only: map_append distinct_append)
  have "?bc = (fc @ map snd (take k (blocks best))) @ map snd (drop k (blocks best))"
    by (simp flip: map_append)
  then have "db_holds d ?bc (length fc + k)"
    using db_holds_append[of d "fc @ map snd (take k (blocks best))" "map snd (drop k (blocks best))"] db all
    by (simp flip: map_append)
  moreover have "list_all (agrees_with ?bc) sides"
    unfolding list_all_iff
  proof
    fix c assume "c \<in> set sides"
    then have c: "c \<in> set (best # sides)" by simp
    show "agrees_with ?bc c" by (rule agrees_with_wf[OF wf _ c fresh[OF c] all]) simp_all
  qed
  ultimately have "holds \<lparr>chain_iter = best # sides, db = d\<rparr> ?bc"
    using chain_holds_wf[OF best all] room all unfolding holds_def by auto
  then show ?thesis by (rule holds_chain_view)
qed



lemma published_after_finalization:
  assumes inv: "task_inv fc w" and c: "c \<in> set (chain_set (non_finalized_state w))"
    and i: "i < length (blocks c)" and x: "x = block_hash (blocks c ! i)"
    and room: "\<And>d. d \<in> set (chain_set (non_finalized_state w)) \<Longrightarrow> length fc + length (blocks d) < 2 ^ 31"
    and kept: "filter (\<lambda>c. contains_block_hash c x) (chain_set (non_finalized_state w)) = best # sides"
    and db: "db_holds d (fc @ map snd (take (Suc i) (blocks c))) (length fc + Suc i)"
  shows "chain_view \<lparr>chain_iter = best # sides, db = d\<rparr> (fc @ map snd (blocks best))"
proof (rule published_view)
  note I = task_invD[OF inv]
  have member: "d \<in> set (chain_set (non_finalized_state w))" "contains_block_hash d x" if "d \<in> set (best # sides)" for d
    using that unfolding kept[symmetric] by auto
  have sh: "Suc i \<le> length (blocks best)" "take (Suc i) (blocks best) = take (Suc i) (blocks c)"
    using shared_prefix[OF I(6) c member(1) i, of best] member(2)[of best] x by auto
  show "set_wf (length fc) (fst (last fc)) (best # sides)"
    unfolding kept[symmetric] by (rule set_wf_filter[OF I(6)])
  show "block_hash v \<notin> fst ` set fc" if "d \<in> set (best # sides)" "v \<in> set (blocks d)" for d v
    by (rule I(7)[OF member(1)[OF that(1)] that(2)])
  show "length fc + length (blocks best) < 2 ^ 31" by (rule room[OF member(1)]) simp
  show "db_holds d (fc @ map snd (take (Suc i) (blocks best))) (length fc + Suc i)" using db by (simp add: sh(2))
  show "Suc i \<le> length (blocks best)" "distinct (map fst fc)" using sh(1) I(3) by auto
qed

text \<open>C8: Crosslink finalization of a block that some non-finalized chain contains succeeds. The finalized
  chain grows by exactly the blocks up to that block, which becomes its tip; every remaining chain
  continues from it and comes from a chain that contained it; and readers of the published state see one
  consistent chain, the best of those.\<close>

theorem crosslink_finalizes_block:
  assumes inv: "task_inv fc w" and ok: "storage_ok k" and c: "c \<in> set (chain_set (non_finalized_state w))"
    and i: "i < length (blocks c)" and x: "x = block_hash (blocks c ! i)"
    and room: "\<And>d. d \<in> set (chain_set (non_finalized_state w)) \<Longrightarrow> length fc + length (blocks d) < 2 ^ 31"
  shows "\<exists>w' best. write_message k (CrosslinkFinalized x) w = Some (CrosslinkResult (Inr x), w') \<and>
    db_tip (finalized_state w') = Some (ht (length fc + i), x) \<and>
    task_inv (fc @ map snd (take (Suc i) (blocks c))) w' \<and>
    (\<forall>d\<in>set (chain_set (non_finalized_state w')). \<exists>e\<in>set (chain_set (non_finalized_state w)).
      contains_block_hash e x \<and> blocks d = drop (Suc i) (blocks e)) \<and>
    best \<in> set (chain_set (non_finalized_state w)) \<and> contains_block_hash best x \<and>
    chain_view \<lparr>chain_iter = chain_set (non_finalized_state_sender w'), db = finalized_state w'\<rparr>
      (fc @ map snd (blocks best))"
proof -
  let ?kept = "filter (\<lambda>c. contains_block_hash c x) (chain_set (non_finalized_state w))"
  let ?new = "map snd (take (Suc i) (blocks c))"
  note I = task_invD[OF inv]
  obtain w' where w': "write_crosslink_finalized k x w = Some (Inr x, w')" "task_inv (fc @ ?new) w'"
    "map blocks (chain_set (non_finalized_state w')) =
      filter (\<lambda>bs. bs \<noteq> []) (map (\<lambda>c. drop (Suc i) (blocks c)) ?kept)"
    "chain_set (non_finalized_state_sender w') = ?kept"
    using write_crosslink_finalized_inv[OF inv ok c i x] by blast
  have "c \<in> set ?kept" using c chain_wf_contains(1)[OF set_wf_memberD(1)[OF I(6) c]] i x by auto
  then obtain best sides where kept: "?kept = best # sides" by (cases ?kept) auto
  have member: "d \<in> set (chain_set (non_finalized_state w))" "contains_block_hash d x" if "d \<in> set (best # sides)" for d
    using that unfolding kept[symmetric] by auto
  note db = task_invD(4)[OF w'(2)]
  have "last ?new = snd (blocks c ! i)" using i by (simp add: take_Suc_conv_app_nth)
  then have tip: "db_tip (finalized_state w') = Some (ht (length fc + i), x)"
    using db_holds_tip[OF db] i x by (simp add: take_Suc_conv_app_nth)
  have origin: "\<exists>e\<in>set (chain_set (non_finalized_state w)). contains_block_hash e x \<and> blocks d = drop (Suc i) (blocks e)"
    if "d \<in> set (chain_set (non_finalized_state w'))" for d
  proof -
    have "blocks d \<in> set (map blocks (chain_set (non_finalized_state w')))" using that by simp
    then show ?thesis unfolding w'(3) by auto
  qed
  have "db_holds (finalized_state w') (fc @ ?new) (length fc + Suc i)" using db i by simp
  from published_after_finalization[OF inv c i x room kept this] have "chain_view \<lparr>chain_iter = chain_set (non_finalized_state_sender w'), db = finalized_state w'\<rparr>
      (fc @ map snd (blocks best))"
    unfolding w'(4) kept .
  then show ?thesis
    using w'(1,2) tip origin member[of best]
    by (intro exI[of _ w'] exI[of _ best]) (simp add: write_message_def)
qed

definition sample_fc :: pow_chain where
  "sample_fc = map snd [sample_block 0 255 0, sample_block 1 0 1, sample_block 2 1 2]"

definition sample_db :: ZebraDb where
  "sample_db = (db (state_of sample_fc 3))\<lparr>transactions_by_height_cf := (\<lambda>_. [])\<rparr>"

definition sample_worker :: WriteBlockWorkerTask where
  "sample_worker = spawn_worker sample_db \<lparr>chain_set = sample_set, invalidated_blocks = []\<rparr>"

lemma sample_fc_simps:
  "length sample_fc = 3" "map fst sample_fc = [replicate 32 0, replicate 32 1, replicate 32 2]"
  "fst (last sample_fc) = replicate 32 2"
  by (simp_all add: sample_fc_def)

lemma sample_fc_transactions: "i < 3 \<Longrightarrow> transactions (snd (sample_fc ! i)) = []"
  by (auto simp: sample_fc_def sample_block_def less_Suc_eq numeral_3_eq_3)

lemma sample_worker_inv: "task_inv sample_fc sample_worker"
  unfolding task_inv_def
proof (intro conjI allI impI)
  show "db_holds (finalized_state sample_worker) sample_fc (length sample_fc)"
    unfolding sample_fc_simps(1)
    using sample_fc_transactions
    by (simp add: sample_worker_def spawn_worker_def sample_db_def db_holds_def state_of_def sample_fc_simps(1))
  show "set_wf (length sample_fc) (fst (last sample_fc)) (chain_set (non_finalized_state sample_worker))"
    unfolding sample_fc_simps by (simp add: sample_worker_def spawn_worker_def sample_set_wf)
  show "distinct (map fst sample_fc)" unfolding sample_fc_simps by simp
  show "\<forall>c\<in>set (chain_set (non_finalized_state sample_worker)). \<forall>v\<in>set (blocks c).
      block_hash v \<notin> fst ` set sample_fc"
    unfolding set_map[symmetric] sample_fc_simps
    by (simp add: sample_worker_def spawn_worker_def sample_set_def blocks_sample_fork)
qed (use sample_fc_simps(1) in \<open>auto simp: sample_worker_def spawn_worker_def sample_db_def\<close>)

lemma empty_checks_ok: "storage_ok empty_checks"
  by (simp add: storage_ok_def empty_checks_def)

theorem crosslink_finalizes_block_witness:
  "\<exists>w'. write_message empty_checks (CrosslinkFinalized (replicate 32 10)) sample_worker =
      Some (CrosslinkResult (Inr (replicate 32 10)), w') \<and>
    db_tip (finalized_state w') = Some (ht 3, replicate 32 10)"
proof -
  let ?c = "sample_fork [sample_block 3 2 10, sample_block 4 10 12]"
  have c: "?c \<in> set (chain_set (non_finalized_state sample_worker))" "0 < length (blocks ?c)"
    "replicate 32 10 = block_hash (blocks ?c ! 0)"
    and room: "d \<in> set (chain_set (non_finalized_state sample_worker)) \<Longrightarrow>
      length sample_fc + length (blocks d) < 2 ^ 31" for d
    unfolding sample_fc_simps(1)
    by (auto simp: sample_worker_def spawn_worker_def sample_set_def blocks_sample_fork)
  from crosslink_finalizes_block[OF sample_worker_inv empty_checks_ok c room] show ?thesis
    unfolding sample_fc_simps(1) by auto
qed


section \<open>The reorg limit\<close>

lemma finalized_set_best:
  "length (blocks best) \<noteq> 1 \<Longrightarrow> \<exists>rest. finalized_set (best # sides) = drop_root best # rest"
  by (simp add: finalized_set_def)

lemma finalize_past_reorg_limit_inv:
  assumes "task_inv fc w" "storage_ok k" "chain_set (non_finalized_state w) = best # sides"
  shows "\<exists>w' vs. finalize_past_reorg_limit k w = Some w' \<and> task_inv (fc @ map snd vs) w' \<and>
    (\<exists>best' sides'. chain_set (non_finalized_state w') = best' # sides' \<and> blocks best = vs @ blocks best' \<and>
      length (blocks best') \<le> MAX_BLOCK_REORG_HEIGHT \<and> (vs = [] \<or> length (blocks best') = MAX_BLOCK_REORG_HEIGHT)) \<and>
    (\<forall>c\<in>set (chain_set (non_finalized_state w')). \<forall>v\<in>set (blocks c).
      \<exists>d\<in>set (chain_set (non_finalized_state w)). v \<in> set (blocks d))"
  using assms(1,3)
proof (induction "length (blocks best)" arbitrary: fc w best sides)
  case 0
  then have "best_chain_len (non_finalized_state w) = Some 0" by (simp add: best_chain_len_def)
  then have "finalize_past_reorg_limit k w = Some w" by (subst finalize_past_reorg_limit.simps) simp
  then show ?case using 0 by (intro exI[of _ w] exI[of _ "[]"]) auto
next
  case (Suc n)
  have len: "best_chain_len (non_finalized_state w) = Some (Suc n)" using Suc.hyps(2) Suc.prems(2) by (simp add: best_chain_len_def)
  show ?case
  proof (cases "MAX_BLOCK_REORG_HEIGHT < Suc n")
    case False
    then have "finalize_past_reorg_limit k w = Some w" using len by (subst finalize_past_reorg_limit.simps) simp
    then show ?thesis using Suc.prems Suc.hyps(2) False by (intro exI[of _ w] exI[of _ "[]"]) auto
  next
    case True
    obtain v bs where bs: "blocks best = v # bs" "length bs = n" using Suc.hyps(2) by (cases "blocks best") auto
    have n: "length (blocks best) \<noteq> 1" "MAX_BLOCK_REORG_HEIGHT \<le> n"
      using True Suc.hyps(2) by (simp_all add: MAX_BLOCK_REORG_HEIGHT_def)
    obtain w1 where w1: "finalize_root k w = Some w1" "task_inv (fc @ [snd (hd (blocks best))]) w1"
      "chain_set (non_finalized_state w1) = finalized_set (best # sides)"
      "non_finalized_state_sender w1 = non_finalized_state_sender w"
      using finalize_root_inv[OF Suc.prems assms(2)] by blast
    obtain rest where rest: "finalized_set (best # sides) = drop_root best # rest" using finalized_set_best[OF n(1)] by blast
    have "n = length (blocks (drop_root best))" "blocks (drop_root best) = bs" by (simp_all add: drop_root_def bs)
    from Suc.hyps(1)[OF this(1) w1(2) w1(3)[unfolded rest]] this(2) obtain w' vs best' sides' where
      w': "finalize_past_reorg_limit k w1 = Some w'" "task_inv ((fc @ [snd (hd (blocks best))]) @ map snd vs) w'"
      "chain_set (non_finalized_state w') = best' # sides'" "bs = vs @ blocks best'"
      "length (blocks best') \<le> MAX_BLOCK_REORG_HEIGHT" "vs = [] \<or> length (blocks best') = MAX_BLOCK_REORG_HEIGHT"
      "\<forall>c\<in>set (chain_set (non_finalized_state w')). \<forall>v\<in>set (blocks c).
        \<exists>d\<in>set (chain_set (non_finalized_state w1)). v \<in> set (blocks d)" by metis
    have "finalize_past_reorg_limit k w = Some w'" using len True w1(1) w'(1) by (subst finalize_past_reorg_limit.simps) simp
    moreover have "length (blocks best') = MAX_BLOCK_REORG_HEIGHT" using w'(4-6) bs(2) n(2) by auto
    moreover have "task_inv (fc @ map snd (v # vs)) w'" using w'(2) bs(1) by simp
    moreover have "blocks best = (v # vs) @ blocks best'" using bs(1) w'(4) by simp
    moreover have "\<exists>d\<in>set (chain_set (non_finalized_state w)). u \<in> set (blocks d)"
      if u: "c \<in> set (chain_set (non_finalized_state w'))" "u \<in> set (blocks c)" for c u
    proof -
      obtain d where "d \<in> set (finalized_set (best # sides))" "u \<in> set (blocks d)"
        using w'(7) u unfolding w1(3) by blast
      from finalized_set_fresh(2)[OF task_invD(6)[OF Suc.prems(1), unfolded Suc.prems(2)] this]
      show ?thesis unfolding Suc.prems(2) .
    qed
    ultimately show ?thesis using w'(3) by (intro exI[of _ w'] exI[of _ "v # vs"]) auto
  qed
qed


section \<open>Committing a block\<close>

text \<open>Stored blocks state their own height in the coinbase transaction.\<close>

definition heights_known :: "Checks \<Rightarrow> pow_chain \<Rightarrow> WriteBlockWorkerTask \<Rightarrow> bool" where
  "heights_known k fc w \<longleftrightarrow>
     (\<forall>j<length fc. coinbase_height k (snd (fc ! j)) = Some (ht j)) \<and>
     (\<forall>c\<in>set (chain_set (non_finalized_state w)). \<forall>v\<in>set (blocks c). coinbase_height k (snd (snd v)) = Some (fst v))"

lemma find_chain_containing:
  assumes wf: "set_wf n p (chain_set s)"
  shows "find_chain (\<lambda>c. contains_block_hash c x) s = None \<Longrightarrow> c \<in> set (chain_set s) \<Longrightarrow>
      v \<in> set (blocks c) \<Longrightarrow> block_hash v \<noteq> x"
    and "find_chain (\<lambda>c. contains_block_hash c x) s = Some c \<Longrightarrow>
      \<exists>i. c \<in> set (chain_set s) \<and> i < length (blocks c) \<and> x = block_hash (blocks c ! i)"
proof -
  show "block_hash v \<noteq> x" if "find_chain (\<lambda>c. contains_block_hash c x) s = None" "c \<in> set (chain_set s)"
    "v \<in> set (blocks c)"
  proof -
    have "\<not> contains_block_hash c x" using that(1,2) unfolding find_chain_def find_None_iff by blast
    then show ?thesis using that(3) chain_wf_contains(1)[OF set_wf_memberD(1)[OF wf that(2)]] by blast
  qed
  assume "find_chain (\<lambda>c. contains_block_hash c x) s = Some c"
  then have c: "c \<in> set (chain_set s)" "contains_block_hash c x" by (auto simp: find_chain_def find_Some_iff)
  then obtain v where "v \<in> set (blocks c)" "block_hash v = x"
    using chain_wf_contains(1)[OF set_wf_memberD(1)[OF wf c(1)]] by blast
  then show "\<exists>i. c \<in> set (chain_set s) \<and> i < length (blocks c) \<and> x = block_hash (blocks c ! i)"
    using c(1) by (auto simp: in_set_conv_nth)
qed

lemma chain_block_at:
  assumes wf: "chain_wf n p c" and i: "i < length (blocks c)"
  shows "Chain_block c (OfHeight (ht (n + i))) = Some (snd (snd (blocks c ! i)))"
proof -
  have "map height_nat (map fst (blocks c)) = [n..<n + length (blocks c)]"
    by (rule nth_equalityI) (simp_all add: chain_wf_height(2)[OF wf])
  then have "distinct (map height_nat (map fst (blocks c)))" by simp
  then have "distinct (map fst (blocks c))" unfolding distinct_map[of height_nat] by blast
  moreover have "(ht (n + i), snd (blocks c ! i)) \<in> set (blocks c)"
    using nth_mem[OF i] chain_wf_height(1)[OF wf i] by (metis prod.collapse)
  ultimately show ?thesis by (simp add: Chain_block_def height_or_else_def)
qed

lemma db_block_at:
  assumes "db_holds d fc (length fc)" "j < length fc" "length fc \<le> 2 ^ 31"
  shows "db_block d (OfHeight (ht j)) = Some (snd (fc ! j))"
proof -
  have "height_nat (ht j) = j" using assms(2,3) by (intro height_nat_ht) simp
  then show ?thesis
    using assms(1,2) by (simp add: db_block_def db_block_header_def height_or_else_def db_holds_def del: Height.sel)
qed

text \<open>A block that passes the first checks is one above its parent.\<close>

lemma initial_contextual_height:
  assumes valid: "initial_contextual_validity k d s v = Some None"
    and parent: "iter_height (any_chain_ancestor_iter s d (prev_hash v)) = Some h"
      "read_block (iter_chain (any_chain_ancestor_iter s d (prev_hash v))) d (OfHeight h) = Some b"
      "coinbase_height k b = Some h'"
  shows "height_add h' 1 = Some (fst v)"
proof -
  let ?it = "any_chain_ancestor_iter s d (prev_hash v)"
  have span: "POW_ADJUSTMENT_BLOCK_SPAN = Suc 27"
    by (simp add: POW_ADJUSTMENT_BLOCK_SPAN_def POW_AVERAGING_WINDOW_def POW_MEDIAN_BLOCK_SPAN_def)
  obtain it' where "yield_by_height d ?it = Some (b, it')"
    using parent(1,2) by (simp add: yield_by_height_def Let_def)
  then obtain rest where "iter_take POW_ADJUSTMENT_BLOCK_SPAN d ?it = b # rest"
    unfolding span iter_take.simps by (simp only: option.case prod.case)
  then have "\<exists>t. block_is_valid_for_recent_chain k v t (b # rest) = Some None"
    using valid unfolding initial_contextual_validity_def by (auto split: bind_splits option.splits)
  then show ?thesis
    using parent(3) unfolding block_is_valid_for_recent_chain_def
    by (auto simp: height_one_more_than_parent_height_def split: bind_splits option.splits if_splits)
qed

lemma parent_of_finalized_tip:
  assumes inv: "task_inv fc w" and heights: "heights_known k fc w" and parent: "prev_hash v = fst (last fc)"
    and valid: "initial_contextual_validity k (finalized_state w) (non_finalized_state w) v = Some None"
  shows "fst v = ht (length fc)" "length fc < 2 ^ 31"
proof -
  let ?d = "finalized_state w" and ?n = "length fc"
  note I = task_invD[OF inv]
  have last: "last fc = fc ! (?n - 1)" "?n - 1 < ?n" "Suc (?n - 1) = ?n" using I(1) by (auto simp: last_conv_nth)
  have "find_chain (\<lambda>c. contains_block_hash c (fst (last fc))) (non_finalized_state w) = None"
  proof (rule ccontr)
    assume "\<not> ?thesis"
    then obtain c i where "c \<in> set (chain_set (non_finalized_state w))" "i < length (blocks c)"
      "fst (last fc) = block_hash (blocks c ! i)"
      using find_chain_containing(2)[OF I(6)] by blast
    then show False using I(7)[OF _ nth_mem, of c i] imageI[OF last_in_set[OF I(1)], of fst] by simp
  qed
  moreover have "position fc (fst (last fc)) = Some (?n - 1)" using last by (simp add: position_Some_iff[OF I(3)])
  then have "height_by_hash None ?d (fst (last fc)) = Some (ht (?n - 1))"
    using I(4) last(2) by (simp add: height_by_hash_def or_else_def db_height_def db_holds_def)
  moreover have "read_block None ?d (OfHeight (ht (?n - 1))) = Some (snd (last fc))"
    using db_block_at[OF I(4) last(2) I(2)] last(1) by (simp add: read_block_def or_else_def)
  moreover have "coinbase_height k (snd (last fc)) = Some (ht (?n - 1))"
    using heights last unfolding heights_known_def by metis
  ultimately have "height_add (ht (?n - 1)) 1 = Some (fst v)"
    using initial_contextual_height[OF valid, of "ht (?n - 1)" "snd (last fc)"]
    unfolding parent any_chain_ancestor_iter_def Let_def by simp
  then show "fst v = ht ?n" "?n < 2 ^ 31" using height_add_one[of "?n - 1"] I(2) last(3) by (auto split: if_splits)
qed


lemma parent_in_chain:
  assumes inv: "task_inv fc w" and heights: "heights_known k fc w"
    and c: "c \<in> set (chain_set (non_finalized_state w))" "i < length (blocks c)" "prev_hash v = block_hash (blocks c ! i)"
    and valid: "initial_contextual_validity k (finalized_state w) (non_finalized_state w) v = Some None"
  shows "fst v = ht (length fc + Suc i)" "length fc + Suc i < 2 ^ 31"
proof -
  let ?s = "non_finalized_state w" and ?d = "finalized_state w" and ?n = "length fc"
  note I = task_invD[OF inv]
  obtain e where e: "find_chain (\<lambda>c. contains_block_hash c (prev_hash v)) ?s = Some e"
    using find_chain_containing(1)[OF I(6) _ c(1) nth_mem[OF c(2)]] c(3) by fastforce
  then have mem: "e \<in> set (chain_set ?s)" "contains_block_hash e (prev_hash v)"
    by (auto simp: find_chain_def find_Some_iff)
  note wfe = set_wf_memberD(1)[OF I(6) mem(1)]
  have sh: "i < length (blocks e)" "take (Suc i) (blocks e) = take (Suc i) (blocks c)"
    using shared_prefix[OF I(6) c(1) mem(1) c(2)] mem(2) c(3) by auto
  then have same: "blocks e ! i = blocks c ! i" by (metis lessI nth_take)
  then have "chain_height_by_hash e (prev_hash v) = Some (ht (?n + i))"
    using chain_wf_contains(2)[OF wfe nth_mem[OF sh(1)]] chain_wf_height(1)[OF wfe sh(1)] c(3) by simp
  then have "iter_height (any_chain_ancestor_iter ?s ?d (prev_hash v)) = Some (ht (?n + i))"
    by (simp add: any_chain_ancestor_iter_def e height_by_hash_def Chain_height_by_hash_def or_else_def)
  moreover have "read_block (iter_chain (any_chain_ancestor_iter ?s ?d (prev_hash v))) ?d (OfHeight (ht (?n + i))) =
      Some (snd (snd (blocks e ! i)))"
    by (simp add: any_chain_ancestor_iter_def e Let_def read_block_def chain_block_at[OF wfe sh(1)] or_else_def
        del: of_nat_add)
  moreover have "coinbase_height k (snd (snd (blocks e ! i))) = Some (fst (blocks e ! i))"
    using heights mem(1) nth_mem[OF sh(1)] unfolding heights_known_def by blast
  ultimately have "height_add (ht (?n + i)) 1 = Some (fst v)"
    using initial_contextual_height[OF valid] chain_wf_height(1)[OF wfe sh(1)] by metis
  moreover have "?n + i < 2 ^ 31" using wfe sh(1) unfolding chain_wf_def by linarith
  ultimately show "fst v = ht (?n + Suc i)" "?n + Suc i < 2 ^ 31"
    using height_add_one[of "?n + i"] by (auto split: if_splits)
qed

lemma parent_chain_unknown:
  assumes "set_wf n p (chain_set s)" "find_chain (\<lambda>c. contains_block_hash c x) s = None"
  shows "parent_chain x s = Some (Inl NotReadyToBeCommitted)"
proof -
  have "first_fork cs x = Some None" if "\<And>c. c \<in> set cs \<Longrightarrow> chain_height_by_hash c x = None" for cs
    using that by (induction cs) (auto simp: Chain_fork_def)
  moreover have "chain_height_by_hash c x = None" if "c \<in> set (chain_set s)" for c
    using assms(2) that unfolding find_chain_def find_None_iff contains_block_hash_def by blast
  moreover have "find (\<lambda>c. block_hash (last (blocks c)) = x) (chain_set s) = None"
    using find_chain_containing(1)[OF assms] set_wf_memberD(2)[OF assms(1)] last_in_set
    unfolding find_None_iff by blast
  ultimately show ?thesis
    using find_tip_wf[of "chain_set s" x] set_wf_memberD(2)[OF assms(1)] by (simp add: parent_chain_def)
qed


lemma initial_contextual_returns:
  assumes inv: "task_inv fc w" and heights: "heights_known k fc w"
  shows "\<exists>r. initial_contextual_validity k (finalized_state w) (non_finalized_state w) v = Some r"
proof -
  let ?s = "non_finalized_state w" and ?d = "finalized_state w" and ?n = "length fc"
  let ?it = "any_chain_ancestor_iter ?s ?d (prev_hash v)"
  note I = task_invD[OF inv]
  have tip: "map_option fst (db_tip ?d) = Some (ht (?n - 1))" using db_holds_tip[OF I(4,1)] by simp
  have first: "\<exists>h'. coinbase_height k b = Some h'"
    if b: "iter_height ?it = Some h" "read_block (iter_chain ?it) ?d (OfHeight h) = Some b" for h b
  proof (cases "find_chain (\<lambda>c. contains_block_hash c (prev_hash v)) ?s")
    case None
    then have "height_by_hash_cf ?d (prev_hash v) = Some h" "db_block ?d (OfHeight h) = Some b"
      using b by (auto simp: any_chain_ancestor_iter_def Let_def height_by_hash_def read_block_def or_else_def db_height_def)
    then obtain j where j: "j < ?n" "h = ht j" using I(4) by (auto simp: db_holds_def split: option.splits if_splits)
    then have "b = snd (fc ! j)" using db_block_at[OF I(4) j(1) I(2)] \<open>db_block ?d (OfHeight h) = Some b\<close> by simp
    then show ?thesis using heights j(1) unfolding heights_known_def by blast
  next
    case (Some c)
    obtain i where i: "c \<in> set (chain_set ?s)" "i < length (blocks c)" "prev_hash v = block_hash (blocks c ! i)"
      using find_chain_containing(2)[OF I(6) Some] by blast
    note wfc = set_wf_memberD(1)[OF I(6) i(1)]
    have "chain_height_by_hash c (prev_hash v) = Some (ht (?n + i))"
      using chain_wf_contains(2)[OF wfc nth_mem[OF i(2)]] chain_wf_height(1)[OF wfc i(2)] i(3) by simp
    then have "h = ht (?n + i)"
      using b(1) by (simp add: any_chain_ancestor_iter_def Some Let_def height_by_hash_def Chain_height_by_hash_def or_else_def)
    then have "b = snd (snd (blocks c ! i))"
      using b(2) chain_block_at[OF wfc i(2)]
      by (simp add: any_chain_ancestor_iter_def Some Let_def read_block_def or_else_def del: of_nat_add)
    then show ?thesis using heights i(1) nth_mem[OF i(2)] unfolding heights_known_def by blast
  qed
  have "\<exists>h'. coinbase_height k b = Some h'" if "iter_take (Suc m) ?d ?it = b # rest" for m b rest
  proof -
    have "\<exists>it'. yield_by_height ?d ?it = Some (b, it')" using that by (auto split: option.splits)
    then obtain h where "iter_height ?it = Some h" "read_block (iter_chain ?it) ?d (OfHeight h) = Some b"
      by (auto simp: yield_by_height_def Let_def split: bind_splits)
    then show ?thesis by (rule first)
  qed
  moreover have "POW_ADJUSTMENT_BLOCK_SPAN = Suc 27"
    by (simp add: POW_ADJUSTMENT_BLOCK_SPAN_def POW_AVERAGING_WINDOW_def POW_MEDIAN_BLOCK_SPAN_def)
  ultimately have parent: "\<exists>h'. coinbase_height k b = Some h'"
    if "iter_take POW_ADJUSTMENT_BLOCK_SPAN ?d ?it = b # rest" for b rest
    using that by metis
  show ?thesis
  proof (cases "iter_take POW_ADJUSTMENT_BLOCK_SPAN ?d ?it")
    case Nil
    then show ?thesis
      unfolding initial_contextual_validity_def tip block_is_valid_for_recent_chain_def
      by (simp split: option.splits)
  next
    case (Cons b rest)
    from parent[OF this] obtain h' where "coinbase_height k b = Some h'" by blast
    with Cons show ?thesis
      unfolding initial_contextual_validity_def tip block_is_valid_for_recent_chain_def
      by (simp split: option.splits)
  qed
qed


definition new_block :: "Checks \<Rightarrow> pow_chain \<Rightarrow> WriteBlockWorkerTask \<Rightarrow> verified_block \<Rightarrow> bool" where
  "new_block k fc w v \<longleftrightarrow>
     block_hash v \<notin> fst ` set fc \<and>
     (\<forall>c\<in>set (chain_set (non_finalized_state w)). block_hash v \<notin> block_hash ` set (blocks c)) \<and>
     coinbase_height k (snd (snd v)) = Some (fst v) \<and>
     (\<exists>u<2 ^ 128. expect_work v = Some u \<and>
       (\<forall>c\<in>set (chain_set (non_finalized_state w)). partial_cumulative_work c + u < 2 ^ 128))"

lemma commit_non_finalized_cases:
  assumes inv: "task_inv fc w" and heights: "heights_known k fc w" and new: "new_block k fc w v"
  shows "(\<exists>e. validate_and_commit_non_finalized k (finalized_state w) (non_finalized_state w) v = Some (Inl e)) \<or>
    (\<exists>cs m. validate_and_commit_non_finalized k (finalized_state w) (non_finalized_state w) v =
        Some (Inr ((non_finalized_state w)\<lparr>chain_set := cs\<rparr>)) \<and>
      cs \<noteq> [] \<and> set_wf (length fc) (fst (last fc)) cs \<and> set cs \<subseteq> insert m (set (chain_set (non_finalized_state w))) \<and>
      (\<forall>u\<in>set (blocks m). u = v \<or> (\<exists>c\<in>set (chain_set (non_finalized_state w)). u \<in> set (blocks c))))"
proof -
  let ?s = "non_finalized_state w" and ?d = "finalized_state w"
  note I = task_invD[OF inv]
  have tip: "db_tip ?d \<noteq> None" "finalized_tip_hash ?d = fst (last fc)"
    using db_holds_tip[OF I(4,1)] by (simp_all add: finalized_tip_hash_def)
  have fresh: "c \<in> set (chain_set ?s) \<Longrightarrow> block_hash v \<notin> block_hash ` set (blocks c)" for c
    using new unfolding new_block_def by blast
  obtain u where u: "expect_work v = Some u" "u < 2 ^ 128"
    "\<And>c. c \<in> set (chain_set ?s) \<Longrightarrow> partial_cumulative_work c + u < 2 ^ 128"
    using new unfolding new_block_def by blast
  obtain r where r: "initial_contextual_validity k ?d ?s v = Some r" using initial_contextual_returns[OF inv heights] by blast
  show ?thesis
  proof (cases r)
    case (Some e)
    then show ?thesis using r by (simp add: validate_and_commit_non_finalized_def)
  next
    case None
    note valid = r[unfolded None]
    have ne: "cs \<noteq> []" if "best_of cs A" for cs A using that by (auto simp: best_of_def)
    consider "prev_hash v = fst (last fc)"
      | "prev_hash v \<noteq> fst (last fc)" "find_chain (\<lambda>c. contains_block_hash c (prev_hash v)) ?s = None"
      | c where "prev_hash v \<noteq> fst (last fc)" "find_chain (\<lambda>c. contains_block_hash c (prev_hash v)) ?s = Some c"
      by (cases "find_chain (\<lambda>c. contains_block_hash c (prev_hash v)) ?s") auto
    then show ?thesis
    proof cases
      case 1
      note h = parent_of_finalized_tip[OF inv heights 1 valid]
      have run: "validate_and_commit_non_finalized k ?d ?s v =
          commit_new_chain (context_check k) (index_update k) ?d v ?s"
        using valid 1 tip(2) by (simp add: validate_and_commit_non_finalized_def)
      show ?thesis
      proof (cases "\<exists>e. commit_new_chain (context_check k) (index_update k) ?d v ?s = Some (Inl e)")
        case True
        then show ?thesis unfolding run by (rule disjI1)
      next
        case False
        then obtain cs m A where cs: "commit_new_chain (context_check k) (index_update k) ?d v ?s = Some (Inr (?s\<lparr>chain_set := cs\<rparr>))"
          "set_wf (length fc) (fst (last fc)) cs" "blocks m = [v]" "set cs \<subseteq> insert m (set (chain_set ?s))" "best_of cs A"
          using commit_new_chain_wf[OF I(6) tip(1) 1 h fresh u(1,2), of "context_check k" "index_update k"] by blast
        have "x = v \<or> (\<exists>c\<in>set (chain_set ?s). x \<in> set (blocks c))" if "x \<in> set (blocks m)" for x
          using that unfolding cs(3) by simp
        then show ?thesis unfolding run by (intro disjI2 exI[of _ cs] exI[of _ m] conjI cs ne[OF cs(5)]) blast
      qed
    next
      case 2
      then show ?thesis
        using valid tip(2) parent_chain_unknown[OF I(6) 2(2)]
        by (simp add: validate_and_commit_non_finalized_def commit_block_def)
    next
      case (3 c)
      obtain i where i: "c \<in> set (chain_set ?s)" "i < length (blocks c)" "prev_hash v = block_hash (blocks c ! i)"
        using find_chain_containing(2)[OF I(6) 3(2)] by blast
      note h = parent_in_chain[OF inv heights i valid]
      have run: "validate_and_commit_non_finalized k ?d ?s v = commit_block (context_check k) (index_update k) v ?s"
        using valid 3(1) tip(2) by (simp add: validate_and_commit_non_finalized_def)
      have old: "x = v \<or> (\<exists>c\<in>set (chain_set ?s). x \<in> set (blocks c))"
        if "x \<in> set (take (Suc i) (blocks c) @ [v])" for x
        using that i(1) by (auto dest: in_set_takeD)
      show ?thesis
      proof (cases "\<exists>e. commit_block (context_check k) (index_update k) v ?s = Some (Inl e)")
        case True
        then show ?thesis unfolding run by (rule disjI1)
      next
        case False
        then obtain cs m A where cs: "commit_block (context_check k) (index_update k) v ?s = Some (Inr (?s\<lparr>chain_set := cs\<rparr>))"
          "set_wf (length fc) (fst (last fc)) cs" "blocks m = take (Suc i) (blocks c) @ [v]" "set cs \<subseteq> insert m (set (chain_set ?s))" "best_of cs A"
          using commit_block_wf[OF I(6) i h fresh u(1) u(3)[OF i(1)], of "context_check k" "index_update k"] by blast
        have "x = v \<or> (\<exists>c\<in>set (chain_set ?s). x \<in> set (blocks c))" if "x \<in> set (blocks m)" for x
          using that old[of x] unfolding cs(3) by simp
        then show ?thesis unfolding run by (intro disjI2 exI[of _ cs] exI[of _ m] conjI cs ne[OF cs(5)]) blast
      qed
    qed
  qed
qed


lemma update_latest_chain_channels_ok:
  assumes "chain_set (non_finalized_state w) = c # cs" "blocks c \<noteq> []"
  shows "\<exists>h. update_latest_chain_channels w = Some (h, w\<lparr>non_finalized_state_sender := non_finalized_state w\<rparr>)"
  using assms unfolding update_latest_chain_channels_def by (cases "blocks c") auto

lemma heights_known_append:
  assumes inv: "task_inv fc w" and heights: "heights_known k fc w" and c: "c \<in> set (chain_set (non_finalized_state w))"
    and vs: "blocks c = vs @ rest" and old: "\<forall>d\<in>set (chain_set (non_finalized_state w')). \<forall>v\<in>set (blocks d).
      \<exists>e\<in>set (chain_set (non_finalized_state w)). v \<in> set (blocks e)"
  shows "heights_known k (fc @ map snd vs) w'"
  unfolding heights_known_def
proof (intro conjI allI impI ballI)
  note wfc = set_wf_memberD(1)[OF task_invD(6)[OF inv] c]
  fix j assume "j < length (fc @ map snd vs)"
  show "coinbase_height k (snd ((fc @ map snd vs) ! j)) = Some (ht j)"
  proof (cases "j < length fc")
    case True
    then show ?thesis using heights unfolding heights_known_def by (simp add: nth_append)
  next
    case False
    let ?i = "j - length fc"
    have i: "?i < length vs" "?i < length (blocks c)" using \<open>j < length (fc @ map snd vs)\<close> False vs by auto
    then have "coinbase_height k (snd (snd (blocks c ! ?i))) = Some (fst (blocks c ! ?i))"
      using heights c nth_mem[OF i(2)] unfolding heights_known_def by blast
    moreover have "blocks c ! ?i = vs ! ?i" using vs i(1) by (simp add: nth_append)
    ultimately show ?thesis
      using chain_wf_height(1)[OF wfc i(2)] False i(1) by (simp add: nth_append del: of_nat_add)
  qed
next
  fix d v assume "d \<in> set (chain_set (non_finalized_state w'))" "v \<in> set (blocks d)"
  then obtain e where "e \<in> set (chain_set (non_finalized_state w))" "v \<in> set (blocks e)" using old by blast
  then show "coinbase_height k (snd (snd v)) = Some (fst v)" using heights unfolding heights_known_def by blast
qed

text \<open>C10: A block whose hash is new and whose work is valid leaves the task in a well-formed state, whatever
  the checks decide. If it is refused, both parts of the state are as before. If it is accepted, the
  caller gets its hash, the loop that finalizes blocks past the reorg limit ends, and the best chain is
  at most 99 blocks long afterwards.\<close>

theorem commit_keeps_task_invariant:
  assumes inv: "task_inv fc w" and heights: "heights_known k fc w" and ok: "storage_ok k" and new: "new_block k fc w v"
  shows "\<exists>r w' fc'. write_message k (Commit v) w = Some (CommitResult r, w') \<and>
    task_inv fc' w' \<and> heights_known k fc' w' \<and> prefix fc fc' \<and>
    (case r of
       Inl e \<Rightarrow> finalized_state w' = finalized_state w \<and> non_finalized_state w' = non_finalized_state w
     | Inr x \<Rightarrow> x = block_hash v \<and>
         (\<exists>n. best_chain_len (non_finalized_state w') = Some n \<and> n \<le> MAX_BLOCK_REORG_HEIGHT))"
proof -
  let ?s = "non_finalized_state w"
  note I = task_invD[OF inv]
  define result where "result = (case map_of (parent_error_map w) (prev_hash v) of
      Some e \<Rightarrow> Some (Inl e) | None \<Rightarrow> validate_and_commit_non_finalized k (finalized_state w) ?s v)"
  show ?thesis
  proof (cases "\<exists>e. result = Some (Inl e)")
    case True
    then obtain e where e: "result = Some (Inl e)" by blast
    define w' where "w' = w\<lparr>parent_error_map := (let m = map_insert (block_hash v) e (parent_error_map w) in
      if length m > PARENT_ERROR_MAP_LIMIT then tl m else m)\<rparr>"
    have same: "finalized_state w' = finalized_state w" "non_finalized_state w' = ?s" by (simp_all add: w'_def)
    have "write_message k (Commit v) w = Some (CommitResult (Inl e), w')"
      unfolding write_message_def write_commit_def NonFinalizedWriteMessage.case e[unfolded result_def] w'_def
      by (simp add: Let_def)
    moreover have "task_inv fc w'" using inv unfolding task_inv_def same .
    moreover have "heights_known k fc w'" using heights unfolding heights_known_def same .
    ultimately show ?thesis using same by (intro exI[of _ "Inl e"] exI[of _ w'] exI[of _ fc]) simp
  next
    case False
    then obtain cs m where cs: "result = Some (Inr (?s\<lparr>chain_set := cs\<rparr>))" "cs \<noteq> []"
      "set_wf (length fc) (fst (last fc)) cs" "set cs \<subseteq> insert m (set (chain_set ?s))"
      "\<forall>u\<in>set (blocks m). u = v \<or> (\<exists>c\<in>set (chain_set ?s). u \<in> set (blocks c))"
      using commit_non_finalized_cases[OF inv heights new] unfolding result_def
      by (cases "map_of (parent_error_map w) (prev_hash v)") (simp_all, blast)
    define w0 where "w0 = w\<lparr>non_finalized_state := ?s\<lparr>chain_set := cs\<rparr>\<rparr>"
    define w1 where "w1 = w0\<lparr>non_finalized_state_sender := non_finalized_state w0\<rparr>"
    have w1: "finalized_state w1 = finalized_state w" "chain_set (non_finalized_state w1) = cs"
      and w0: "chain_set (non_finalized_state w0) = cs" by (simp_all add: w1_def w0_def)
    have old: "u = v \<or> (\<exists>c\<in>set (chain_set ?s). u \<in> set (blocks c))" if "c \<in> set cs" "u \<in> set (blocks c)" for c u
      using that cs(4,5) by blast
    obtain best sides where best: "cs = best # sides" using cs(2) by (cases cs) auto
    have inv1: "task_inv fc w1"
      unfolding task_inv_def w1
    proof (intro conjI I(1-4) cs(3) allI impI I(5) ballI)
      show "block_hash u \<notin> fst ` set fc" if "c \<in> set cs" "u \<in> set (blocks c)" for c u
        using old[OF that] I(7) new unfolding new_block_def by blast
    qed
    have "coinbase_height k (snd (snd u)) = Some (fst u)" if "c \<in> set cs" "u \<in> set (blocks c)" for c u
      using old[OF that] heights new unfolding heights_known_def new_block_def by blast
    then have heights1: "heights_known k fc w1" using heights unfolding heights_known_def w1 by blast
    obtain h where channels: "update_latest_chain_channels w0 = Some (h, w1)"
      using update_latest_chain_channels_ok[of w0 best sides] set_wf_memberD(2)[OF cs(3), of best] best w0
      unfolding w1_def by auto
    obtain w' vs best' sides' where w': "finalize_past_reorg_limit k w1 = Some w'" "task_inv (fc @ map snd vs) w'"
      "chain_set (non_finalized_state w') = best' # sides'" "blocks best = vs @ blocks best'"
      "length (blocks best') \<le> MAX_BLOCK_REORG_HEIGHT"
      "\<forall>c\<in>set (chain_set (non_finalized_state w')). \<forall>v\<in>set (blocks c).
        \<exists>d\<in>set (chain_set (non_finalized_state w1)). v \<in> set (blocks d)"
      using finalize_past_reorg_limit_inv[OF inv1 ok, of best sides] w1(2) best by blast
    have "heights_known k (fc @ map snd vs) w'"
      by (rule heights_known_append[OF inv1 heights1 _ w'(4,6)]) (simp add: w1(2) best)
    moreover have "write_message k (Commit v) w = Some (CommitResult (Inr (block_hash v)), w')"
      unfolding write_message_def write_commit_def NonFinalizedWriteMessage.case cs(1)[unfolded result_def]
      using channels[unfolded w0_def] w'(1) by simp
    moreover have "best_chain_len (non_finalized_state w') = Some (length (blocks best'))"
      using w'(3) by (simp add: best_chain_len_def)
    ultimately show ?thesis
      using w'(2,5) by (intro exI[of _ "Inr (block_hash v)"] exI[of _ w'] exI[of _ "fc @ map snd vs"]) simp
  qed
qed


definition sample_heights :: Checks where
  "sample_heights = empty_checks\<lparr>coinbase_height := (\<lambda>b. map_option ht
     (map_of [(255, 0), (0, 1), (1, 2), (2, 3), (10, 4), (12, 5)] (hd (previous_block_hash (block_header_field b)))))\<rparr>"

theorem commit_keeps_task_invariant_witness:
  "\<exists>r w' fc'. write_message sample_heights (Commit (sample_block 5 12 13)) sample_worker = Some (CommitResult r, w') \<and>
     task_inv fc' w' \<and> prefix sample_fc fc'"
proof -
  have coinbase: "coinbase_height sample_heights (snd (snd (sample_block n q x))) =
      map_option ht (map_of [(255, 0), (0, 1), (1, 2), (2, 3), (10, 4), (12, 5)] q)" for n q x
    by (simp add: sample_heights_def sample_block_def)
  have chains: "chain_set (non_finalized_state sample_worker) = sample_set"
    by (simp add: sample_worker_def spawn_worker_def)
  have "\<forall>j<3. coinbase_height sample_heights (snd (sample_fc ! j)) = Some (ht j)"
    by (auto simp: sample_fc_def coinbase less_Suc_eq numeral_3_eq_3)
  then have heights: "heights_known sample_heights sample_fc sample_worker"
    unfolding heights_known_def chains sample_fc_simps(1) by (simp add: sample_set_def blocks_sample_fork coinbase)
  have "storage_ok sample_heights" by (simp add: storage_ok_def sample_heights_def empty_checks_def)
  moreover have "new_block sample_heights sample_fc sample_worker (sample_block 5 12 13)"
    unfolding new_block_def chains set_map[symmetric] sample_fc_simps
    by (simp add: sample_set_def blocks_sample_fork coinbase) (simp add: sample_fork_def)
  ultimately show ?thesis using commit_keeps_task_invariant[OF sample_worker_inv heights] by blast
qed


section \<open>Messages that stop the task\<close>

lemma crosslink_finalize_unknown:
  assumes "\<And>c. c \<in> set (chain_set (non_finalized_state w)) \<Longrightarrow> chain_height_by_hash c x = None"
  shows "write_message k (CrosslinkFinalized x) w =
    Some (CrosslinkResult (if db_contains_hash (finalized_state w) x then Inr x
      else Inl ''Couldn't find finalized block''), w)"
proof -
  have "find_chain (\<lambda>c. Chain_height_by_hash c x \<noteq> None) (non_finalized_state w) = None"
    using assms by (simp add: find_chain_def find_None_iff Chain_height_by_hash_def)
  then show ?thesis by (simp add: write_message_def write_crosslink_finalized_def crosslink_finalize_def)
qed

text \<open>C26: Two requests to invalidate a block stop the task instead of giving an answer: any request while
  there is no non-finalized chain, and a request for the lowest block of a well-formed set of chains.\<close>

theorem invalidate_stops_task:
  assumes "chain_set (non_finalized_state w) = [] \<or>
    (\<exists>n p. set_wf n p (chain_set (non_finalized_state w))) \<and>
    (\<exists>c\<in>set (chain_set (non_finalized_state w)). non_finalized_root_hash c = Some x)"
  shows "write_message k (Invalidate x) w = None"
  using assms
proof (elim disjE conjE exE bexE)
  assume "chain_set (non_finalized_state w) = []"
  then show ?thesis
    by (simp add: write_message_def write_invalidate_def nfs_invalidate_block_def find_chain_def
        update_latest_chain_channels_def)
next
  fix n p c
  assume "set_wf n p (chain_set (non_finalized_state w))" "c \<in> set (chain_set (non_finalized_state w))"
    "non_finalized_root_hash c = Some x"
  from invalidate_root_panics[OF this] show ?thesis by (simp add: write_message_def write_invalidate_def)
qed

theorem invalidate_stops_task_witness:
  "write_message empty_checks (Invalidate (replicate 32 10)) sample_worker = None"
proof (rule invalidate_stops_task)
  have "chain_set (non_finalized_state sample_worker) = sample_set" by (simp add: sample_worker_def spawn_worker_def)
  moreover have "hd sample_set \<in> set sample_set" "non_finalized_root_hash (hd sample_set) = Some (replicate 32 10)"
    by (simp_all add: sample_set_def non_finalized_root_hash_def blocks_sample_fork)
  ultimately show "chain_set (non_finalized_state sample_worker) = [] \<or>
      (\<exists>n p. set_wf n p (chain_set (non_finalized_state sample_worker))) \<and>
      (\<exists>c\<in>set (chain_set (non_finalized_state sample_worker)). non_finalized_root_hash c = Some (replicate 32 10))"
    using sample_set_wf by auto
qed

end
