(* ===== verification/Queued_Blocks.thy ===== *)
theory Queued_Blocks
  imports Chain_Set "HOL-Library.Multiset"
begin

text \<open>
  Blocks that wait for their parent, and the record of the blocks already sent to the write task
  (\<^verbatim>\<open>zebra-state/src/service/queued_blocks.rs\<close>). A \<^verbatim>\<open>HashMap\<close> is an association list without
  duplicate keys or a partial function, a \<^verbatim>\<open>HashSet\<close> a list without duplicates, a \<^verbatim>\<open>BTreeMap\<close> a list
  in ascending key order. Rust does not fix the order in which a hash set is traversed: the parameter
  \<open>iter\<close> lists its elements, and \<open>hash_order\<close> says that it lists each once. A result channel is a
  number. Metrics are not modelled.
\<close>

section \<open>Queued blocks\<close>

record ('o, 'u) SemanticallyVerifiedBlock =
  verified :: verified_block
  new_outputs :: "('o \<times> 'u) list"

type_synonym ('o, 'u) QueuedSemanticallyVerified = "('o, 'u) SemanticallyVerifiedBlock \<times> nat"

record ('o, 'u) QueuedBlocks =
  queued_blocks :: "(bytes \<times> ('o, 'u) QueuedSemanticallyVerified) list"
  by_parent :: "bytes \<rightharpoonup> bytes list"
  by_height :: "(Height \<times> bytes list) list"
  known_utxos :: "'o \<rightharpoonup> 'u"

abbreviation queued_hash :: "('o, 'u) QueuedSemanticallyVerified \<Rightarrow> bytes" where
  "queued_hash b \<equiv> block_hash (verified (fst b))"

abbreviation queued_height :: "('o, 'u) QueuedSemanticallyVerified \<Rightarrow> Height" where
  "queued_height b \<equiv> fst (verified (fst b))"

abbreviation queued_parent :: "('o, 'u) QueuedSemanticallyVerified \<Rightarrow> bytes" where
  "queued_parent b \<equiv> prev_hash (verified (fst b))"

definition QueuedBlocks_default :: "('o, 'u) QueuedBlocks" where
  "QueuedBlocks_default = \<lparr>queued_blocks = [], by_parent = Map.empty, by_height = [], known_utxos = Map.empty\<rparr>"

definition insert_utxos :: "('o \<times> 'u) list \<Rightarrow> ('o \<rightharpoonup> 'u) \<Rightarrow> ('o \<rightharpoonup> 'u)" where
  "insert_utxos outs m = fold (\<lambda>(outpoint, utxo) m. m(outpoint \<mapsto> utxo)) outs m"

definition remove_utxos :: "'o list \<Rightarrow> ('o \<rightharpoonup> 'u) \<Rightarrow> ('o \<rightharpoonup> 'u)" where
  "remove_utxos outpoints m = fold (\<lambda>outpoint m. m(outpoint := None)) outpoints m"

text \<open>\<^verbatim>\<open>map.entry(k).or_default().insert(x)\<close> for the two indexes.\<close>

definition index_parent :: "bytes \<Rightarrow> bytes \<Rightarrow> (bytes \<rightharpoonup> bytes list) \<Rightarrow> (bytes \<rightharpoonup> bytes list)" where
  "index_parent p x m = m(p \<mapsto> List.insert x (case m p of None \<Rightarrow> [] | Some l \<Rightarrow> l))"

definition index_height :: "Height \<Rightarrow> bytes \<Rightarrow> (Height \<times> bytes list) list \<Rightarrow> (Height \<times> bytes list) list" where
  "index_height h x m = blocks_insert (h, List.insert x (case map_of m h of None \<Rightarrow> [] | Some l \<Rightarrow> l)) m"

definition queue :: "('o, 'u) QueuedSemanticallyVerified \<Rightarrow> ('o, 'u) QueuedBlocks \<Rightarrow> ('o, 'u) QueuedBlocks" where
  "queue new q =
     (if map_of (queued_blocks q) (queued_hash new) \<noteq> None then q
      else q\<lparr>known_utxos := insert_utxos (new_outputs (fst new)) (known_utxos q),
             queued_blocks := map_insert (queued_hash new) new (queued_blocks q),
             by_height := index_height (queued_height new) (queued_hash new) (by_height q),
             by_parent := index_parent (queued_parent new) (queued_hash new) (by_parent q)\<rparr>)"

definition has_queued_children :: "bytes \<Rightarrow> ('o, 'u) QueuedBlocks \<Rightarrow> bool" where
  "has_queued_children parent_hash q \<longleftrightarrow> by_parent q parent_hash \<noteq> None"

text \<open>Taking blocks out by hash; a hash without a block fails the expectation.\<close>

fun take_queued ::
  "bytes list \<Rightarrow> (bytes \<times> 'b) list \<Rightarrow> ('b list \<times> (bytes \<times> 'b) list) option" where
  "take_queued [] m = Some ([], m)"
| "take_queued (x # xs) m = (case map_of m x of
      None \<Rightarrow> None
    | Some b \<Rightarrow> map_option (\<lambda>(bs, m). (b # bs, m)) (take_queued xs (filter (\<lambda>e. fst e \<noteq> x) m)))"

text \<open>The whole entry of every dequeued block's height is removed from \<^verbatim>\<open>by_height\<close>.\<close>

definition dequeue_children ::
  "(bytes list \<Rightarrow> bytes list) \<Rightarrow> bytes \<Rightarrow> ('o, 'u) QueuedBlocks \<Rightarrow>
   (('o, 'u) QueuedSemanticallyVerified list \<times> ('o, 'u) QueuedBlocks) option" where
  "dequeue_children iter parent_hash q = do {
     (queued_children, m) \<leftarrow>
       take_queued (iter (case by_parent q parent_hash of None \<Rightarrow> [] | Some l \<Rightarrow> l)) (queued_blocks q);
     Some (queued_children, q\<lparr>queued_blocks := m, by_parent := (by_parent q)(parent_hash := None),
       by_height := filter (\<lambda>e. fst e \<notin> set (map queued_height queued_children)) (by_height q),
       known_utxos := fold (\<lambda>b. remove_utxos (map fst (new_outputs (fst b)))) queued_children (known_utxos q)\<rparr>) }"

text \<open>One expired block: it leaves the queue and the parent index, and its channel gets an error.\<close>

definition prune_block ::
  "bytes \<Rightarrow> ('o, 'u) QueuedBlocks \<times> (nat \<times> ValidateContextError) list \<Rightarrow>
   (('o, 'u) QueuedBlocks \<times> (nat \<times> ValidateContextError) list) option" where
  "prune_block x s = (let (q, out) = s in
     case map_of (queued_blocks q) x of
       None \<Rightarrow> None
     | Some b \<Rightarrow> (case by_parent q (queued_parent b) of
         None \<Rightarrow> None
       | Some parent_list \<Rightarrow>
           if x \<notin> set parent_list then None
           else Some (q\<lparr>queued_blocks := filter (\<lambda>e. fst e \<noteq> x) (queued_blocks q),
                   known_utxos := remove_utxos (map fst (new_outputs (fst b))) (known_utxos q),
                   by_parent := (by_parent q)(queued_parent b :=
                     (if length parent_list = 1 then None else Some (remove1 x parent_list)))\<rparr>,
                 out @ [(snd b, PrunedBelowFinalizedTip (queued_height b))])))"

fun prune_blocks ::
  "bytes list \<Rightarrow> ('o, 'u) QueuedBlocks \<times> (nat \<times> ValidateContextError) list \<Rightarrow>
   (('o, 'u) QueuedBlocks \<times> (nat \<times> ValidateContextError) list) option" where
  "prune_blocks [] s = Some s"
| "prune_blocks (x # xs) s = Option.bind (prune_block x s) (prune_blocks xs)"

definition prune_by_height ::
  "(bytes list \<Rightarrow> bytes list) \<Rightarrow> Height \<Rightarrow> ('o, 'u) QueuedBlocks \<Rightarrow>
   (('o, 'u) QueuedBlocks \<times> (nat \<times> ValidateContextError) list) option" where
  "prune_by_height iter finalized_tip_height q = do {
     split_height \<leftarrow> height_add finalized_tip_height 1;
     prune_blocks (concat (map (\<lambda>e. iter (snd e)) (filter (\<lambda>e. fst e < split_height) (by_height q))))
       (q\<lparr>by_height := filter (\<lambda>e. split_height \<le> fst e) (by_height q)\<rparr>, []) }"

text \<open>\<^verbatim>\<open>get_mut\<close> followed by the swap of the channel that its only caller makes.\<close>

definition replace_sender ::
  "bytes \<Rightarrow> nat \<Rightarrow> ('o, 'u) QueuedBlocks \<Rightarrow> (nat \<times> ('o, 'u) QueuedBlocks) option" where
  "replace_sender x rsp_tx q = (case map_of (queued_blocks q) x of
      None \<Rightarrow> None
    | Some (b, old_rsp_tx) \<Rightarrow>
        Some (old_rsp_tx, q\<lparr>queued_blocks := map_insert x (b, rsp_tx) (queued_blocks q)\<rparr>))"

definition queued_utxo :: "'o \<Rightarrow> ('o, 'u) QueuedBlocks \<Rightarrow> 'u option" where
  "queued_utxo outpoint q = known_utxos q outpoint"

definition drain :: "('o, 'u) QueuedBlocks \<Rightarrow> (bytes \<times> ('o, 'u) QueuedSemanticallyVerified) list \<times> ('o, 'u) QueuedBlocks" where
  "drain q = (queued_blocks q, QueuedBlocks_default)"

section \<open>Sent hashes\<close>

record ('o, 'u) SentHashes =
  bufs :: "(bytes \<times> Height) list list"
  curr_buf :: "(bytes \<times> Height) list"
  sent :: "bytes \<rightharpoonup> 'o list"
  sent_utxos :: "'o \<rightharpoonup> 'u"
  can_fork_chain_at_hashes :: bool

definition SentHashes_default :: "('o, 'u) SentHashes" where
  "SentHashes_default =
     \<lparr>bufs = [], curr_buf = [], sent = Map.empty, sent_utxos = Map.empty, can_fork_chain_at_hashes = False\<rparr>"

definition sent_add :: "('o, 'u) SemanticallyVerifiedBlock \<Rightarrow> ('o, 'u) SentHashes \<Rightarrow> ('o, 'u) SentHashes" where
  "sent_add b s =
     s\<lparr>sent_utxos := insert_utxos (new_outputs b) (sent_utxos s),
       curr_buf := curr_buf s @ [(block_hash (verified b), fst (verified b))],
       sent := (sent s)(block_hash (verified b) \<mapsto> map fst (new_outputs b))\<rparr>"

definition sent_utxo :: "'o \<Rightarrow> ('o, 'u) SentHashes \<Rightarrow> 'u option" where
  "sent_utxo outpoint s = sent_utxos s outpoint"

definition finish_batch :: "('o, 'u) SentHashes \<Rightarrow> ('o, 'u) SentHashes" where
  "finish_batch s = (if curr_buf s = [] then s else s\<lparr>bufs := bufs s @ [curr_buf s], curr_buf := []\<rparr>)"

text \<open>The closure of \<^verbatim>\<open>retain_mut\<close>: an empty rest is not retained.\<close>

fun prune_buf ::
  "Height \<Rightarrow> (bytes \<times> Height) list \<Rightarrow> ('o, 'u) SentHashes \<Rightarrow> (bytes \<times> Height) list \<times> ('o, 'u) SentHashes" where
  "prune_buf height_bound [] s = ([], s)"
| "prune_buf height_bound ((x, h) # buf) s =
     (if h > height_bound then ((x, h) # buf, s)
      else prune_buf height_bound buf (case sent s x of
          None \<Rightarrow> s
        | Some expired_outpoints \<Rightarrow>
            s\<lparr>sent := (sent s)(x := None), sent_utxos := remove_utxos expired_outpoints (sent_utxos s)\<rparr>))"

fun prune_bufs ::
  "Height \<Rightarrow> (bytes \<times> Height) list list \<Rightarrow> ('o, 'u) SentHashes \<Rightarrow>
   (bytes \<times> Height) list list \<times> ('o, 'u) SentHashes" where
  "prune_bufs height_bound [] s = ([], s)"
| "prune_bufs height_bound (buf # bs) s =
     (let (rest, s) = prune_buf height_bound buf s; (kept, s) = prune_bufs height_bound bs s
      in (if rest = [] then kept else rest # kept, s))"

definition sent_prune_by_height :: "Height \<Rightarrow> ('o, 'u) SentHashes \<Rightarrow> ('o, 'u) SentHashes" where
  "sent_prune_by_height height_bound s =
     (let s = finish_batch s; (kept, s) = prune_bufs height_bound (bufs s) s in s\<lparr>bufs := kept\<rparr>)"

definition sent_contains :: "bytes \<Rightarrow> ('o, 'u) SentHashes \<Rightarrow> bool" where
  "sent_contains x s \<longleftrightarrow> sent s x \<noteq> None"

definition sent_can_fork_chain_at :: "bytes \<Rightarrow> ('o, 'u) SentHashes \<Rightarrow> bool" where
  "sent_can_fork_chain_at x s \<longleftrightarrow> can_fork_chain_at_hashes s \<and> sent_contains x s"


section \<open>Well-formed queues\<close>

definition hash_order :: "(bytes list \<Rightarrow> bytes list) \<Rightarrow> bool" where
  "hash_order iter \<longleftrightarrow> (\<forall>xs. mset (iter xs) = mset xs)"

lemma hash_orderD:
  assumes "hash_order iter"
  shows "set (iter xs) = set xs" "distinct (iter xs) \<longleftrightarrow> distinct xs" "length (iter xs) = length xs"
proof -
  have "mset (iter xs) = mset xs" using assms unfolding hash_order_def by blast
  then show "set (iter xs) = set xs" "distinct (iter xs) \<longleftrightarrow> distinct xs" "length (iter xs) = length xs"
    by (rule mset_eq_setD, rule mset_eq_imp_distinct_iff, rule mset_eq_length)
qed

abbreviation queue_map :: "('o, 'u) QueuedBlocks \<Rightarrow> bytes \<rightharpoonup> ('o, 'u) QueuedSemanticallyVerified" where
  "queue_map q \<equiv> map_of (queued_blocks q)"

definition children :: "('o, 'u) QueuedBlocks \<Rightarrow> bytes \<Rightarrow> bytes set" where
  "children q p = {x. \<exists>b. queue_map q x = Some b \<and> queued_parent b = p}"

text \<open>The index of parents is exact; the index of heights may miss blocks, but what it lists is queued.\<close>

definition parents_inv :: "('o, 'u) QueuedBlocks \<Rightarrow> bool" where
  "parents_inv q \<longleftrightarrow>
     distinct (map fst (queued_blocks q)) \<and> (\<forall>x b. queue_map q x = Some b \<longrightarrow> queued_hash b = x) \<and>
     (\<forall>p. case by_parent q p of
        None \<Rightarrow> children q p = {}
      | Some l \<Rightarrow> l \<noteq> [] \<and> distinct l \<and> set l = children q p)"

definition heights_inv :: "('o, 'u) QueuedBlocks \<Rightarrow> bool" where
  "heights_inv q \<longleftrightarrow>
     sorted_wrt (<) (map fst (by_height q)) \<and>
     (\<forall>h l. (h, l) \<in> set (by_height q) \<longrightarrow>
        distinct l \<and> (\<forall>x\<in>set l. \<exists>b. queue_map q x = Some b \<and> queued_height b = h))"

definition queue_inv :: "('o, 'u) QueuedBlocks \<Rightarrow> bool" where
  "queue_inv q \<longleftrightarrow> parents_inv q \<and> heights_inv q"

lemma parents_invD:
  assumes "parents_inv q"
  shows "distinct (map fst (queued_blocks q))" "queue_map q x = Some b \<Longrightarrow> queued_hash b = x"
    "by_parent q p = None \<Longrightarrow> children q p = {}"
    "by_parent q p = Some l \<Longrightarrow> l \<noteq> [] \<and> distinct l \<and> set l = children q p"
proof -
  have "case by_parent q p of None \<Rightarrow> children q p = {} | Some l \<Rightarrow> l \<noteq> [] \<and> distinct l \<and> set l = children q p"
    using assms unfolding parents_inv_def by blast
  then show "by_parent q p = None \<Longrightarrow> children q p = {}"
    "by_parent q p = Some l \<Longrightarrow> l \<noteq> [] \<and> distinct l \<and> set l = children q p" by auto
qed (use assms in \<open>unfold parents_inv_def, blast+\<close>)

lemma map_of_filter_keys: "map_of (filter (\<lambda>e. fst e \<notin> X) m) x = (if x \<in> X then None else map_of m x)"
  by (induction m) auto

lemma take_queued_all:
  "distinct xs \<Longrightarrow> (\<And>x. x \<in> set xs \<Longrightarrow> map_of m x \<noteq> None) \<Longrightarrow>
   take_queued xs m = Some (map (\<lambda>x. the (map_of m x)) xs, filter (\<lambda>e. fst e \<notin> set xs) m)"
proof (induction xs arbitrary: m)
  case (Cons x xs)
  obtain b where b: "map_of m x = Some b" using Cons.prems(2)[of x] by auto
  let ?m = "filter (\<lambda>e. fst e \<noteq> x) m"
  have look: "map_of ?m y = (if y = x then None else map_of m y)" for y
    using map_of_filter_keys[of "{x}" m y] by simp
  have "take_queued xs ?m = Some (map (\<lambda>x. the (map_of ?m x)) xs, filter (\<lambda>e. fst e \<notin> set xs) ?m)"
    using Cons.prems by (intro Cons.IH) (auto simp: look)
  moreover have "map (\<lambda>x. the (map_of ?m x)) xs = map (\<lambda>x. the (map_of m x)) xs"
    using Cons.prems(1) by (auto simp: look)
  moreover have "filter (\<lambda>e. fst e \<notin> set xs) ?m = filter (\<lambda>e. fst e \<notin> set (x # xs)) m"
    by (simp add: conj_commute)
  ultimately show ?case using b by simp
qed simp

lemma blocks_insert_sorted:
  assumes "sorted_wrt (<) (map fst m)"
  shows "set (blocks_insert (h, v) m) = insert (h, v) {e \<in> set m. fst e \<noteq> h}"
    and "sorted_wrt (<) (map fst (blocks_insert (h, v) m))"
proof -
  have *: "set (blocks_insert (h, v) m) = insert (h, v) {e \<in> set m. fst e \<noteq> h} \<and>
      sorted_wrt (<) (map fst (blocks_insert (h, v) m))"
    using assms
  proof (induction m)
    case (Cons e m)
    then have IH: "set (blocks_insert (h, v) m) = insert (h, v) {e \<in> set m. fst e \<noteq> h}"
      "sorted_wrt (<) (map fst (blocks_insert (h, v) m))" and less: "\<And>d. d \<in> set m \<Longrightarrow> fst e < fst d" by auto
    consider "fst e < h" | "fst e = h" | "h < fst e" by fastforce
    then show ?case
    proof cases
      case 1
      then have "blocks_insert (h, v) (e # m) = e # blocks_insert (h, v) m" by (simp add: blocks_insert_def)
      then show ?thesis using IH less 1 by auto
    next
      case 2
      then have "\<forall>d\<in>set m. \<not> fst d \<le> h" using less by (auto simp: not_le)
      then have "dropWhile (\<lambda>w. fst w \<le> h) m = m" by (cases m) auto
      then have "blocks_insert (h, v) (e # m) = (h, v) # m" using 2 by (simp add: blocks_insert_def)
      then show ?thesis using Cons.prems less 2 by auto
    next
      case 3
      then have "\<not> fst e < h" "\<not> fst e \<le> h" by (auto simp: not_less not_le)
      then have "blocks_insert (h, v) (e # m) = (h, v) # e # m" by (simp add: blocks_insert_def)
      then show ?thesis using Cons.prems less 3 by force
    qed
  qed (simp add: blocks_insert_def)
  then show "set (blocks_insert (h, v) m) = insert (h, v) {e \<in> set m. fst e \<noteq> h}"
    "sorted_wrt (<) (map fst (blocks_insert (h, v) m))" by auto
qed


lemma dequeue_children_ok:
  assumes inv: "queue_inv q" and ord: "hash_order iter"
  obtains cs q' where "dequeue_children iter p q = Some (cs, q')" "queue_inv q'"
    "distinct (map queued_hash cs)" "set cs = {b. \<exists>x. queue_map q x = Some b \<and> queued_parent b = p}"
    "queued_blocks q' = filter (\<lambda>e. queued_parent (snd e) \<noteq> p) (queued_blocks q)"
    "by_height q' = filter (\<lambda>e. fst e \<notin> set (map queued_height cs)) (by_height q)"
proof -
  have P: "parents_inv q" and H: "heights_inv q" using inv by (auto simp: queue_inv_def)
  define xs where "xs = iter (case by_parent q p of None \<Rightarrow> [] | Some l \<Rightarrow> l)"
  define cs where "cs = map (\<lambda>x. the (queue_map q x)) xs"
  define m where "m = filter (\<lambda>e. fst e \<notin> set xs) (queued_blocks q)"
  define q' where "q' = q\<lparr>queued_blocks := m, by_parent := (by_parent q)(p := None),
       by_height := filter (\<lambda>e. fst e \<notin> set (map queued_height cs)) (by_height q),
       known_utxos := fold (\<lambda>b. remove_utxos (map fst (new_outputs (fst b)))) cs (known_utxos q)\<rparr>"
  have xs: "set xs = children q p" "distinct xs"
    using parents_invD(3,4)[OF P, of p] hash_orderD(1,2)[OF ord] unfolding xs_def
    by (cases "by_parent q p"; simp)+
  have found: "\<exists>b. queue_map q x = Some b \<and> queued_parent b = p \<and> queued_hash b = x" if "x \<in> set xs" for x
    using that parents_invD(2)[OF P] unfolding xs(1) children_def by blast
  have "take_queued xs (queued_blocks q) = Some (cs, m)"
    unfolding cs_def m_def by (rule take_queued_all[OF xs(2)]) (use found in force)
  then have deq: "dequeue_children iter p q = Some (cs, q')"
    unfolding dequeue_children_def xs_def[symmetric] q'_def by simp
  have look: "queue_map q' x = (if x \<in> children q p then None else queue_map q x)" for x
    using map_of_filter_keys[of "children q p" "queued_blocks q" x] by (simp add: q'_def m_def xs(1))
  have kids: "children q' r = (if r = p then {} else children q r)" for r
    by (auto simp: children_def look)
  have "by_parent q' r = (if r = p then None else by_parent q r)" for r by (simp add: q'_def)
  then have "case by_parent q' r of None \<Rightarrow> children q' r = {} | Some l \<Rightarrow> l \<noteq> [] \<and> distinct l \<and> set l = children q' r" for r
    using parents_invD(3,4)[OF P, of r] unfolding kids by (auto split: option.splits)
  moreover have "distinct (map fst (queued_blocks q'))"
    using distinct_map_filter[OF parents_invD(1)[OF P]] by (simp add: q'_def m_def)
  ultimately have "parents_inv q'"
    using parents_invD(2)[OF P] unfolding parents_inv_def look by (auto split: if_splits)
  moreover have "heights_inv q'"
  proof -
    have "queue_map q' x = queue_map q x" if "queue_map q x = Some b" "queued_height b \<notin> set (map queued_height cs)" for x b
      using that unfolding look xs(1)[symmetric] cs_def by (auto simp: image_iff)
    then have keep: "\<exists>b. queue_map q' x = Some b \<and> queued_height b = h"
      if "\<exists>b. queue_map q x = Some b \<and> queued_height b = h" "h \<notin> set (map queued_height cs)" for x h
      using that by metis
    have "by_height q' = filter (\<lambda>e. fst e \<notin> set (map queued_height cs)) (by_height q)" by (simp add: q'_def)
    then show ?thesis
      using H keep unfolding heights_inv_def by (auto simp: sorted_wrt_map intro!: sorted_wrt_filter)
  qed
  ultimately have "queue_inv q'" by (simp add: queue_inv_def)
  moreover have "map queued_hash cs = xs" using found unfolding cs_def by (induction xs) fastforce+
  then have "distinct (map queued_hash cs)" using xs(2) by simp
  moreover have "set cs = {b. \<exists>x. queue_map q x = Some b \<and> queued_parent b = p}"
    unfolding cs_def set_map xs(1) by (force simp: children_def)
  moreover have "queued_blocks q' = filter (\<lambda>e. queued_parent (snd e) \<noteq> p) (queued_blocks q)"
  proof -
    have "fst e \<in> children q p \<longleftrightarrow> queued_parent (snd e) = p" if "e \<in> set (queued_blocks q)" for e
      using that map_of_is_SomeI[OF parents_invD(1)[OF P], of "fst e" "snd e"] by (simp add: children_def del: split_paired_Ex)
    then show ?thesis unfolding q'_def m_def xs(1) by (simp cong: filter_cong)
  qed
  ultimately show ?thesis using that deq by (simp add: q'_def)
qed


lemma queue_inv_queue:
  assumes inv: "queue_inv q"
  shows "queue_inv (queue new q)"
    and "queue_map (queue new q) = (if queue_map q (queued_hash new) = None
      then (queue_map q)(queued_hash new \<mapsto> new) else queue_map q)"
proof -
  have P: "parents_inv q" and H: "heights_inv q" using inv by (auto simp: queue_inv_def)
  let ?x = "queued_hash new" and ?q = "queue new q"
  have "queue_inv ?q \<and> queue_map ?q = (queue_map q)(?x \<mapsto> new)" if None: "queue_map q ?x = None"
  proof -
    have fresh: "?x \<notin> fst ` set (queued_blocks q)" using None by (simp add: map_of_eq_None_iff)
    then have blocks: "queued_blocks ?q = queued_blocks q @ [(?x, new)]" using None by (simp add: queue_def map_insert_def)
    have look: "queue_map ?q = (queue_map q)(?x \<mapsto> new)" unfolding blocks by (rule map_of_snoc[OF fresh])
    have kids: "children ?q p = (if p = queued_parent new then insert ?x (children q p) else children q p)" for p
      using None by (auto simp: children_def look simp del: split_paired_Ex)
    have new: "?x \<notin> children q p" for p using None by (auto simp: children_def)
    have "by_parent ?q p = (if p = queued_parent new then Some (List.insert ?x (case by_parent q p of None \<Rightarrow> [] | Some l \<Rightarrow> l))
        else by_parent q p)" for p using None by (simp add: queue_def index_parent_def)
    then have "case by_parent ?q p of None \<Rightarrow> children ?q p = {} | Some l \<Rightarrow> l \<noteq> [] \<and> distinct l \<and> set l = children ?q p" for p
      using parents_invD(3,4)[OF P, of p] new[of p] unfolding kids
      by (cases "by_parent q p"; cases "p = queued_parent new"; force simp: List.insert_def)
    then have "parents_inv ?q"
      using parents_invD(1,2)[OF P] fresh unfolding parents_inv_def look by (auto simp: blocks)
    moreover have "heights_inv ?q"
    proof -
      let ?l = "List.insert ?x (case map_of (by_height q) (queued_height new) of None \<Rightarrow> [] | Some l \<Rightarrow> l)"
      note ins = blocks_insert_sorted[where h = "queued_height new" and v = ?l, OF conjunct1[OF H[unfolded heights_inv_def]]]
      have bh: "by_height ?q = blocks_insert (queued_height new, ?l) (by_height q)"
        using None by (simp add: queue_def index_height_def)
      have old: "distinct l \<and> (\<forall>x\<in>set l. \<exists>b. queue_map ?q x = Some b \<and> queued_height b = h)"
        if "(h, l) \<in> set (by_height q)" for h l
      proof -
        have l: "distinct l" "\<And>x. x \<in> set l \<Longrightarrow> \<exists>b. queue_map q x = Some b \<and> queued_height b = h"
          using H that unfolding heights_inv_def by blast+
        then have "\<exists>b. queue_map ?q x = Some b \<and> queued_height b = h" if "x \<in> set l" for x
          using l(2)[OF that] None unfolding look by (auto simp del: split_paired_Ex)
        with l(1) show ?thesis by blast
      qed
      have l: "distinct ?l \<and> (\<forall>x\<in>set ?l. \<exists>b. queue_map ?q x = Some b \<and> queued_height b = queued_height new)"
        using old[OF map_of_SomeD] by (cases "map_of (by_height q) (queued_height new)") (auto simp: look simp del: split_paired_Ex)
      show ?thesis
        unfolding heights_inv_def bh using ins(2) old l by (auto simp: ins(1) simp del: split_paired_Ex)
    qed
    ultimately show ?thesis using look by (simp add: queue_inv_def)
  qed
  moreover have "?q = q" if "queue_map q ?x \<noteq> None" using that by (simp add: queue_def)
  ultimately show "queue_inv ?q" "queue_map ?q = (if queue_map q ?x = None then (queue_map q)(?x \<mapsto> new) else queue_map q)"
    using inv by (cases "queue_map q ?x = None"; simp)+
qed


section \<open>Pruning\<close>

definition pruned_response :: "('o, 'u) QueuedSemanticallyVerified \<Rightarrow> nat \<times> ValidateContextError" where
  "pruned_response b = (snd b, PrunedBelowFinalizedTip (queued_height b))"

lemma prune_block_ok:
  assumes P: "parents_inv q" and b: "queue_map q x = Some b"
  obtains q' where "prune_block x (q, out) = Some (q', out @ [pruned_response b])" "parents_inv q'"
    "queued_blocks q' = filter (\<lambda>e. fst e \<noteq> x) (queued_blocks q)" "by_height q' = by_height q"
proof -
  let ?p = "queued_parent b"
  have x: "x \<in> children q ?p" using b by (simp add: children_def del: split_paired_Ex)
  then obtain l where l: "by_parent q ?p = Some l" using parents_invD(3)[OF P, of ?p] by (cases "by_parent q ?p") auto
  then have set: "l \<noteq> []" "distinct l" "set l = children q ?p" using parents_invD(4)[OF P] by auto
  define q' where "q' = q\<lparr>queued_blocks := filter (\<lambda>e. fst e \<noteq> x) (queued_blocks q),
    known_utxos := remove_utxos (map fst (new_outputs (fst b))) (known_utxos q),
    by_parent := (by_parent q)(?p := (if length l = 1 then None else Some (remove1 x l)))\<rparr>"
  have look: "queue_map q' y = (if y = x then None else queue_map q y)" for y
    using map_of_filter_keys[of "{x}" "queued_blocks q" y] by (simp add: q'_def)
  have kids: "children q' r = (if r = ?p then children q r - {x} else children q r)" for r
    using b by (auto simp: children_def look simp del: split_paired_Ex)
  have card: "card (children q ?p) = length l" using distinct_card[OF set(2)] unfolding set(3) .
  have one: "length l = 1 \<longleftrightarrow> children q ?p = {x}"
  proof
    assume "length l = 1"
    then obtain y where "children q ?p = {y}" using card card_1_singletonE by metis
    with x show "children q ?p = {x}" by simp
  qed (use card in simp)
  have bp: "by_parent q' r = (if r = ?p then if length l = 1 then None else Some (remove1 x l) else by_parent q r)" for r
    by (simp add: q'_def)
  have rest: "set (remove1 x l) = children q ?p - {x}" "distinct (remove1 x l)" using set(2,3) by simp_all
  have idx: "case by_parent q' r of None \<Rightarrow> children q' r = {} | Some l \<Rightarrow> l \<noteq> [] \<and> distinct l \<and> set l = children q' r" for r
  proof (cases "r = ?p")
    case True
    have "remove1 x l \<noteq> []" if "length l \<noteq> 1"
    proof
      assume "remove1 x l = []"
      then have "children q ?p - {x} = {}" using rest(1) by simp
      then show False using one that x by auto
    qed
    then show ?thesis unfolding bp kids using True one rest by simp
  next
    case False
    then have "by_parent q' r = by_parent q r" "children q' r = children q r" by (simp_all add: bp kids)
    then show ?thesis using parents_invD(3,4)[OF P, of r] by (cases "by_parent q r") simp_all
  qed
  have "distinct (map fst (queued_blocks q'))"
    using distinct_map_filter[OF parents_invD(1)[OF P]] by (simp add: q'_def)
  with idx have "parents_inv q'"
    using parents_invD(2)[OF P] unfolding parents_inv_def look by (auto split: if_splits)
  moreover have "prune_block x (q, out) = Some (q', out @ [pruned_response b])"
    using b l x set(3) by (simp add: prune_block_def q'_def pruned_response_def)
  ultimately show ?thesis using that by (simp add: q'_def)
qed

lemma prune_blocks_ok:
  "parents_inv q \<Longrightarrow> distinct xs \<Longrightarrow> (\<And>x. x \<in> set xs \<Longrightarrow> queue_map q x \<noteq> None) \<Longrightarrow>
   \<exists>q'. prune_blocks xs (q, out) = Some (q', out @ map (\<lambda>x. pruned_response (the (queue_map q x))) xs) \<and>
     parents_inv q' \<and> queued_blocks q' = filter (\<lambda>e. fst e \<notin> set xs) (queued_blocks q) \<and> by_height q' = by_height q"
proof (induction xs arbitrary: q out)
  case (Cons x xs)
  obtain b where b: "queue_map q x = Some b" using Cons.prems(3)[of x] by auto
  from prune_block_ok[OF Cons.prems(1) b] obtain q1 where
    q1: "prune_block x (q, out) = Some (q1, out @ [pruned_response b])" "parents_inv q1"
      "queued_blocks q1 = filter (\<lambda>e. fst e \<noteq> x) (queued_blocks q)" "by_height q1 = by_height q" by metis
  have look: "queue_map q1 y = (if y = x then None else queue_map q y)" for y
    using map_of_filter_keys[of "{x}" "queued_blocks q" y] by (simp add: q1(3))
  have dist: "distinct xs" using Cons.prems(2) by simp
  have "queue_map q1 y \<noteq> None" if "y \<in> set xs" for y using that Cons.prems(2,3) by (auto simp: look)
  from Cons.IH[OF q1(2) dist this, of "out @ [pruned_response b]"] obtain q' where q':
    "prune_blocks xs (q1, out @ [pruned_response b]) =
      Some (q', (out @ [pruned_response b]) @ map (\<lambda>x. pruned_response (the (queue_map q1 x))) xs)"
    "parents_inv q'" "queued_blocks q' = filter (\<lambda>e. fst e \<notin> set xs) (queued_blocks q1)" "by_height q' = by_height q1"
    by blast
  have "map (\<lambda>x. pruned_response (the (queue_map q1 x))) xs = map (\<lambda>x. pruned_response (the (queue_map q x))) xs"
    using Cons.prems(2) by (auto simp: look)
  with q' q1 b show ?case by (intro exI[of _ q']) (simp add: conj_commute)
qed simp

lemma distinct_index:
  assumes "hash_order iter"
  shows "sorted_wrt (<) (map fst es) \<Longrightarrow> (\<And>h l. (h, l) \<in> set es \<Longrightarrow> distinct l \<and> (\<forall>x\<in>set l. height_at x = (h :: Height))) \<Longrightarrow>
    distinct (concat (map (\<lambda>e. iter (snd e)) es))"
proof (induction es)
  case (Cons e es)
  obtain h l where e: "e = (h, l)" by fastforce
  have "h < h'" if "(h', l') \<in> set es" for h' l' using Cons.prems(1) that by (auto simp: e)
  then have "set l \<inter> set l' = {}" if "(h', l') \<in> set es" for h' l'
    using Cons.prems(2)[of h l] Cons.prems(2)[of h' l'] that by (fastforce simp: e)
  moreover have "distinct (concat (map (\<lambda>e. iter (snd e)) es))" using Cons by auto
  ultimately show ?case using Cons.prems(2)[of h l] by (fastforce simp: e hash_orderD[OF assms])
qed simp

lemma prune_by_height_ok:
  assumes inv: "queue_inv q" and ord: "hash_order iter" and split: "height_add t 1 = Some s"
  defines "X \<equiv> \<Union> (set ` snd ` {e \<in> set (by_height q). fst e < s})"
  shows "\<exists>q' xs. prune_by_height iter t q = Some (q', map (\<lambda>x. pruned_response (the (queue_map q x))) xs) \<and>
    queue_inv q' \<and> distinct xs \<and> set xs = X \<and> queued_blocks q' = filter (\<lambda>e. fst e \<notin> X) (queued_blocks q) \<and>
    by_height q' = filter (\<lambda>e. s \<le> fst e) (by_height q)"
proof -
  have P: "parents_inv q" and H: "heights_inv q" using inv by (auto simp: queue_inv_def)
  have sorted: "sorted_wrt (<) (map fst (by_height q))" using H by (simp add: heights_inv_def)
  have entry: "distinct l" "\<And>x. x \<in> set l \<Longrightarrow> \<exists>b. queue_map q x = Some b \<and> queued_height b = h" if "(h, l) \<in> set (by_height q)" for h l
    using H that unfolding heights_inv_def by blast+
  define xs where "xs = concat (map (\<lambda>e. iter (snd e)) (filter (\<lambda>e. fst e < s) (by_height q)))"
  let ?q = "q\<lparr>by_height := filter (\<lambda>e. s \<le> fst e) (by_height q)\<rparr>"
  have xs: "set xs = X" unfolding xs_def X_def by (auto simp: hash_orderD(1)[OF ord])
  have "height_at x = h" if "(h, l) \<in> set (by_height q)" "x \<in> set l" "height_at = (\<lambda>x. queued_height (the (queue_map q x)))" for h l x height_at
    using entry(2)[OF that(1,2)] that(3) by auto
  then have "distinct xs" unfolding xs_def
    by (intro distinct_index[OF ord, of _ "\<lambda>x. queued_height (the (queue_map q x))"])
      (use sorted entry(1) in \<open>auto simp: sorted_wrt_map intro: sorted_wrt_filter\<close>)
  moreover have "queue_map ?q x \<noteq> None" if "x \<in> set xs" for x using that entry(2) unfolding xs X_def by fastforce
  moreover have kids: "children ?q p = children q p" for p by (simp add: children_def)
  have "parents_inv ?q" using P unfolding parents_inv_def kids by simp
  ultimately obtain q' where q': "prune_blocks xs (?q, []) = Some (q', map (\<lambda>x. pruned_response (the (queue_map q x))) xs)"
    "parents_inv q'" "queued_blocks q' = filter (\<lambda>e. fst e \<notin> X) (queued_blocks q)"
    "by_height q' = filter (\<lambda>e. s \<le> fst e) (by_height q)"
    using prune_blocks_ok[of ?q xs "[]"] by (auto simp: xs)
  have "heights_inv q'"
    unfolding heights_inv_def q'(4)
  proof (intro conjI allI impI ballI)
    show "sorted_wrt (<) (map fst (filter (\<lambda>e. s \<le> fst e) (by_height q)))"
      using sorted by (auto simp: sorted_wrt_map intro: sorted_wrt_filter)
    fix h l assume hl: "(h, l) \<in> set (filter (\<lambda>e. s \<le> fst e) (by_height q))"
    then show "distinct l" using entry(1) by auto
    fix x assume x: "x \<in> set l"
    obtain b where b: "queue_map q x = Some b" "queued_height b = h" using entry(2)[of h l x] hl x by auto
    moreover have "x \<notin> X" using entry(2) b hl unfolding X_def by fastforce
    ultimately show "\<exists>b. queue_map q' x = Some b \<and> queued_height b = h"
      unfolding q'(3) map_of_filter_keys by auto
  qed
  with q' split \<open>distinct xs\<close> xs show ?thesis
    by (intro exI[of _ q'] exI[of _ xs]) (simp add: prune_by_height_def queue_inv_def xs_def)
qed


section \<open>Any sequence of operations\<close>

lemma queue_inv_default: "queue_inv QueuedBlocks_default"
  by (simp add: queue_inv_def parents_inv_def heights_inv_def children_def QueuedBlocks_default_def)

lemma map_of_map_insert: "map_of (map_insert x v m) = (map_of m)(x \<mapsto> v)"
proof -
  have "map_of (map (\<lambda>(k, w). if k = x then (k, v) else (k, w)) m) y =
      (if y = x then if x \<in> fst ` set m then Some v else None else map_of m y)" for y
    by (induction m) (auto simp: rev_image_eqI)
  then show ?thesis by (simp add: map_insert_def map_of_snoc fun_eq_iff del: map_of_append)
qed

lemma map_insert_keys: "x \<in> fst ` set m \<Longrightarrow> map fst (map_insert x v m) = map fst m"
  by (induction m) (auto simp: map_insert_def)

lemma replace_sender_ok:
  assumes inv: "queue_inv q" and r: "replace_sender x tx q = Some (old, q')"
  shows "queue_inv q'" "\<exists>b. queue_map q x = Some (b, old) \<and> queue_map q' = (queue_map q)(x \<mapsto> (b, tx))"
proof -
  obtain b where b: "queue_map q x = Some (b, old)" and q': "q' = q\<lparr>queued_blocks := map_insert x (b, tx) (queued_blocks q)\<rparr>"
    using r by (auto simp: replace_sender_def split: option.splits)
  have look: "queue_map q' = (queue_map q)(x \<mapsto> (b, tx))" by (simp add: q' map_of_map_insert)
  then show "\<exists>b. queue_map q x = Some (b, old) \<and> queue_map q' = (queue_map q)(x \<mapsto> (b, tx))" using b by blast
  have P: "parents_inv q" and H: "heights_inv q" using inv by (auto simp: queue_inv_def)
  have hash: "block_hash (verified b) = x" using parents_invD(2)[OF P b] by simp
  have kids: "children q' p = children q p" for p using b by (auto simp: children_def look)
  have "x \<in> fst ` set (queued_blocks q)" using map_of_SomeD[OF b] by force
  then have keys: "map fst (queued_blocks q') = map fst (queued_blocks q)" "by_parent q' = by_parent q" "by_height q' = by_height q"
    by (simp_all add: q' map_insert_keys)
  have "parents_inv q'"
    using P hash unfolding parents_inv_def kids keys look by auto
  moreover have "heights_inv q'"
    using H b unfolding heights_inv_def keys look by fastforce
  ultimately show "queue_inv q'" by (simp add: queue_inv_def)
qed

datatype ('o, 'u) queue_op =
    Enqueue "('o, 'u) QueuedSemanticallyVerified"
  | Dequeue bytes
  | Prune Height
  | Replace bytes nat

fun apply_op :: "(bytes list \<Rightarrow> bytes list) \<Rightarrow> ('o, 'u) queue_op \<Rightarrow> ('o, 'u) QueuedBlocks \<Rightarrow> ('o, 'u) QueuedBlocks option" where
  "apply_op iter (Enqueue b) q = Some (queue b q)"
| "apply_op iter (Dequeue p) q = map_option snd (dequeue_children iter p q)"
| "apply_op iter (Prune t) q = map_option fst (prune_by_height iter t q)"
| "apply_op iter (Replace x tx) q = Some (case replace_sender x tx q of None \<Rightarrow> q | Some (_, q) \<Rightarrow> q)"

fun apply_ops :: "(bytes list \<Rightarrow> bytes list) \<Rightarrow> ('o, 'u) queue_op list \<Rightarrow> ('o, 'u) QueuedBlocks \<Rightarrow> ('o, 'u) QueuedBlocks option" where
  "apply_ops iter [] q = Some q"
| "apply_ops iter (a # as) q = Option.bind (apply_op iter a q) (apply_ops iter as)"

definition prunable :: "('o, 'u) queue_op \<Rightarrow> bool" where
  "prunable a \<longleftrightarrow> (case a of Prune t \<Rightarrow> height_add t 1 \<noteq> None | _ \<Rightarrow> True)"

lemma apply_op_inv:
  assumes "queue_inv q" "hash_order iter" "prunable a"
  shows "\<exists>q'. apply_op iter a q = Some q' \<and> queue_inv q'"
proof (cases a)
  case (Enqueue b)
  then show ?thesis using queue_inv_queue(1)[OF assms(1)] by simp
next
  case (Dequeue p)
  obtain cs q' where "dequeue_children iter p q = Some (cs, q')" "queue_inv q'"
    by (rule dequeue_children_ok[OF assms(1,2), of p])
  then show ?thesis unfolding Dequeue by simp
next
  case (Prune t)
  then obtain s where "height_add t 1 = Some s" using assms(3) by (auto simp: prunable_def)
  from prune_by_height_ok[OF assms(1,2) this] show ?thesis unfolding Prune by auto
next
  case (Replace x tx)
  then show ?thesis using replace_sender_ok(1)[OF assms(1), of x tx] assms(1)
    by (cases "replace_sender x tx q") auto
qed

lemma apply_ops_inv:
  "queue_inv q \<Longrightarrow> hash_order iter \<Longrightarrow> list_all prunable as \<Longrightarrow> \<exists>q'. apply_ops iter as q = Some q' \<and> queue_inv q'"
proof (induction as arbitrary: q)
  case (Cons a as)
  then obtain q1 where "apply_op iter a q = Some q1" "queue_inv q1" using apply_op_inv[of q iter a] by auto
  then show ?case using Cons by auto
qed simp


section \<open>Pruning sent hashes\<close>

definition expired :: "Height \<Rightarrow> (bytes \<times> Height) list \<Rightarrow> bytes set" where
  "expired t buf = fst ` set (takeWhile (\<lambda>e. snd e \<le> t) buf)"

lemma prune_buf_eq:
  "prune_buf t buf s = (rest, s') \<Longrightarrow> rest = dropWhile (\<lambda>e. snd e \<le> t) buf \<and>
   bufs s' = bufs s \<and> curr_buf s' = curr_buf s \<and> can_fork_chain_at_hashes s' = can_fork_chain_at_hashes s \<and>
   sent s' = (\<lambda>x. if x \<in> expired t buf then None else sent s x)"
proof (induction t buf s arbitrary: rest s' rule: prune_buf.induct)
  case (2 t x h buf s)
  show ?case
  proof (cases "t < h")
    case True
    then have "\<not> h \<le> t" by (simp add: not_le)
    then have "expired t ((x, h) # buf) = {}" "dropWhile (\<lambda>e. snd e \<le> t) ((x, h) # buf) = (x, h) # buf"
      by (simp_all add: expired_def)
    moreover have "rest = (x, h) # buf" "s' = s" using 2(2) True by simp_all
    ultimately show ?thesis by simp
  next
    case False
    define s1 where "s1 = (case sent s x of None \<Rightarrow> s | Some expired_outpoints \<Rightarrow>
      s\<lparr>sent := (sent s)(x := None), sent_utxos := remove_utxos expired_outpoints (sent_utxos s)\<rparr>)"
    have s1: "bufs s1 = bufs s" "curr_buf s1 = curr_buf s" "can_fork_chain_at_hashes s1 = can_fork_chain_at_hashes s"
      "sent s1 = (sent s)(x := None)" by (cases "sent s x"; simp add: s1_def fun_upd_idem)+
    have "prune_buf t buf s1 = (rest, s')" using 2(2) False by (simp add: s1_def)
    note IH = 2(1)[OF False, folded s1_def, OF this]
    have "expired t ((x, h) # buf) = insert x (expired t buf)"
      "dropWhile (\<lambda>e. snd e \<le> t) ((x, h) # buf) = dropWhile (\<lambda>e. snd e \<le> t) buf"
      using False by (simp_all add: expired_def not_less)
    then show ?thesis using IH s1 by (simp add: fun_eq_iff)
  qed
qed (auto simp: expired_def)

lemma prune_bufs_eq:
  "prune_bufs t bs s = (kept, s') \<Longrightarrow>
   kept = filter (\<lambda>b. b \<noteq> []) (map (dropWhile (\<lambda>e. snd e \<le> t)) bs) \<and>
   bufs s' = bufs s \<and> curr_buf s' = curr_buf s \<and> can_fork_chain_at_hashes s' = can_fork_chain_at_hashes s \<and>
   sent s' = (\<lambda>x. if x \<in> \<Union> (expired t ` set bs) then None else sent s x)"
proof (induction bs arbitrary: s kept s')
  case (Cons buf bs)
  obtain rest s1 where s1: "prune_buf t buf s = (rest, s1)" by fastforce
  obtain kept1 s2 where s2: "prune_bufs t bs s1 = (kept1, s2)" by fastforce
  from Cons.prems s1 s2 have "kept = (if rest = [] then kept1 else rest # kept1)" "s' = s2" by auto
  with prune_buf_eq[OF s1] Cons.IH[OF s2] show ?case by (auto simp: fun_eq_iff)
qed simp

text \<open>What pruning forgets: a batch is only searched up to its first block above the bound.\<close>

definition sent_batches :: "('o, 'u) SentHashes \<Rightarrow> (bytes \<times> Height) list set" where
  "sent_batches s = set (bufs s) \<union> {curr_buf s}"

lemma sent_prune_by_height_eq:
  "sent_contains x (sent_prune_by_height t s) \<longleftrightarrow>
    sent_contains x s \<and> (\<forall>buf\<in>sent_batches s. x \<notin> expired t buf)"
proof -
  have fin: "sent (finish_batch s) = sent s" "\<Union> (expired t ` set (bufs (finish_batch s))) = \<Union> (expired t ` sent_batches s)"
    by (auto simp: finish_batch_def sent_batches_def expired_def)
  obtain kept s' where "prune_bufs t (bufs (finish_batch s)) (finish_batch s) = (kept, s')" by fastforce
  from this prune_bufs_eq[OF this] show ?thesis
    unfolding fin by (auto simp: sent_prune_by_height_def sent_contains_def)
qed

lemma expired_sorted: "sorted_wrt (\<lambda>a b. snd a \<le> snd b) buf \<Longrightarrow> expired t buf = fst ` {e \<in> set buf. snd e \<le> t}"
proof (induction buf)
  case (Cons e buf)
  then have "t < snd d" if "d \<in> set buf" "t < snd e" for d using that by fastforce
  then show ?case using Cons by (cases "snd e \<le> t") (auto simp: expired_def image_iff not_le)
qed (simp add: expired_def)

section \<open>Properties\<close>

text \<open>C19: From an empty queue, no sequence of queueing, dequeuing, pruning and replacing a request makes an
  expectation or assertion of the queue fail, whatever order hash sets are traversed in (pruning needs a
  next height to exist). Afterwards a parent has queued children exactly when some queued block names
  it, and dequeuing returns each of those blocks once and leaves all others.\<close>

theorem queue_operations_safe:
  assumes "hash_order iter" and "list_all prunable as"
  shows "\<exists>q cs q'. apply_ops iter as QueuedBlocks_default = Some q \<and>
    (has_queued_children p q \<longleftrightarrow> (\<exists>x b. queue_map q x = Some b \<and> queued_parent b = p)) \<and>
    dequeue_children iter p q = Some (cs, q') \<and> distinct (map queued_hash cs) \<and>
    set cs = {b. \<exists>x. queue_map q x = Some b \<and> queued_parent b = p} \<and>
    queued_blocks q' = filter (\<lambda>e. queued_parent (snd e) \<noteq> p) (queued_blocks q)"
proof -
  obtain q where q: "apply_ops iter as QueuedBlocks_default = Some q" "queue_inv q"
    using apply_ops_inv[OF queue_inv_default assms] by blast
  then have P: "parents_inv q" by (simp add: queue_inv_def)
  have "has_queued_children p q \<longleftrightarrow> children q p \<noteq> {}"
    using parents_invD(3,4)[OF P, of p] unfolding has_queued_children_def by (cases "by_parent q p") auto
  then have has: "has_queued_children p q \<longleftrightarrow> (\<exists>x b. queue_map q x = Some b \<and> queued_parent b = p)"
    by (auto simp: children_def)
  obtain cs q' where "dequeue_children iter p q = Some (cs, q')" "distinct (map queued_hash cs)"
    "set cs = {b. \<exists>x. queue_map q x = Some b \<and> queued_parent b = p}"
    "queued_blocks q' = filter (\<lambda>e. queued_parent (snd e) \<noteq> p) (queued_blocks q)"
    by (rule dequeue_children_ok[OF q(2) assms(1), of p])
  with q(1) has show ?thesis by blast
qed

definition waiting :: "nat \<Rightarrow> byte \<Rightarrow> byte \<Rightarrow> (nat, nat) QueuedSemanticallyVerified" where
  "waiting h p x = (\<lparr>verified = sample_block h p x, new_outputs = []\<rparr>, unat x)"


lemmas waiting_simps = waiting_def sample_block_def

lemma hash_order_id: "hash_order id" by (simp add: hash_order_def)

theorem queue_operations_safe_witness:
  "\<exists>q cs q'. apply_ops id [Enqueue (waiting 3 2 10), Enqueue (waiting 3 1 11)] QueuedBlocks_default = Some q \<and>
     dequeue_children id (replicate 32 2) q = Some (cs, q') \<and> cs = [waiting 3 2 10] \<and>
     map fst (queued_blocks q') = [replicate 32 11]"
proof -
  let ?as = "[Enqueue (waiting 3 2 10), Enqueue (waiting 3 1 11)]"
  have "list_all prunable ?as" by (simp add: prunable_def)
  from queue_operations_safe[OF hash_order_id this, of "replicate 32 2"] obtain q cs q' where
    q: "apply_ops id ?as QueuedBlocks_default = Some q" "dequeue_children id (replicate 32 2) q = Some (cs, q')"
    "queued_blocks q' = filter (\<lambda>e. queued_parent (snd e) \<noteq> replicate 32 2) (queued_blocks q)" by blast
  then have blocks: "queued_blocks q = [(replicate 32 10, waiting 3 2 10), (replicate 32 11, waiting 3 1 11)]"
    "by_parent q (replicate 32 2) = Some [replicate 32 10]"
    by (auto simp: queue_def QueuedBlocks_default_def map_insert_def index_parent_def waiting_simps)
  with q(2) have "cs = [waiting 3 2 10]" by (auto simp: dequeue_children_def waiting_simps)
  moreover have "map fst (queued_blocks q') = [replicate 32 11]" unfolding q(3) blocks by (simp add: waiting_simps)
  ultimately show ?thesis using q(1,2) by (intro exI conjI)
qed

text \<open>C28: When a block leaves the queue, every other queued block at its height is lost to pruning:
  dequeuing the children of one parent removes the whole height from the index, so a block that waits for
  another parent at that height stays queued after pruning to any finalized height, its own included.\<close>

theorem siblings_escape_pruning:
  assumes inv: "queue_inv q" and ord: "hash_order iter" and t: "height_add t 1 \<noteq> None"
    and b: "queue_map q x = Some b" "queued_parent b \<noteq> p"
    and c: "queue_map q y = Some c" "queued_parent c = p" "queued_height c = queued_height b"
  shows "\<exists>cs q1 q2 out. dequeue_children iter p q = Some (cs, q1) \<and>
    prune_by_height iter t q1 = Some (q2, out) \<and> queue_map q2 x = Some b"
proof -
  obtain cs q1 where q1: "dequeue_children iter p q = Some (cs, q1)" "queue_inv q1"
    "set cs = {b. \<exists>x. queue_map q x = Some b \<and> queued_parent b = p}"
    "queued_blocks q1 = filter (\<lambda>e. queued_parent (snd e) \<noteq> p) (queued_blocks q)"
    "by_height q1 = filter (\<lambda>e. fst e \<notin> set (map queued_height cs)) (by_height q)"
    by (rule dequeue_children_ok[OF inv ord, of p])
  obtain s where s: "height_add t 1 = Some s" using t by blast
  let ?X = "\<Union> (set ` snd ` {e \<in> set (by_height q1). fst e < s})"
  obtain q2 xs where q2: "prune_by_height iter t q1 = Some (q2, map (\<lambda>x. pruned_response (the (queue_map q1 x))) xs)"
    "queued_blocks q2 = filter (\<lambda>e. fst e \<notin> ?X) (queued_blocks q1)"
    using prune_by_height_ok[OF q1(2) ord s] by blast
  have H1: "heights_inv q1" and P1: "parents_inv q1" and P: "parents_inv q"
    using q1(2) inv by (auto simp: queue_inv_def)
  have "(x, b) \<in> set (queued_blocks q1)" using map_of_SomeD[OF b(1)] b(2) by (simp add: q1(4))
  then have b1: "queue_map q1 x = Some b" by (rule map_of_is_SomeI[OF parents_invD(1)[OF P1]])
  have "c \<in> set cs" unfolding q1(3) using c by blast
  then have "queued_height b \<in> set (map queued_height cs)" unfolding set_map c(3)[symmetric] by (rule imageI)
  then have gone: "fst e \<noteq> queued_height b" if "e \<in> set (by_height q1)" for e
    using that unfolding q1(5) by (simp del: set_map) metis
  have "x \<notin> ?X"
  proof
    assume "x \<in> ?X"
    then obtain h l where hl: "(h, l) \<in> set (by_height q1)" "x \<in> set l" by auto
    then have "\<exists>b. queue_map q1 x = Some b \<and> queued_height b = h" using H1 unfolding heights_inv_def by blast
    then show False using gone[OF hl(1)] b1 by simp
  qed
  then have "queue_map q2 x = Some b" unfolding q2(2) map_of_filter_keys using b1 by simp
  with q1(1) q2(1) show ?thesis by (intro exI conjI)
qed

theorem siblings_escape_pruning_witness:
  "\<exists>cs q1 q2 out.
     dequeue_children id (replicate 32 2) (queue (waiting 3 1 11) (queue (waiting 3 2 10) QueuedBlocks_default)) = Some (cs, q1) \<and>
     prune_by_height id (Height 3) q1 = Some (q2, out) \<and> queue_map q2 (replicate 32 11) = Some (waiting 3 1 11)"
proof (rule siblings_escape_pruning)
  let ?q = "queue (waiting 3 1 11) (queue (waiting 3 2 10) QueuedBlocks_default)"
  show "queue_inv ?q" by (intro queue_inv_queue queue_inv_default)
  show "queue_map ?q (replicate 32 11) = Some (waiting 3 1 11)" "queue_map ?q (replicate 32 10) = Some (waiting 3 2 10)"
    by (simp_all add: queue_def QueuedBlocks_default_def map_insert_def waiting_simps)
  show "height_add (Height 3) 1 \<noteq> None" using height_add_eq[of 1 "Height 3"] by (simp add: i64_defs)
qed (simp_all add: hash_order_id waiting_simps)

text \<open>C30: Pruning the sent hashes is exact for batches in height order, and only for those. If every batch is in the
  order of heights, pruning to a height forgets exactly the hashes recorded at or below it. But in any batch, a hash
  recorded behind a block above the pruned height stays known, whatever its own height is.\<close>

theorem sent_pruning_needs_height_order:
  assumes "sent_contains x s"
  shows "((\<forall>buf\<in>sent_batches s. sorted_wrt (\<lambda>a b. snd a \<le> snd b) buf) \<longrightarrow>
      (sent_contains x (sent_prune_by_height t s) \<longleftrightarrow> (\<forall>buf\<in>sent_batches s. \<forall>h. (x, h) \<in> set buf \<longrightarrow> t < h))) \<and>
    ((\<forall>buf\<in>sent_batches s. x \<in> fst ` set buf \<longrightarrow>
        (\<exists>pre e post. buf = pre @ e # post \<and> t < snd e \<and> x \<notin> fst ` set pre)) \<longrightarrow>
      sent_contains x (sent_prune_by_height t s))"
proof (intro conjI impI)
  assume sorted: "\<forall>buf\<in>sent_batches s. sorted_wrt (\<lambda>a b. snd a \<le> snd b) buf"
  have "x \<notin> expired t buf \<longleftrightarrow> (\<forall>h. (x, h) \<in> set buf \<longrightarrow> t < h)" if "buf \<in> sent_batches s" for buf
    using expired_sorted[OF bspec[OF sorted that], of t] by (force simp: not_le)
  then show "sent_contains x (sent_prune_by_height t s) \<longleftrightarrow> (\<forall>buf\<in>sent_batches s. \<forall>h. (x, h) \<in> set buf \<longrightarrow> t < h)"
    using assms by (simp add: sent_prune_by_height_eq)
next
  assume hidden: "\<forall>buf\<in>sent_batches s. x \<in> fst ` set buf \<longrightarrow>
    (\<exists>pre e post. buf = pre @ e # post \<and> t < snd e \<and> x \<notin> fst ` set pre)"
  have "x \<notin> expired t buf" if member: "buf \<in> sent_batches s" for buf
  proof (cases "x \<in> fst ` set buf")
    case True
    then obtain pre e post where buf: "buf = pre @ e # post" "t < snd e" "x \<notin> fst ` set pre" using hidden member by blast
    then have "set (takeWhile (\<lambda>e. snd e \<le> t) buf) \<subseteq> set pre"
      by (cases "\<forall>d\<in>set pre. snd d \<le> t") (auto simp: takeWhile_append not_le dest: set_takeWhileD)
    then show ?thesis using buf(3) by (auto simp: expired_def)
  next
    case False
    then show ?thesis by (auto simp: expired_def dest: set_takeWhileD)
  qed
  then show "sent_contains x (sent_prune_by_height t s)" using assms by (simp add: sent_prune_by_height_eq)
qed

theorem sent_pruning_needs_height_order_witness:
  "sent_contains (replicate 32 11) (sent_prune_by_height (Height 4)
     (fold sent_add [fst (waiting 5 1 10), fst (waiting 4 2 11)] SentHashes_default))"
proof -
  let ?s = "fold sent_add [fst (waiting 5 1 10), fst (waiting 4 2 11)] SentHashes_default"
  have "sent_contains (replicate 32 11) ?s" "sent_batches ?s = {[(replicate 32 10, Height 5), (replicate 32 11, Height 4)]}"
    by (simp_all add: sent_contains_def sent_batches_def sent_add_def SentHashes_default_def waiting_def sample_block_def)
  moreover have "(Height 4 :: Height) < Height 5" by (simp add: Height_less_iff)
  moreover have "[(replicate 32 10, Height 5), (replicate 32 11, Height 4)] =
      [] @ (replicate 32 10, Height 5) # [(replicate 32 11, Height 4)]" by simp
  ultimately show ?thesis
    using sent_pruning_needs_height_order[of "replicate 32 11" ?s "Height 4"] by fastforce
qed

end
