(* ===== verification/State_Service.thy ===== *)
theory State_Service
  imports Write_Task Queued_Blocks
begin

text \<open>
  The state service (\<^verbatim>\<open>zebra-state/src/service.rs\<close>): the requests that write, the queues in front of the
  write task, and the answers. One record holds the service, the two channels to the write task as the
  lists of messages not yet received, the task itself (theory \<^verbatim>\<open>Write_Task\<close>), and the results sent so
  far, each with the number of its result channel. A handler of the service runs to completion; steps of
  the write task may come between handlers. Pending UTXO requests, metrics and dropping the service are
  not modelled, nor is the result the write task itself sends for a checkpoint verified block.
\<close>

section \<open>Data\<close>

datatype service_result =
    WriteResult write_response
  | CheckpointResult "string + bytes"
  | ReconsiderFailed string

record ('o, 'u) StateService =
  full_verifier_utxo_lookahead :: Height
  mandatory_checkpoint_height :: Height
  non_finalized_state_queued_blocks :: "('o, 'u) QueuedBlocks"
  finalized_state_queued_blocks :: "(bytes \<times> ('o, 'u) QueuedSemanticallyVerified) list"
  finalized_sender :: bool
  non_finalized_sender :: bool
  finalized_messages :: "('o, 'u) QueuedSemanticallyVerified list"
  non_finalized_messages :: "(NonFinalizedWriteMessage \<times> nat) list"
  finalized_block_write_last_sent_hash :: bytes
  non_finalized_block_write_sent_hashes :: "('o, 'u) SentHashes"
  write_task :: WriteBlockWorkerTask
  task_exited :: bool
  next_channel :: nat
  results :: "(nat \<times> service_result) list"

abbreviation service_db :: "('o, 'u) StateService \<Rightarrow> ZebraDb" where
  "service_db s \<equiv> finalized_state (write_task s)"

abbreviation service_queue :: "('o, 'u) StateService \<Rightarrow> ('o, 'u) QueuedBlocks" where
  "service_queue s \<equiv> non_finalized_state_queued_blocks s"

abbreviation sent_hashes :: "('o, 'u) StateService \<Rightarrow> ('o, 'u) SentHashes" where
  "sent_hashes s \<equiv> non_finalized_block_write_sent_hashes s"

definition respond :: "nat \<Rightarrow> service_result \<Rightarrow> ('o, 'u) StateService \<Rightarrow> ('o, 'u) StateService" where
  "respond tx r s = s\<lparr>results := results s @ [(tx, r)]\<rparr>"

abbreviation commit_error :: "ValidateContextError \<Rightarrow> service_result" where
  "commit_error e \<equiv> WriteResult (CommitResult (Inl e))"

text \<open>The check for a legacy chain at start-up is not part of the model.\<close>

definition StateService_new :: "Height \<Rightarrow> nat \<Rightarrow> Height \<Rightarrow> ZebraDb \<Rightarrow> ('o, 'u) StateService option" where
  "StateService_new max_checkpoint_height checkpoint_verify_concurrency_limit mandatory d = do {
     limit \<leftarrow> checked_i64 (int checkpoint_verify_concurrency_limit);
     Some \<lparr>full_verifier_utxo_lookahead =
             (case height_sub max_checkpoint_height limit of Some h \<Rightarrow> h | None \<Rightarrow> Height_MIN),
           mandatory_checkpoint_height = mandatory,
           non_finalized_state_queued_blocks = QueuedBlocks_default, finalized_state_queued_blocks = [],
           finalized_sender = True, non_finalized_sender = True, finalized_messages = [], non_finalized_messages = [],
           finalized_block_write_last_sent_hash = finalized_tip_hash d,
           non_finalized_block_write_sent_hashes = SentHashes_default,
           write_task = spawn_worker d NonFinalizedState_new, task_exited = False, next_channel = 0, results = []\<rparr> }"

section \<open>Checkpoint verified blocks\<close>

definition is_close_to_final_checkpoint :: "Height \<Rightarrow> ('o, 'u) StateService \<Rightarrow> bool" where
  "is_close_to_final_checkpoint h s \<longleftrightarrow> h \<ge> full_verifier_utxo_lookahead s"

definition clear_finalized_block_queue :: "string \<Rightarrow> ('o, 'u) StateService \<Rightarrow> ('o, 'u) StateService" where
  "clear_finalized_block_queue e s =
     s\<lparr>finalized_state_queued_blocks := [],
       results := results s @ map (\<lambda>b. (snd (snd b), CheckpointResult (Inl e))) (finalized_state_queued_blocks s)\<rparr>"

text \<open>Blocks follow each other by parent hash; a closed channel empties the queue, which ends the loop.\<close>

definition send_finalized :: "('o, 'u) QueuedSemanticallyVerified \<Rightarrow> ('o, 'u) StateService \<Rightarrow> ('o, 'u) StateService" where
  "send_finalized b s =
     (if \<not> finalized_sender s then s
      else if task_exited s
      then clear_finalized_block_queue ''block commit task exited. Is Zebra shutting down?''
        (respond (snd b) (CheckpointResult (Inl ''block commit task exited. Is Zebra shutting down?'')) s)
      else s\<lparr>finalized_messages := finalized_messages s @ [b]\<rparr>)"

lemma send_finalized_queue:
  "length (finalized_state_queued_blocks (send_finalized b s)) \<le> length (finalized_state_queued_blocks s)"
  by (simp add: send_finalized_def clear_finalized_block_queue_def respond_def)

function send_finalized_blocks :: "('o, 'u) StateService \<Rightarrow> ('o, 'u) StateService" where
  "send_finalized_blocks s =
     (case map_of (finalized_state_queued_blocks s) (finalized_block_write_last_sent_hash s) of
        None \<Rightarrow> s
      | Some b \<Rightarrow> send_finalized_blocks (send_finalized b
          (s\<lparr>finalized_state_queued_blocks :=
               filter (\<lambda>e. fst e \<noteq> finalized_block_write_last_sent_hash s) (finalized_state_queued_blocks s),
             finalized_block_write_last_sent_hash := queued_hash b\<rparr>)))"
  by pat_completeness auto
termination
proof (relation "measure (\<lambda>s. length (finalized_state_queued_blocks s))")
  fix s :: "('o, 'u) StateService" and b
  assume b: "map_of (finalized_state_queued_blocks s) (finalized_block_write_last_sent_hash s) = Some b"
  let ?m = "filter (\<lambda>e. fst e \<noteq> finalized_block_write_last_sent_hash s) (finalized_state_queued_blocks s)"
  let ?s = "s\<lparr>finalized_state_queued_blocks := ?m, finalized_block_write_last_sent_hash := queued_hash b\<rparr>"
  have "length ?m < length (finalized_state_queued_blocks s)"
    by (rule length_filter_less[OF map_of_SomeD[OF b]]) simp
  then show "(send_finalized b ?s, s) \<in> measure (\<lambda>s. length (finalized_state_queued_blocks s))"
    using send_finalized_queue[of b ?s] by simp
qed simp

declare send_finalized_blocks.simps [simp del]

text \<open>A reset from the write task, if there is one, names the block to continue from.\<close>

definition drain_finalized_queue_and_commit :: "('o, 'u) StateService \<Rightarrow> ('o, 'u) StateService" where
  "drain_finalized_queue_and_commit s = (case invalid_block_reset_sender (write_task s) of
      reset_tip_hash # rest \<Rightarrow> send_finalized_blocks
        (s\<lparr>write_task := (write_task s)\<lparr>invalid_block_reset_sender := rest\<rparr>,
           finalized_block_write_last_sent_hash := reset_tip_hash\<rparr>)
    | [] \<Rightarrow> if task_exited s then s else send_finalized_blocks s)"

definition ALREADY_FINISHED :: string where
  "ALREADY_FINISHED =
     ''already finished committing checkpoint verified blocks: dropped duplicate block, block is already committed to the state''"

definition queue_and_commit_to_finalized_state ::
  "('o, 'u) SemanticallyVerifiedBlock \<Rightarrow> nat \<Rightarrow> ('o, 'u) StateService \<Rightarrow> ('o, 'u) StateService" where
  "queue_and_commit_to_finalized_state b tx s =
     (let s = (if is_close_to_final_checkpoint (fst (verified b)) s
               then s\<lparr>non_finalized_block_write_sent_hashes := sent_add b (sent_hashes s)\<rparr> else s);
          p = prev_hash (verified b)
      in if finalized_sender s
         then drain_finalized_queue_and_commit
           (let t = s\<lparr>finalized_state_queued_blocks := map_insert p (b, tx) (finalized_state_queued_blocks s)\<rparr> in
            case map_of (finalized_state_queued_blocks s) p of
              None \<Rightarrow> t
            | Some old \<Rightarrow> respond (snd old)
                (CheckpointResult (Inl ''dropping older checkpoint verified block: got newer duplicate block'')) t)
         else clear_finalized_block_queue ALREADY_FINISHED
           (respond tx (CheckpointResult (Inl ALREADY_FINISHED)) s))"


section \<open>Semantically verified blocks\<close>

definition db_contains_height :: "ZebraDb \<Rightarrow> Height \<Rightarrow> bool" where
  "db_contains_height d h \<longleftrightarrow> db_hash d h \<noteq> None"

definition can_fork_chain_at :: "bytes \<Rightarrow> ('o, 'u) StateService \<Rightarrow> bool" where
  "can_fork_chain_at x s \<longleftrightarrow> sent_can_fork_chain_at x (sent_hashes s) \<or> finalized_tip_hash (service_db s) = x"

definition send_commit :: "('o, 'u) QueuedSemanticallyVerified \<Rightarrow> ('o, 'u) StateService \<Rightarrow> ('o, 'u) StateService" where
  "send_commit b s =
     s\<lparr>non_finalized_block_write_sent_hashes := sent_add (fst b) (sent_hashes s),
       non_finalized_messages := non_finalized_messages s @ [(Commit (verified (fst b)), snd b)]\<rparr>"

text \<open>The write task has exited: the first child is answered, then the blocks still in the queue. The other
  dequeued children are dropped, which their requesters see as \<^verbatim>\<open>NotReadyToBeCommitted\<close>.\<close>

definition clear_non_finalized_block_queue :: "ValidateContextError \<Rightarrow> ('o, 'u) StateService \<Rightarrow> ('o, 'u) StateService" where
  "clear_non_finalized_block_queue e s =
     (let (drained, q) = drain (service_queue s) in
      s\<lparr>non_finalized_state_queued_blocks := q, results := results s @ map (\<lambda>b. (snd (snd b), commit_error e)) drained\<rparr>)"

text \<open>The write task is gone: the first child is answered and the queue cleared. The other children are dropped with
  their result channels; the answer recorded for them is the one that \<^verbatim>\<open>Service::call\<close> gives for a closed channel.\<close>

definition send_failed :: "('o, 'u) QueuedSemanticallyVerified list \<Rightarrow> ('o, 'u) StateService \<Rightarrow> ('o, 'u) StateService" where
  "send_failed cs s =
     (let s = s\<lparr>non_finalized_block_write_sent_hashes := sent_add (fst (hd cs)) (sent_hashes s)\<rparr>;
          s = respond (snd (hd cs)) (commit_error CommitTaskExited) s;
          s = clear_non_finalized_block_queue CommitTaskExited s
      in s\<lparr>results := results s @ map (\<lambda>b. (snd b, commit_error NotReadyToBeCommitted)) (tl cs)\<rparr>)"

lemma take_queued_length:
  "take_queued xs m = Some (bs, m') \<Longrightarrow> length m' + length bs \<le> length m"
proof (induction xs arbitrary: m bs)
  case (Cons x xs)
  from Cons.prems obtain b bs1 where b: "map_of m x = Some b" "take_queued xs (filter (\<lambda>e. fst e \<noteq> x) m) = Some (bs1, m')" "bs = b # bs1"
    by (auto split: option.splits)
  have "length (filter (\<lambda>e. fst e \<noteq> x) m) < length m" by (rule length_filter_less[OF map_of_SomeD[OF b(1)]]) simp
  with Cons.IH[OF b(2)] b(3) show ?case by simp
qed simp

lemma dequeue_children_length:
  "dequeue_children iter p q = Some (cs, q') \<Longrightarrow> length (queued_blocks q') + length cs \<le> length (queued_blocks q)"
  by (auto simp: dequeue_children_def dest: take_queued_length split: bind_splits)

lemma fold_send_commit:
  "fold send_commit cs s = s\<lparr>non_finalized_block_write_sent_hashes := fold (\<lambda>b. sent_add (fst b)) cs (sent_hashes s),
     non_finalized_messages := non_finalized_messages s @ map (\<lambda>b. (Commit (verified (fst b)), snd b)) cs\<rparr>"
  by (induction cs arbitrary: s) (simp_all add: send_commit_def)

text \<open>\<open>new_parents\<close> is the vector with its last element first: it is used as a stack.\<close>

function send_ready :: "(bytes list \<Rightarrow> bytes list) \<Rightarrow> bytes list \<Rightarrow> ('o, 'u) StateService \<Rightarrow> ('o, 'u) StateService option" where
  "send_ready iter [] s = Some (s\<lparr>non_finalized_block_write_sent_hashes := finish_batch (sent_hashes s)\<rparr>)"
| "send_ready iter (parent_hash # new_parents) s =
     (case dequeue_children iter parent_hash (service_queue s) of
        None \<Rightarrow> None
      | Some (queued_children, q) \<Rightarrow>
          let s = s\<lparr>non_finalized_state_queued_blocks := q\<rparr> in
          if queued_children \<noteq> [] \<and> task_exited s then Some (send_failed queued_children s)
          else send_ready iter (rev (map queued_hash queued_children) @ new_parents)
                 (fold send_commit queued_children s))"
  by pat_completeness auto
termination
  by (relation "measure (\<lambda>(iter, ps, s). 2 * length (queued_blocks (service_queue s)) + length ps)")
    (auto simp: fold_send_commit dest!: dequeue_children_length)

declare send_ready.simps(2) [simp del]

definition send_ready_non_finalized_queued ::
  "(bytes list \<Rightarrow> bytes list) \<Rightarrow> bytes \<Rightarrow> ('o, 'u) StateService \<Rightarrow> ('o, 'u) StateService option" where
  "send_ready_non_finalized_queued iter new_parent s =
     (if non_finalized_sender s then send_ready iter [new_parent] s else Some s)"

definition queue_block :: "('o, 'u) SemanticallyVerifiedBlock \<Rightarrow> nat \<Rightarrow> ('o, 'u) StateService \<Rightarrow> ('o, 'u) StateService" where
  "queue_block b tx s =
     (case replace_sender (block_hash (verified b)) tx (service_queue s) of
        Some (old_tx, q) \<Rightarrow> respond old_tx (commit_error (ReplacedByNewerRequest (block_hash (verified b))))
          (s\<lparr>non_finalized_state_queued_blocks := q\<rparr>)
      | None \<Rightarrow> s\<lparr>non_finalized_state_queued_blocks := queue (b, tx) (service_queue s)\<rparr>)"

definition prune_service ::
  "(bytes list \<Rightarrow> bytes list) \<Rightarrow> ('o, 'u) StateService \<Rightarrow> ('o, 'u) StateService option" where
  "prune_service iter s = do {
     (finalized_tip_height, _) \<leftarrow> db_tip (service_db s);
     (q, out) \<leftarrow> prune_by_height iter finalized_tip_height (service_queue s);
     Some (s\<lparr>non_finalized_state_queued_blocks := q,
             results := results s @ map (\<lambda>(tx, e). (tx, commit_error e)) out,
             non_finalized_block_write_sent_hashes := sent_prune_by_height finalized_tip_height (sent_hashes s)\<rparr>) }"

definition queue_and_commit_to_non_finalized_state ::
  "(bytes list \<Rightarrow> bytes list) \<Rightarrow> ('o, 'u) SemanticallyVerifiedBlock \<Rightarrow> nat \<Rightarrow> ('o, 'u) StateService \<Rightarrow>
   ('o, 'u) StateService option" where
  "queue_and_commit_to_non_finalized_state iter b tx s =
     (let x = block_hash (verified b); h = fst (verified b); parent_hash = prev_hash (verified b) in
      if sent_contains x (sent_hashes s) then Some (respond tx (commit_error (DuplicateCommitRequest x)) s)
      else if db_contains_height (service_db s) h then Some (respond tx (commit_error (AlreadyFinalized h)) s)
      else
        let s = queue_block b tx s; last_sent = finalized_block_write_last_sent_hash s in
        if finalized_sender s \<and> has_queued_children last_sent (service_queue s) \<and>
           finalized_tip_hash (service_db s) = last_sent
        then map_option (clear_finalized_block_queue ALREADY_FINISHED)
          (send_ready_non_finalized_queued iter last_sent
             (s\<lparr>finalized_sender := False,
                non_finalized_block_write_sent_hashes := SentHashes_default\<lparr>can_fork_chain_at_hashes := True\<rparr>\<rparr>))
        else if \<not> can_fork_chain_at parent_hash s then Some s
        else if \<not> finalized_sender s
        then Option.bind (send_ready_non_finalized_queued iter parent_hash s) (prune_service iter)
        else Some s)"

section \<open>Crosslink finalization and invalidation\<close>

definition send_message :: "NonFinalizedWriteMessage \<Rightarrow> nat \<Rightarrow> ('o, 'u) StateService \<Rightarrow> ('o, 'u) StateService" where
  "send_message m tx s = s\<lparr>non_finalized_messages := non_finalized_messages s @ [(m, tx)]\<rparr>"

text \<open>On a closed channel the message is dropped with its result channel.\<close>

definition send_crosslink_finalized_to_non_finalized_state ::
  "bytes \<Rightarrow> nat \<Rightarrow> ('o, 'u) StateService \<Rightarrow> ('o, 'u) StateService" where
  "send_crosslink_finalized_to_non_finalized_state x tx s =
     (if \<not> finalized_sender s \<and> non_finalized_sender s
      then if task_exited s
           then respond tx (WriteResult (CrosslinkResult (Inl ''block was dropped from the queue of finalized blocks''))) s
           else send_message (CrosslinkFinalized x) tx s
      else respond tx (WriteResult (CrosslinkResult (Inl ''not ready to crosslink-finalize blocks''))) s)"

definition send_invalidate_block :: "bytes \<Rightarrow> nat \<Rightarrow> ('o, 'u) StateService \<Rightarrow> ('o, 'u) StateService" where
  "send_invalidate_block x tx s =
     (if \<not> non_finalized_sender s
      then respond tx (WriteResult (InvalidateResult
        (Inl ''cannot invalidate blocks while still committing checkpointed blocks''))) s
      else if task_exited s
      then respond tx (WriteResult (InvalidateResult
        (Inl ''failed to send invalidate block request to block write task''))) s
      else send_message (Invalidate x) tx s)"

definition send_reconsider_block :: "bytes \<Rightarrow> nat \<Rightarrow> ('o, 'u) StateService \<Rightarrow> ('o, 'u) StateService" where
  "send_reconsider_block x tx s =
     (if \<not> non_finalized_sender s
      then respond tx (ReconsiderFailed ''cannot reconsider blocks while still committing checkpointed blocks'') s
      else if task_exited s
      then respond tx (ReconsiderFailed ''failed to send reconsider block request to block write task'') s
      else send_message (Reconsider x) tx s)"

section \<open>The write task and its callers\<close>

text \<open>One message: checkpoint verified blocks until their channel is closed and empty, then the others.\<close>

definition write_task_step :: "Checks \<Rightarrow> ('o, 'u) StateService \<Rightarrow> ('o, 'u) StateService option" where
  "write_task_step k s = (case finalized_messages s of
      b # bs \<Rightarrow> map_option (\<lambda>w. s\<lparr>write_task := w, finalized_messages := bs\<rparr>)
        (write_finalized_block k (verified (fst b)) (write_task s))
    | [] \<Rightarrow> if finalized_sender s then Some s
        else (case non_finalized_messages s of
            [] \<Rightarrow> Some s
          | (m, tx) # ms \<Rightarrow> map_option
              (\<lambda>(r, w). respond tx (WriteResult r) (s\<lparr>write_task := w, non_finalized_messages := ms\<rparr>))
              (write_message k m (write_task s))))"

fun await_result :: "Checks \<Rightarrow> nat \<Rightarrow> nat \<Rightarrow> ('o, 'u) StateService \<Rightarrow> ('o, 'u) StateService option" where
  "await_result k tx 0 s = Some s"
| "await_result k tx (Suc n) s =
     (if tx \<in> fst ` set (results s) then Some s else Option.bind (write_task_step k s) (await_result k tx n))"

text \<open>The handlers of \<^verbatim>\<open>Service::call\<close> up to the result channel.\<close>

definition commit_semantically_verified_block ::
  "(bytes list \<Rightarrow> bytes list) \<Rightarrow> ('o, 'u) SemanticallyVerifiedBlock \<Rightarrow> ('o, 'u) StateService \<Rightarrow> ('o, 'u) StateService option" where
  "commit_semantically_verified_block iter b s =
     (if fst (verified b) > mandatory_checkpoint_height s
      then queue_and_commit_to_non_finalized_state iter b (next_channel s) (s\<lparr>next_channel := Suc (next_channel s)\<rparr>)
      else None)"

definition commit_checkpoint_verified_block ::
  "('o, 'u) SemanticallyVerifiedBlock \<Rightarrow> ('o, 'u) StateService \<Rightarrow> ('o, 'u) StateService" where
  "commit_checkpoint_verified_block b s =
     queue_and_commit_to_finalized_state b (next_channel s) (s\<lparr>next_channel := Suc (next_channel s)\<rparr>)"

text \<open>A caller waits while the task works through the messages in front of its own.\<close>

definition pending_messages :: "('o, 'u) StateService \<Rightarrow> nat" where
  "pending_messages s = length (finalized_messages s) + length (non_finalized_messages s)"

definition published :: "('o, 'u) StateService \<Rightarrow> read_state" where
  "published s = \<lparr>chain_iter = chain_set (non_finalized_state_sender (write_task s)), db = service_db s\<rparr>"

definition crosslink_finalize_call ::
  "Checks \<Rightarrow> bytes \<Rightarrow> ('o, 'u) StateService \<Rightarrow> ((string + StateResponse) \<times> ('o, 'u) StateService) option" where
  "crosslink_finalize_call k x s =
     (let tx = next_channel s;
          s = send_crosslink_finalized_to_non_finalized_state x tx (s\<lparr>next_channel := Suc tx\<rparr>)
      in do {
        s \<leftarrow> await_result k tx (pending_messages s) s;
        case map_of (results s) tx of
          Some (WriteResult (CrosslinkResult r)) \<Rightarrow>
            Some (case r of Inl e \<Rightarrow> Inl e | Inr y \<Rightarrow> Inr (RespCrosslinkFinalized y), s)
        | _ \<Rightarrow> None })"

definition state_call ::
  "Checks \<Rightarrow> (bytes \<Rightarrow> read_state \<Rightarrow> Height option) \<Rightarrow> StateRequest \<Rightarrow> ('o, 'u) StateService \<Rightarrow>
   ((string + StateResponse) \<times> ('o, 'u) StateService) option" where
  "state_call k find_transaction req s = (case req of
      ReqCrosslinkFinalizeBlock x \<Rightarrow> crosslink_finalize_call k x s
    | ReqTransaction x \<Rightarrow> Some (Inr (RespTransaction (find_transaction x (published s))), s)
    | _ \<Rightarrow> map_option (\<lambda>r. (r, s)) (read_request (\<lambda>_ _. None) req (published s)))"


section \<open>Ready blocks are sent\<close>

lemma queue_values_distinct:
  assumes "parents_inv q"
  shows "distinct (map snd (queued_blocks q))" "b \<in> snd ` set (queued_blocks q) \<longleftrightarrow> (\<exists>x. queue_map q x = Some b)"
proof -
  have hash: "queued_hash (snd e) = fst e" if "e \<in> set (queued_blocks q)" for e
    using parents_invD(2)[OF assms, of "fst e" "snd e"] map_of_is_SomeI[OF parents_invD(1)[OF assms], of "fst e" "snd e"] that by simp
  then have "map queued_hash (map snd (queued_blocks q)) = map fst (queued_blocks q)" by simp
  then have "distinct (map queued_hash (map snd (queued_blocks q)))" using parents_invD(1)[OF assms] by (simp only:)
  then show "distinct (map snd (queued_blocks q))" using distinct_map by blast
  show "b \<in> snd ` set (queued_blocks q) \<longleftrightarrow> (\<exists>x. queue_map q x = Some b)"
    using map_of_is_SomeI[OF parents_invD(1)[OF assms]] by (force dest: map_of_SomeD)
qed

lemma dequeue_children_split:
  assumes inv: "queue_inv q" and ord: "hash_order iter"
  obtains cs q' where "dequeue_children iter p q = Some (cs, q')" "queue_inv q'"
    "mset (map snd (queued_blocks q)) = mset cs + mset (map snd (queued_blocks q'))"
    "\<And>b. b \<in> set cs \<Longrightarrow> queued_parent b = p" "\<And>e. e \<in> set (queued_blocks q') \<Longrightarrow> queued_parent (snd e) \<noteq> p"
proof -
  have P: "parents_inv q" using inv by (simp add: queue_inv_def)
  obtain cs q' where d: "dequeue_children iter p q = Some (cs, q')" "queue_inv q'" "distinct (map queued_hash cs)"
    "set cs = {b. \<exists>x. queue_map q x = Some b \<and> queued_parent b = p}"
    "queued_blocks q' = filter (\<lambda>e. queued_parent (snd e) \<noteq> p) (queued_blocks q)"
    by (rule dequeue_children_ok[OF inv ord, of p])
  let ?all = "map snd (queued_blocks q)"
  have "set cs = set (filter (\<lambda>b. queued_parent b = p) ?all)"
    unfolding d(4) using queue_values_distinct(2)[OF P] by auto
  moreover have "distinct cs" using d(3) distinct_map by blast
  moreover have "distinct (filter (\<lambda>b. queued_parent b = p) ?all)" using queue_values_distinct(1)[OF P] by simp
  ultimately have cs: "mset cs = filter_mset (\<lambda>b. queued_parent b = p) (mset ?all)"
    unfolding mset_filter[symmetric] using set_eq_iff_mset_eq_distinct by blast
  have rest: "map snd (queued_blocks q') = filter (\<lambda>b. \<not> queued_parent b = p) ?all"
    unfolding d(5) by (simp add: filter_map comp_def)
  have "mset ?all = mset cs + mset (map snd (queued_blocks q'))"
    unfolding cs rest mset_filter by (rule multiset_partition)
  moreover have "queued_parent b = p" if "b \<in> set cs" for b using that unfolding d(4) by blast
  moreover have "queued_parent (snd e) \<noteq> p" if "e \<in> set (queued_blocks q')" for e using that unfolding d(5) by simp
  ultimately show ?thesis by (rule that[OF d(1,2)])
qed

definition commit_message :: "('o, 'u) QueuedSemanticallyVerified \<Rightarrow> NonFinalizedWriteMessage \<times> nat" where
  "commit_message b = (Commit (verified (fst b)), snd b)"

definition parents_first :: "bytes set \<Rightarrow> ('o, 'u) QueuedSemanticallyVerified list \<Rightarrow> bool" where
  "parents_first known bs \<longleftrightarrow> (\<forall>i<length bs. queued_parent (bs ! i) \<in> known \<union> queued_hash ` set (take i bs))"

lemma parents_first_append:
  assumes "\<And>c. c \<in> set cs \<Longrightarrow> queued_parent c \<in> known" "parents_first (known \<union> queued_hash ` set cs) bs"
  shows "parents_first known (cs @ bs)"
  unfolding parents_first_def
proof (intro allI impI)
  fix i assume i: "i < length (cs @ bs)"
  show "queued_parent ((cs @ bs) ! i) \<in> known \<union> queued_hash ` set (take i (cs @ bs))"
  proof (cases "i < length cs")
    case True
    then show ?thesis using assms(1)[OF nth_mem[OF True]] by (simp add: nth_append)
  next
    case False
    then have "queued_parent (bs ! (i - length cs)) \<in> known \<union> queued_hash ` set cs \<union> queued_hash ` set (take (i - length cs) bs)"
      using assms(2) i unfolding parents_first_def by auto
    then show ?thesis using False by (simp add: nth_append image_Un)
  qed
qed

lemma send_ready_ok:
  "hash_order iter \<Longrightarrow> queue_inv (service_queue s) \<Longrightarrow> \<not> task_exited s \<Longrightarrow>
   \<exists>q bs. send_ready iter ps s = Some (s\<lparr>non_finalized_state_queued_blocks := q,
       non_finalized_block_write_sent_hashes := finish_batch (fold (\<lambda>b. sent_add (fst b)) bs (sent_hashes s)),
       non_finalized_messages := non_finalized_messages s @ map commit_message bs\<rparr>) \<and>
     queue_inv q \<and> parents_first (set ps) bs \<and>
     mset (map snd (queued_blocks (service_queue s))) = mset bs + mset (map snd (queued_blocks q)) \<and>
     (\<forall>e\<in>set (queued_blocks q). queued_parent (snd e) \<notin> set ps \<union> queued_hash ` set bs)"
proof (induction iter ps s rule: send_ready.induct)
  case (1 iter s)
  then show ?case by (intro exI[of _ "service_queue s"] exI[of _ "[]"]) (simp add: parents_first_def)
next
  case (2 iter p ps s)
  obtain cs q1 where d: "dequeue_children iter p (service_queue s) = Some (cs, q1)" "queue_inv q1"
    "mset (map snd (queued_blocks (service_queue s))) = mset cs + mset (map snd (queued_blocks q1))"
    "\<And>b. b \<in> set cs \<Longrightarrow> queued_parent b = p" "\<And>e. e \<in> set (queued_blocks q1) \<Longrightarrow> queued_parent (snd e) \<noteq> p"
    using dequeue_children_split[OF 2(3,2), of p] by metis
  define s1 where "s1 = fold send_commit cs (s\<lparr>non_finalized_state_queued_blocks := q1\<rparr>)"
  have s1: "service_queue s1 = q1" "\<not> task_exited s1" using 2(4) by (simp_all add: s1_def fold_send_commit)
  have step: "send_ready iter (p # ps) s = send_ready iter (rev (map queued_hash cs) @ ps) s1"
    using 2(4) by (simp add: send_ready.simps(2) d(1) s1_def)
  obtain q bs where IH: "send_ready iter (rev (map queued_hash cs) @ ps) s1 = Some (s1\<lparr>non_finalized_state_queued_blocks := q,
      non_finalized_block_write_sent_hashes := finish_batch (fold (\<lambda>b. sent_add (fst b)) bs (sent_hashes s1)),
      non_finalized_messages := non_finalized_messages s1 @ map commit_message bs\<rparr>)" "queue_inv q"
    "parents_first (set (rev (map queued_hash cs) @ ps)) bs"
    "mset (map snd (queued_blocks q1)) = mset bs + mset (map snd (queued_blocks q))"
    "\<forall>e\<in>set (queued_blocks q). queued_parent (snd e) \<notin> set (rev (map queued_hash cs) @ ps) \<union> queued_hash ` set bs"
    using 2(1)[OF d(1) refl refl] 2(2,4) d(2) s1 unfolding s1_def by auto
  have "parents_first (set (p # ps)) (cs @ bs)"
  proof (rule parents_first_append)
    show "parents_first (set (p # ps) \<union> queued_hash ` set cs) bs"
      using IH(3) unfolding parents_first_def by fastforce
  qed (use d(4) in simp)
  moreover have "set (map snd (queued_blocks q)) \<subseteq> set (map snd (queued_blocks q1))"
    using arg_cong[OF IH(4), of set_mset] by (simp only: set_mset_mset set_mset_union) blast
  then have "queued_parent (snd e) \<noteq> p" if "e \<in> set (queued_blocks q)" for e using d(5) that by fastforce
  then have "\<forall>e\<in>set (queued_blocks q). queued_parent (snd e) \<notin> set (p # ps) \<union> queued_hash ` set (cs @ bs)"
    using IH(5) by auto
  moreover have "mset (map snd (queued_blocks (service_queue s))) = mset (cs @ bs) + mset (map snd (queued_blocks q))"
    unfolding d(3) IH(4) by simp
  moreover have "s1\<lparr>non_finalized_state_queued_blocks := q,
      non_finalized_block_write_sent_hashes := finish_batch (fold (\<lambda>b. sent_add (fst b)) bs (sent_hashes s1)),
      non_finalized_messages := non_finalized_messages s1 @ map commit_message bs\<rparr> =
    s\<lparr>non_finalized_state_queued_blocks := q,
      non_finalized_block_write_sent_hashes := finish_batch (fold (\<lambda>b. sent_add (fst b)) (cs @ bs) (sent_hashes s)),
      non_finalized_messages := non_finalized_messages s @ map commit_message (cs @ bs)\<rparr>"
    by (simp add: s1_def fold_send_commit commit_message_def)
  ultimately show ?case using IH(2) unfolding step IH(1) by (intro exI[of _ q] exI[of _ "cs @ bs"] conjI; simp only:)
qed


text \<open>C12: When a parent becomes known, the service sends every queued block that can now be committed and
  nothing else: the loop ends, each block is sent after its parent, no block is lost or sent twice,
  and no block left in the queue waits for the new parent or for a block that was sent.\<close>

theorem ready_blocks_sent:
  assumes "hash_order iter" and "queue_inv (service_queue s)" and "non_finalized_sender s" and "\<not> task_exited s"
  shows "\<exists>s' bs. send_ready_non_finalized_queued iter p s = Some s' \<and> queue_inv (service_queue s') \<and>
    non_finalized_messages s' = non_finalized_messages s @ map commit_message bs \<and>
    parents_first {p} bs \<and>
    mset (map snd (queued_blocks (service_queue s))) = mset bs + mset (map snd (queued_blocks (service_queue s'))) \<and>
    (\<forall>e\<in>set (queued_blocks (service_queue s')). queued_parent (snd e) \<noteq> p \<and> queued_parent (snd e) \<notin> queued_hash ` set bs)"
proof -
  obtain q bs where r: "send_ready iter [p] s = Some (s\<lparr>non_finalized_state_queued_blocks := q,
       non_finalized_block_write_sent_hashes := finish_batch (fold (\<lambda>b. sent_add (fst b)) bs (sent_hashes s)),
       non_finalized_messages := non_finalized_messages s @ map commit_message bs\<rparr>)" "queue_inv q" "parents_first (set [p]) bs"
     "mset (map snd (queued_blocks (service_queue s))) = mset bs + mset (map snd (queued_blocks q))"
     "\<forall>e\<in>set (queued_blocks q). queued_parent (snd e) \<notin> set [p] \<union> queued_hash ` set bs"
    using send_ready_ok[OF assms(1,2,4), of "[p]"] by blast
  let ?s' = "s\<lparr>non_finalized_state_queued_blocks := q,
       non_finalized_block_write_sent_hashes := finish_batch (fold (\<lambda>b. sent_add (fst b)) bs (sent_hashes s)),
       non_finalized_messages := non_finalized_messages s @ map commit_message bs\<rparr>"
  have "send_ready_non_finalized_queued iter p s = Some ?s'" using r(1) assms(3) by (simp add: send_ready_non_finalized_queued_def)
  moreover have "\<forall>e\<in>set (queued_blocks q). queued_parent (snd e) \<noteq> p \<and> queued_parent (snd e) \<notin> queued_hash ` set bs"
    using r(5) by simp
  ultimately show ?thesis using r(2-4) by (intro exI[of _ ?s'] exI[of _ bs]) simp
qed

text \<open>A service past its checkpoints, with the given blocks queued.\<close>

definition sample_service :: "(nat, nat) QueuedSemanticallyVerified list \<Rightarrow> (nat, nat) StateService" where
  "sample_service bs =
     \<lparr>full_verifier_utxo_lookahead = Height 0, mandatory_checkpoint_height = Height 0,
      non_finalized_state_queued_blocks = fold queue bs QueuedBlocks_default, finalized_state_queued_blocks = [],
      finalized_sender = False, non_finalized_sender = True, finalized_messages = [], non_finalized_messages = [],
      finalized_block_write_last_sent_hash = replicate 32 2,
      non_finalized_block_write_sent_hashes = SentHashes_default\<lparr>can_fork_chain_at_hashes := True\<rparr>,
      write_task = sample_worker, task_exited = False, next_channel = 100, results = []\<rparr>"

lemma sample_service_queue: "queue_inv (service_queue (sample_service bs))"
proof -
  have "queue_inv q \<Longrightarrow> queue_inv (fold queue bs q)" for q :: "(nat, nat) QueuedBlocks"
    by (induction bs arbitrary: q) (simp_all add: queue_inv_queue(1))
  then show ?thesis by (simp add: sample_service_def queue_inv_default)
qed

theorem ready_blocks_sent_witness:
  "\<exists>s' (bs :: (nat, nat) QueuedSemanticallyVerified list).
     send_ready_non_finalized_queued id (replicate 32 2) (sample_service [waiting 4 10 12, waiting 3 2 10]) = Some s' \<and>
     non_finalized_messages s' = map commit_message bs \<and> parents_first {replicate 32 2} bs"
proof -
  let ?s = "sample_service [waiting 4 10 12, waiting 3 2 10]"
  have s: "non_finalized_sender ?s" "\<not> task_exited ?s" and m: "non_finalized_messages ?s = []"
    by (simp_all add: sample_service_def)
  from ready_blocks_sent[OF hash_order_id sample_service_queue s, of "replicate 32 2", unfolded m append_Nil]
  obtain s' and bs :: "(nat, nat) QueuedSemanticallyVerified list"
    where "send_ready_non_finalized_queued id (replicate 32 2) ?s = Some s'" "non_finalized_messages s' = map commit_message bs" "parents_first {replicate 32 2} bs" by blast
  then show ?thesis by (intro exI conjI)
qed

lemma dequeue_children_id:
  assumes "take_queued (case by_parent q p of None \<Rightarrow> [] | Some l \<Rightarrow> l) (queued_blocks q) = Some (cs, m)"
  shows "\<exists>q'. dequeue_children id p q = Some (cs, q') \<and> queued_blocks q' = m \<and> by_parent q' = (by_parent q)(p := None)"
  using assms by (simp add: dequeue_children_def)

lemma send_ready_step:
  assumes "take_queued (case by_parent (service_queue s) p of None \<Rightarrow> [] | Some l \<Rightarrow> l) (queued_blocks (service_queue s)) = Some (cs, m)"
    and "\<not> task_exited s"
  shows "\<exists>s'. send_ready id (p # ps) s = send_ready id (rev (map queued_hash cs) @ ps) s' \<and>
    queued_blocks (service_queue s') = m \<and> by_parent (service_queue s') = (by_parent (service_queue s))(p := None) \<and>
    \<not> task_exited s' \<and> non_finalized_messages s' = non_finalized_messages s @ map commit_message cs \<and>
    sent_hashes s' = fold (\<lambda>b. sent_add (fst b)) cs (sent_hashes s)"
proof -
  obtain q' where "dequeue_children id p (service_queue s) = Some (cs, q')" "queued_blocks q' = m"
    "by_parent q' = (by_parent (service_queue s))(p := None)" using dequeue_children_id[OF assms(1)] by blast
  then show ?thesis using assms(2)
    by (intro exI[of _ "fold send_commit cs (s\<lparr>non_finalized_state_queued_blocks := q'\<rparr>)"])
      (simp add: send_ready.simps(2) fold_send_commit commit_message_def)
qed



text \<open>An example: blocks are not sent in the order of their heights, although \<^verbatim>\<open>SentHashes\<close> relies on it: with two
  children of one parent, the descendants of one child are all sent before those of the other. Pruning
  the sent hashes then stops early: here the hash of a block at height 4 is still recorded after pruning
  up to height 4.\<close>

lemma fork_sent_out_of_height_order:
  "\<exists>s'. send_ready_non_finalized_queued id (replicate 32 2)
     (sample_service [waiting 3 2 10, waiting 3 2 11, waiting 4 10 12, waiting 4 11 13, waiting 5 12 14]) = Some s' \<and>
   non_finalized_messages s' =
     map commit_message [waiting 3 2 11, waiting 3 2 10, waiting 4 10 12, waiting 5 12 14, waiting 4 11 13] \<and>
   sent_contains (replicate 32 13) (sent_prune_by_height (Height 4) (sent_hashes s'))"
proof -
  let ?A = "waiting 3 2 10" and ?B = "waiting 3 2 11" and ?C = "waiting 4 10 12" and ?D = "waiting 4 11 13" and ?E = "waiting 5 12 14"
  let ?x = "\<lambda>n :: byte. replicate 32 n"
  define s where "s = sample_service [?A, ?B, ?C, ?D, ?E]"
  have s: "queued_blocks (service_queue s) = [(?x 10, ?A), (?x 11, ?B), (?x 12, ?C), (?x 13, ?D), (?x 14, ?E)]"
    "by_parent (service_queue s) = [?x 2 \<mapsto> [?x 11, ?x 10], ?x 10 \<mapsto> [?x 12], ?x 11 \<mapsto> [?x 13], ?x 12 \<mapsto> [?x 14]]"
    "\<not> task_exited s" "non_finalized_messages s = []" "sent_hashes s = SentHashes_default\<lparr>can_fork_chain_at_hashes := True\<rparr>"
    by (simp_all add: s_def sample_service_def queue_def QueuedBlocks_default_def map_insert_def index_parent_def waiting_simps
        fun_eq_iff)
  note hashes = waiting_def sample_block_def
  obtain s1 where s1: "send_ready id [?x 2] s = send_ready id [?x 10, ?x 11] s1"
    "queued_blocks (service_queue s1) = [(?x 12, ?C), (?x 13, ?D), (?x 14, ?E)]"
    "by_parent (service_queue s1) = (by_parent (service_queue s))(?x 2 := None)" "\<not> task_exited s1"
    "non_finalized_messages s1 = map commit_message [?B, ?A]" "sent_hashes s1 = fold (\<lambda>b. sent_add (fst b)) [?B, ?A] (sent_hashes s)"
    using send_ready_step[of s "?x 2" "[?B, ?A]" _ "[]"] s by (auto simp: hashes)
  obtain s2 where s2: "send_ready id [?x 10, ?x 11] s1 = send_ready id [?x 12, ?x 11] s2"
    "queued_blocks (service_queue s2) = [(?x 13, ?D), (?x 14, ?E)]"
    "by_parent (service_queue s2) = (by_parent (service_queue s1))(?x 10 := None)" "\<not> task_exited s2"
    "non_finalized_messages s2 = map commit_message [?B, ?A, ?C]" "sent_hashes s2 = fold (\<lambda>b. sent_add (fst b)) [?C] (sent_hashes s1)"
    using send_ready_step[of s1 "?x 10" "[?C]" _ "[?x 11]"] s s1 by (auto simp: hashes)
  obtain s3 where s3: "send_ready id [?x 12, ?x 11] s2 = send_ready id [?x 14, ?x 11] s3"
    "queued_blocks (service_queue s3) = [(?x 13, ?D)]"
    "by_parent (service_queue s3) = (by_parent (service_queue s2))(?x 12 := None)" "\<not> task_exited s3"
    "non_finalized_messages s3 = map commit_message [?B, ?A, ?C, ?E]" "sent_hashes s3 = fold (\<lambda>b. sent_add (fst b)) [?E] (sent_hashes s2)"
    using send_ready_step[of s2 "?x 12" "[?E]" _ "[?x 11]"] s s1 s2 by (auto simp: hashes)
  obtain s4 where s4: "send_ready id [?x 14, ?x 11] s3 = send_ready id [?x 11] s4"
    "queued_blocks (service_queue s4) = [(?x 13, ?D)]"
    "by_parent (service_queue s4) = (by_parent (service_queue s3))(?x 14 := None)" "\<not> task_exited s4"
    "non_finalized_messages s4 = map commit_message [?B, ?A, ?C, ?E]" "sent_hashes s4 = sent_hashes s3"
    using send_ready_step[of s3 "?x 14" "[]" _ "[?x 11]"] s s1 s2 s3 by (auto simp: hashes)
  obtain s5 where s5: "send_ready id [?x 11] s4 = send_ready id [?x 13] s5" "queued_blocks (service_queue s5) = []"
    "by_parent (service_queue s5) = (by_parent (service_queue s4))(?x 11 := None)" "\<not> task_exited s5"
    "non_finalized_messages s5 = map commit_message [?B, ?A, ?C, ?E, ?D]" "sent_hashes s5 = fold (\<lambda>b. sent_add (fst b)) [?D] (sent_hashes s4)"
    using send_ready_step[of s4 "?x 11" "[?D]" _ "[]"] s s1 s2 s3 s4 by (auto simp: hashes)
  obtain s6 where s6: "send_ready id [?x 13] s5 = send_ready id [] s6" "non_finalized_messages s6 = map commit_message [?B, ?A, ?C, ?E, ?D]"
    "sent_hashes s6 = sent_hashes s5"
    using send_ready_step[of s5 "?x 13" "[]" _ "[]"] s s1 s2 s3 s4 s5 by (auto simp: hashes)
  have sent: "curr_buf (sent_hashes s6) = [(?x 11, Height 3), (?x 10, Height 3), (?x 12, Height 4), (?x 14, Height 5), (?x 13, Height 4)]"
    "bufs (sent_hashes s6) = []" "sent_contains (?x 13) (sent_hashes s6)"
    unfolding s6(3) s5(6) s4(6) s3(6) s2(6) s1(6) s(5)
    by (simp_all add: sent_add_def SentHashes_default_def sent_contains_def hashes)
  let ?s = "s6\<lparr>non_finalized_block_write_sent_hashes := finish_batch (sent_hashes s6)\<rparr>"
  have "send_ready id [?x 2] s = Some ?s" by (simp add: s1(1) s2(1) s3(1) s4(1) s5(1) s6(1))
  moreover have "non_finalized_sender s" by (simp add: s_def sample_service_def)
  moreover have "sent_contains (?x 13) (sent_prune_by_height (Height 4) (sent_hashes ?s))"
    unfolding sent_prune_by_height_eq using sent
    by (simp add: finish_batch_def sent_batches_def expired_def Height_le_iff) (simp add: sent_contains_def)
  ultimately show ?thesis using s6(2) unfolding s_def
    by (intro exI[of _ ?s]) (simp add: send_ready_non_finalized_queued_def)
qed


section \<open>Every request is answered or pending\<close>

abbreviation queue_channels :: "('o, 'u) QueuedBlocks \<Rightarrow> nat multiset" where
  "queue_channels q \<equiv> image_mset snd (mset (map snd (queued_blocks q)))"

definition channels :: "('o, 'u) StateService \<Rightarrow> nat multiset" where
  "channels s = queue_channels (service_queue s) + mset (map snd (non_finalized_messages s)) + mset (map fst (results s)) +
     mset (map (\<lambda>e. snd (snd e)) (finalized_state_queued_blocks s)) + mset (map snd (finalized_messages s))"

lemma channels_respond: "channels (respond tx r s) = add_mset tx (channels s)"
  by (simp add: channels_def respond_def)

lemma channels_clear_finalized: "channels (clear_finalized_block_queue e s) = channels s"
  by (simp add: channels_def clear_finalized_block_queue_def comp_def)

lemma channels_send_failed:
  assumes "cs \<noteq> []"
  shows "channels (send_failed cs s) = image_mset snd (mset cs) + channels s"
  using assms by (cases cs) (simp_all add: send_failed_def channels_def respond_def clear_non_finalized_block_queue_def
      drain_def QueuedBlocks_default_def comp_def case_prod_beta image_mset.compositionality)

lemma send_ready_channels:
  "hash_order iter \<Longrightarrow> queue_inv (service_queue s) \<Longrightarrow>
   \<exists>s'. send_ready iter ps s = Some s' \<and> channels s' = channels s \<and> queue_inv (service_queue s') \<and>
     write_task s' = write_task s"
proof (induction iter ps s rule: send_ready.induct)
  case (1 iter s)
  then show ?case by (simp add: channels_def)
next
  case (2 iter p ps s)
  obtain cs q1 where d: "dequeue_children iter p (service_queue s) = Some (cs, q1)" "queue_inv q1"
    "mset (map snd (queued_blocks (service_queue s))) = mset cs + mset (map snd (queued_blocks q1))"
    using dequeue_children_split[OF 2(3,2), of p] by metis
  let ?s = "s\<lparr>non_finalized_state_queued_blocks := q1\<rparr>"
  have keep: "channels s = image_mset snd (mset cs) + channels ?s" by (simp add: channels_def d(3) del: mset_map)
  show ?case
  proof (cases "cs \<noteq> [] \<and> task_exited s")
    case True
    then have "queue_inv (service_queue (send_failed cs ?s))" "write_task (send_failed cs ?s) = write_task s"
      by (simp_all add: send_failed_def clear_non_finalized_block_queue_def drain_def respond_def queue_inv_default)
    with True show ?thesis using channels_send_failed[of cs ?s] keep by (simp add: send_ready.simps(2) d(1))
  next
    case False
    define s1 where "s1 = fold send_commit cs ?s"
    have s1: "service_queue s1 = q1" "write_task s1 = write_task s" "channels s1 = channels s"
      unfolding s1_def keep by (simp_all add: fold_send_commit channels_def comp_def)
    have "send_ready iter (p # ps) s = send_ready iter (rev (map queued_hash cs) @ ps) s1"
      using False by (auto simp: send_ready.simps(2) d(1) s1_def Let_def)
    then show ?thesis using 2(1)[OF d(1) refl refl, folded s1_def] 2(2) d(2) False s1 by auto
  qed
qed


lemma mset_values_split:
  assumes "distinct (map fst m)" "distinct xs" "set xs \<subseteq> fst ` set m"
  shows "mset (map snd m) = mset (map (\<lambda>x. the (map_of m x)) xs) + mset (map snd (filter (\<lambda>e. fst e \<notin> set xs) m))"
proof -
  have "mset (map (\<lambda>x. (x, the (map_of m x))) xs) = mset (filter (\<lambda>e. fst e \<in> set xs) m)"
  proof (rule set_eq_iff_mset_eq_distinct[THEN iffD1])
    show "distinct (map (\<lambda>x. (x, the (map_of m x))) xs)" using assms(2) by (simp add: distinct_map inj_on_def)
    show "distinct (filter (\<lambda>e. fst e \<in> set xs) m)" using assms(1) by (simp add: distinct_map)
    show "set (map (\<lambda>x. (x, the (map_of m x))) xs) = set (filter (\<lambda>e. fst e \<in> set xs) m)"
      using assms by (force simp: map_of_is_SomeI)
  qed
  from arg_cong[OF this, of "image_mset snd"]
  have "mset (map (\<lambda>x. the (map_of m x)) xs) = mset (map snd (filter (\<lambda>e. fst e \<in> set xs) m))"
    by (simp add: image_mset.compositionality comp_def)
  moreover have "mset (map snd m) = mset (map snd (filter (\<lambda>e. fst e \<in> set xs) m)) + mset (map snd (filter (\<lambda>e. fst e \<notin> set xs) m))"
    unfolding mset_map mset_filter image_mset_union[symmetric] by (subst multiset_partition[of "mset m"]) simp
  ultimately show ?thesis by simp
qed

lemma prune_service_channels:
  assumes ord: "hash_order iter" and inv: "queue_inv (service_queue s)"
    and tip: "db_tip (service_db s) = Some (t, y)" "height_add t 1 \<noteq> None"
  shows "\<exists>s'. prune_service iter s = Some s' \<and> channels s' = channels s \<and> queue_inv (service_queue s')"
proof -
  let ?q = "service_queue s"
  obtain h where h: "height_add t 1 = Some h" using tip(2) by blast
  define X where "X = \<Union> (set ` snd ` {e \<in> set (by_height ?q). fst e < h})"
  obtain q' xs where q': "prune_by_height iter t ?q = Some (q', map (\<lambda>x. pruned_response (the (queue_map ?q x))) xs)"
    "queue_inv q'" "distinct xs" "set xs = X" "queued_blocks q' = filter (\<lambda>e. fst e \<notin> X) (queued_blocks ?q)"
    using prune_by_height_ok[OF inv ord h] unfolding X_def by blast
  have P: "parents_inv ?q" and H: "heights_inv ?q" using inv by (auto simp: queue_inv_def)
  have "set xs \<subseteq> fst ` set (queued_blocks ?q)"
  proof
    fix x assume "x \<in> set xs"
    then obtain k l where "(k, l) \<in> set (by_height ?q)" "x \<in> set l" unfolding q'(4) X_def by auto
    then have "queue_map ?q x \<noteq> None" using H unfolding heights_inv_def by fastforce
    then show "x \<in> fst ` set (queued_blocks ?q)" by (simp add: map_of_eq_None_iff)
  qed
  from arg_cong[OF mset_values_split[OF parents_invD(1)[OF P] q'(3) this], of "image_mset snd"]
  have "queue_channels ?q = mset (map (\<lambda>x. snd (the (queue_map ?q x))) xs) + queue_channels q'"
    by (simp add: q'(4,5) image_mset.compositionality comp_def)
  then show ?thesis using tip(1) q'(1,2)
    by (auto simp: prune_service_def channels_def pruned_response_def comp_def image_mset.compositionality)
qed

lemma mset_map_insert:
  assumes "distinct (map fst m)" "map_of m x = Some old"
  shows "mset (map snd (map_insert x new m)) + {#old#} = mset (map snd m) + {#new#}"
proof -
  have "(x, old) \<in> set m" using assms(2) by (rule map_of_SomeD)
  then obtain m1 m2 where m: "m = m1 @ (x, old) # m2" by (auto dest: split_list)
  then have "x \<notin> fst ` set m1" "x \<notin> fst ` set m2" using assms(1) by auto
  then have "map (\<lambda>(k, w). if k = x then (k, new) else (k, w)) m1 = m1" "map (\<lambda>(k, w). if k = x then (k, new) else (k, w)) m2 = m2"
    by (auto intro!: map_idI simp: rev_image_eqI)
  then show ?thesis by (simp add: map_insert_def m)
qed

lemma queue_block_channels:
  assumes inv: "queue_inv (service_queue s)"
  shows "channels (queue_block b tx s) = add_mset tx (channels s)" "queue_inv (service_queue (queue_block b tx s))"
    "write_task (queue_block b tx s) = write_task s"
proof -
  let ?q = "service_queue s" and ?x = "block_hash (verified b)"
  have P: "parents_inv ?q" using inv by (simp add: queue_inv_def)
  have "channels (queue_block b tx s) = add_mset tx (channels s) \<and> queue_inv (service_queue (queue_block b tx s)) \<and>
      write_task (queue_block b tx s) = write_task s"
  proof (cases "replace_sender ?x tx ?q")
    case None
    then have "queue_map ?q ?x = None" by (auto simp: replace_sender_def split: option.splits prod.splits)
    then have "queued_blocks (queue (b, tx) ?q) = queued_blocks ?q @ [(?x, b, tx)]"
      by (simp add: queue_def map_insert_def map_of_eq_None_iff)
    then show ?thesis using None queue_inv_queue(1)[OF inv, of "(b, tx)"] by (simp add: queue_block_def channels_def)
  next
    case (Some r)
    obtain old q' where r: "r = (old, q')" by fastforce
    have q': "queue_inv q'" by (rule replace_sender_ok(1)[OF inv Some[unfolded r]])
    obtain c where c: "queue_map ?q ?x = Some (c, old)" "queued_blocks q' = map_insert ?x (c, tx) (queued_blocks ?q)"
      using Some r by (auto simp: replace_sender_def split: option.splits)
    from arg_cong[OF mset_map_insert[OF parents_invD(1)[OF P] c(1), of "(c, tx)"], of "image_mset snd"]
    have "queue_channels q' + {#old#} = queue_channels ?q + {#tx#}" by (simp add: c(2))
    then show ?thesis using q' Some by (simp add: queue_block_def r channels_def respond_def)
  qed
  then show "channels (queue_block b tx s) = add_mset tx (channels s)" "queue_inv (service_queue (queue_block b tx s))"
    "write_task (queue_block b tx s) = write_task s" by auto
qed


lemma send_ready_queued_channels:
  assumes "hash_order iter" "queue_inv (service_queue s)"
  shows "\<exists>s'. send_ready_non_finalized_queued iter p s = Some s' \<and> channels s' = channels s \<and>
    queue_inv (service_queue s') \<and> write_task s' = write_task s"
  using send_ready_channels[OF assms, of "[p]"] assms(2) by (simp add: send_ready_non_finalized_queued_def)

text \<open>C13: A request to commit a block is never lost and never panics once the finalized chain is not empty
  and can grow: the handler returns, its queue stays well formed, and the result channels known to the
  service, those waiting in a queue or in front of the write task and those already answered, are the
  ones before plus the new one, each as often as before. Handling a message by the write task keeps
  that.\<close>

theorem commit_requests_accounted_for:
  assumes ord: "hash_order iter" and inv: "queue_inv (service_queue s)"
    and tip: "db_tip (service_db s) = Some (t, y)" "height_add t 1 \<noteq> None"
  shows "(\<exists>s'. queue_and_commit_to_non_finalized_state iter b tx s = Some s' \<and>
      queue_inv (service_queue s') \<and> channels s' = add_mset tx (channels s)) \<and>
    (finalized_messages s = [] \<longrightarrow> write_task_step k s = Some s2 \<longrightarrow> channels s2 = channels s)"
proof
  let ?s = "queue_block b tx s"
  note q = queue_block_channels[OF inv, of b tx]
  let ?cleared = "?s\<lparr>finalized_sender := False,
    non_finalized_block_write_sent_hashes := SentHashes_default\<lparr>can_fork_chain_at_hashes := True\<rparr>\<rparr>"
  have s0: "channels ?cleared = channels ?s" and q0: "queue_inv (service_queue ?cleared)" using q(2) by (simp_all add: channels_def)
  have first: "\<exists>s'. map_option (clear_finalized_block_queue e) (send_ready_non_finalized_queued iter p ?cleared) = Some s' \<and>
      queue_inv (service_queue s') \<and> channels s' = add_mset tx (channels s)" for p e
  proof -
    obtain s' where s': "send_ready_non_finalized_queued iter p ?cleared = Some s'" "channels s' = channels ?cleared" "queue_inv (service_queue s')"
      using send_ready_queued_channels[OF ord q0, of p] by (elim exE conjE) (rule that; assumption)
    have "service_queue (clear_finalized_block_queue e s') = service_queue s'" by (simp add: clear_finalized_block_queue_def)
    moreover have "channels (clear_finalized_block_queue e s') = add_mset tx (channels s)"
      unfolding channels_clear_finalized s'(2) s0 q(1) ..
    ultimately show ?thesis using s'(3) unfolding s'(1) option.map by (intro exI[of _ "clear_finalized_block_queue e s'"]) metis
  qed
  have second: "\<exists>s'. Option.bind (send_ready_non_finalized_queued iter p ?s) (prune_service iter) = Some s' \<and>
      queue_inv (service_queue s') \<and> channels s' = add_mset tx (channels s)" for p
  proof -
    obtain s1 where s1: "send_ready_non_finalized_queued iter p ?s = Some s1" "channels s1 = channels ?s"
      "queue_inv (service_queue s1)" "write_task s1 = write_task ?s"
      using send_ready_queued_channels[OF ord q(2), of p] by (elim exE conjE) (rule that; assumption)
    have "db_tip (service_db s1) = Some (t, y)" using tip(1) unfolding s1(4) q(3) .
    from prune_service_channels[OF ord s1(3) this tip(2)] show ?thesis unfolding s1(1,2) q(1) Option.bind.bind_lunit by blast
  qed
  show "\<exists>s'. queue_and_commit_to_non_finalized_state iter b tx s = Some s' \<and>
      queue_inv (service_queue s') \<and> channels s' = add_mset tx (channels s)"
  proof -
    have answered: "\<exists>s'. Some (respond tx r s) = Some s' \<and> queue_inv (service_queue s') \<and> channels s' = add_mset tx (channels s)" for r
      using inv by (simp add: channels_respond) (simp add: respond_def)
    have waits: "\<exists>s'. Some ?s = Some s' \<and> queue_inv (service_queue s') \<and> channels s' = add_mset tx (channels s)" using q by simp
    have either: "\<exists>s'. (if c then x else z) = Some s' \<and> queue_inv (service_queue s') \<and> channels s' = add_mset tx (channels s)"
      if "\<exists>s'. x = Some s' \<and> queue_inv (service_queue s') \<and> channels s' = add_mset tx (channels s)"
        "\<exists>s'. z = Some s' \<and> queue_inv (service_queue s') \<and> channels s' = add_mset tx (channels s)" for c x z
      using that by simp
    show ?thesis unfolding queue_and_commit_to_non_finalized_state_def Let_def by (intro either answered waits first second)
  qed
  show "finalized_messages s = [] \<longrightarrow> write_task_step k s = Some s2 \<longrightarrow> channels s2 = channels s"
    by (auto simp: write_task_step_def channels_def respond_def split: list.splits if_splits)
qed


lemma sample_tip: "db_tip sample_db = Some (ht 2, replicate 32 2)"
  using db_holds_tip[OF task_invD(4)[OF sample_worker_inv]] sample_fc_simps
  by (simp add: sample_worker_def spawn_worker_def sample_fc_def)

theorem commit_requests_accounted_for_witness:
  "\<exists>s'. queue_and_commit_to_non_finalized_state id (fst (waiting 4 10 12)) 7 (sample_service []) = Some s' \<and>
     channels s' = {#7#}"
proof -
  let ?s = "sample_service []"
  have "db_tip (service_db ?s) = Some (ht 2, replicate 32 2)"
    using sample_tip by (simp add: sample_service_def sample_worker_def spawn_worker_def)
  moreover have "height_add (ht 2) 1 \<noteq> None" using height_add_one[of 2] by simp
  moreover have "channels ?s = {#}" by (simp add: channels_def sample_service_def QueuedBlocks_default_def)
  ultimately show ?thesis
    using commit_requests_accounted_for[OF hash_order_id sample_service_queue, of "[]" "ht 2" "replicate 32 2"] by metis
qed

section \<open>What the finality layer relies on\<close>

text \<open>A service that answers reads from a list of blocks and can finalize a block of that list. Reading
  changes nothing; finalizing changes what is final, not the list.\<close>

locale finality_backend =
  chain_service "\<lambda>req w. map_option fst (call req w)" view
  for call :: "StateRequest \<Rightarrow> 'w \<Rightarrow> ((string + StateResponse) \<times> 'w) option"
    and view :: "'w \<Rightarrow> pow_chain \<Rightarrow> bool" +
  fixes final_at :: "'w \<Rightarrow> Height \<Rightarrow> bool"
  assumes read_only: "call req w = Some (r, w') \<Longrightarrow> (\<And>x. req \<noteq> ReqCrosslinkFinalizeBlock x) \<Longrightarrow> w' = w"
    and finalize_law: "view w bc \<Longrightarrow> position bc x = Some n \<Longrightarrow>
      \<exists>w'. call (ReqCrosslinkFinalizeBlock x) w = Some (Inr (RespCrosslinkFinalized x), w') \<and> view w' bc \<and> final_at w' (ht n)"
begin

lemma read_eq:
  assumes "map_option fst (call req w) = Some r" "\<And>x. req \<noteq> ReqCrosslinkFinalizeBlock x"
  shows "call req w = Some (r, w)"
  using assms read_only[of req w] by (cases "call req w") auto

end

definition service_view :: "Checks \<Rightarrow> ('o, 'u) StateService \<Rightarrow> pow_chain \<Rightarrow> bool" where
  "service_view k s bc \<longleftrightarrow>
     \<not> finalized_sender s \<and> non_finalized_sender s \<and> \<not> task_exited s \<and>
     finalized_messages s = [] \<and> non_finalized_messages s = [] \<and>
     (\<forall>r\<in>set (results s). fst r < next_channel s) \<and> storage_ok k \<and> chain_view (published s) bc \<and>
     (let cs = chain_set (non_finalized_state (write_task s)) in \<exists>fc. task_inv fc (write_task s) \<and>
        (\<forall>d\<in>set cs. length fc + length (blocks d) < 2 ^ 31) \<and>
        bc = fc @ (case cs of [] \<Rightarrow> [] | best # _ \<Rightarrow> map snd (blocks best)))"

lemma crosslink_finalize_call_idle:
  assumes "\<not> finalized_sender s" "non_finalized_sender s" "\<not> task_exited s"
    "finalized_messages s = []" "non_finalized_messages s = []" "next_channel s \<notin> fst ` set (results s)"
    and step: "write_message k (CrosslinkFinalized x) (write_task s) = Some (CrosslinkResult r, w')"
  shows "crosslink_finalize_call k x s =
    Some (case r of Inl e \<Rightarrow> Inl e | Inr y \<Rightarrow> Inr (RespCrosslinkFinalized y),
      respond (next_channel s) (WriteResult (CrosslinkResult r)) (s\<lparr>next_channel := Suc (next_channel s), write_task := w'\<rparr>))"
proof -
  have "map_of (results s @ [(next_channel s, z)]) (next_channel s) = Some z" for z
    using map_of_snoc[OF assms(6)] by (simp del: map_of_append)
  then show ?thesis using assms
    by (simp add: crosslink_finalize_call_def send_crosslink_finalized_to_non_finalized_state_def send_message_def
        pending_messages_def write_task_step_def respond_def Let_def del: map_of_append)
qed


definition best_blocks :: "WriteBlockWorkerTask \<Rightarrow> pow_chain" where
  "best_blocks w = (case chain_set (non_finalized_state w) of [] \<Rightarrow> [] | best # _ \<Rightarrow> map snd (blocks best))"

lemma service_viewD:
  assumes "service_view k s bc"
  obtains fc where "\<not> finalized_sender s" "non_finalized_sender s" "\<not> task_exited s" "finalized_messages s = []"
    "non_finalized_messages s = []" "next_channel s \<notin> fst ` set (results s)" "storage_ok k" "chain_view (published s) bc"
    "task_inv fc (write_task s)" "\<forall>d\<in>set (chain_set (non_finalized_state (write_task s))). length fc + length (blocks d) < 2 ^ 31"
    "bc = fc @ best_blocks (write_task s)"
proof -
  obtain fc where "task_inv fc (write_task s)" "\<forall>d\<in>set (chain_set (non_finalized_state (write_task s))). length fc + length (blocks d) < 2 ^ 31"
    "bc = fc @ best_blocks (write_task s)"
    using assms unfolding service_view_def Let_def best_blocks_def by blast
  moreover have "next_channel s \<notin> fst ` set (results s)" using assms unfolding service_view_def by fastforce
  ultimately show ?thesis using that assms unfolding service_view_def by blast
qed

text \<open>The world after a finalization request that left the write task in \<open>w\<close>.\<close>

lemma service_view_after:
  assumes view: "service_view k s bc" and "task_inv fc w"
    and "\<And>d. d \<in> set (chain_set (non_finalized_state w)) \<Longrightarrow> length fc + length (blocks d) < 2 ^ 31"
    and "bc = fc @ best_blocks w"
    and "chain_view \<lparr>chain_iter = chain_set (non_finalized_state_sender w), db = finalized_state w\<rparr> bc"
  shows "service_view k (respond (next_channel s) r (s\<lparr>next_channel := Suc (next_channel s), write_task := w\<rparr>)) bc"
proof -
  have "\<not> finalized_sender s" "non_finalized_sender s" "\<not> task_exited s" "finalized_messages s = []"
    "non_finalized_messages s = []" "storage_ok k" "\<forall>r\<in>set (results s). fst r < next_channel s"
    using view unfolding service_view_def by blast+
  moreover have "\<forall>r'\<in>set (results s @ [(next_channel s, r)]). fst r' < Suc (next_channel s)"
    using calculation(7) by auto
  ultimately show ?thesis using assms(2-)
    unfolding service_view_def Let_def best_blocks_def by (auto simp: respond_def published_def)
qed

lemma best_kept:
  assumes wf: "set_wf n p (best # sides)" and i: "i < length (blocks best)" and x: "x = block_hash (blocks best ! i)"
  obtains sides' where "filter (\<lambda>c. contains_block_hash c x) (best # sides) = best # sides'"
    "Suc i \<noteq> length (blocks best) \<or> sides' = []"
proof -
  have best: "best \<in> set (best # sides)" by simp
  note wfb = set_wf_memberD(1)[OF wf best]
  have "contains_block_hash best x" using chain_wf_contains(1)[OF wfb] i x by auto
  moreover have "filter (\<lambda>c. contains_block_hash c x) sides = []" if last: "Suc i = length (blocks best)"
  proof -
    have "blocks best \<noteq> []" "length (blocks best) - 1 = i" using last i by auto
    then have x': "last (blocks best) = blocks best ! i" by (simp add: last_conv_nth)
    have "\<not> contains_block_hash d x" if d: "d \<in> set sides" for d
    proof
      assume "contains_block_hash d x"
      then obtain v where v: "v \<in> set (blocks d)" "block_hash v = x"
        using chain_wf_contains(1)[OF set_wf_memberD(1)[OF wf, of d]] d by auto
      have "blocks best ! i = v"
        using set_wf_same[OF wf best, of d "blocks best ! i" v] d i v x by auto
      moreover have "last (blocks best) \<notin> set (blocks d)" using wf d unfolding set_wf_def by auto
      ultimately show False using v(1) x' by simp
    qed
    then show ?thesis by (simp add: filter_empty_conv)
  qed
  ultimately show ?thesis using that[of "filter (\<lambda>c. contains_block_hash c x) sides"] by auto
qed


lemma finalize_message_finalized:
  assumes inv: "task_inv fc w" and n: "n < length fc" "x = fst (fc ! n)"
  shows "write_message k (CrosslinkFinalized x) w = Some (CrosslinkResult (Inr x), w)"
    and "db_contains_hash (finalized_state w) x"
proof -
  note I = task_invD[OF inv]
  have "position fc x = Some n" using n position_Some_iff[OF I(3)] by blast
  then show db: "db_contains_hash (finalized_state w) x" using I(4) n(1) by (simp add: db_contains_hash_def db_holds_def)
  have "chain_height_by_hash c x = None" if "c \<in> set (chain_set (non_finalized_state w))" for c
  proof -
    have "x \<in> fst ` set fc" using n by simp
    then have "\<not> contains_block_hash c x"
      using chain_wf_contains(1)[OF set_wf_memberD(1)[OF I(6) that]] I(7)[OF that] by metis
    then show ?thesis by (simp add: contains_block_hash_def)
  qed
  then show "write_message k (CrosslinkFinalized x) w = Some (CrosslinkResult (Inr x), w)"
    using crosslink_finalize_unknown[of w x k] db by simp
qed

lemma finalize_message_best:
  assumes inv: "task_inv fc w" and ok: "storage_ok k" and cs: "chain_set (non_finalized_state w) = best # sides"
    and room: "\<And>d. d \<in> set (chain_set (non_finalized_state w)) \<Longrightarrow> length fc + length (blocks d) < 2 ^ 31"
    and i: "i < length (blocks best)" "x = block_hash (blocks best ! i)"
  defines "bc \<equiv> fc @ map snd (blocks best)" and "fc' \<equiv> fc @ map snd (take (Suc i) (blocks best))"
  shows "\<exists>w'. write_message k (CrosslinkFinalized x) w = Some (CrosslinkResult (Inr x), w') \<and> task_inv fc' w' \<and>
    (\<forall>d\<in>set (chain_set (non_finalized_state w')). length fc' + length (blocks d) < 2 ^ 31) \<and> bc = fc' @ best_blocks w' \<and>
    chain_view \<lparr>chain_iter = chain_set (non_finalized_state_sender w'), db = finalized_state w'\<rparr> bc"
proof -
  have best: "best \<in> set (chain_set (non_finalized_state w))" using cs by simp
  obtain sides' where kept: "filter (\<lambda>c. contains_block_hash c x) (chain_set (non_finalized_state w)) = best # sides'"
    "Suc i \<noteq> length (blocks best) \<or> sides' = []"
    unfolding cs by (rule best_kept[OF task_invD(6)[OF inv, unfolded cs] i])
  obtain w' where w: "write_crosslink_finalized k x w = Some (Inr x, w')" "task_inv fc' w'"
    "map blocks (chain_set (non_finalized_state w')) = filter (\<lambda>bs. bs \<noteq> []) (map (\<lambda>c. drop (Suc i) (blocks c)) (best # sides'))"
    "chain_set (non_finalized_state_sender w') = best # sides'"
    using write_crosslink_finalized_inv[OF inv ok best i] unfolding kept(1) fc'_def by blast
  have db: "db_holds (finalized_state w') fc' (length fc + Suc i)" using task_invD(4)[OF w(2)] i(1) by (simp add: fc'_def)
  have shown: "chain_view \<lparr>chain_iter = chain_set (non_finalized_state_sender w'), db = finalized_state w'\<rparr> bc"
    unfolding w(4) bc_def by (rule published_after_finalization[OF inv best i room kept(1) db[unfolded fc'_def]])
  have rest: "bc = fc' @ best_blocks w'"
  proof (cases "Suc i = length (blocks best)")
    case True
    then show ?thesis using w(3) kept(2) by (simp add: bc_def fc'_def best_blocks_def)
  next
    case False
    then have "drop (Suc i) (blocks best) \<noteq> []" using i(1) by simp
    then obtain c cs' where "chain_set (non_finalized_state w') = c # cs'" "blocks c = drop (Suc i) (blocks best)"
      using w(3) by auto
    then show ?thesis by (simp add: bc_def fc'_def best_blocks_def flip: map_append)
  qed
  have "length fc' + length (blocks d) < 2 ^ 31" if "d \<in> set (chain_set (non_finalized_state w'))" for d
  proof -
    have "blocks d \<in> set (map blocks (chain_set (non_finalized_state w')))" using that by simp
    then obtain e where e: "e \<in> set (best # sides')" "blocks d = drop (Suc i) (blocks e)" "blocks d \<noteq> []"
      unfolding w(3) set_filter set_map by blast
    then have "e \<in> set (chain_set (non_finalized_state w))" unfolding kept(1)[symmetric] by simp
    from room[OF this] e(2,3) i(1) show ?thesis by (simp add: fc'_def)
  qed
  with w(1,2) rest shown show ?thesis by (intro exI[of _ w'] conjI ballI) (simp_all add: write_message_def)
qed

lemma finalize_on_best_chain:
  assumes view: "service_view k s bc" and x: "position bc x = Some n"
  shows "\<exists>s'. state_call k find_tx (ReqCrosslinkFinalizeBlock x) s = Some (Inr (RespCrosslinkFinalized x), s') \<and>
    service_view k s' bc \<and> (\<exists>t. db_tip (service_db s') = Some t \<and> ht n \<le> fst t)"
proof -
  obtain fc where V: "\<not> finalized_sender s" "non_finalized_sender s" "\<not> task_exited s" "finalized_messages s = []"
    "non_finalized_messages s = []" "next_channel s \<notin> fst ` set (results s)" and ok: "storage_ok k"
    and pub: "chain_view (published s) bc" and inv: "task_inv fc (write_task s)"
    and room': "\<forall>d\<in>set (chain_set (non_finalized_state (write_task s))). length fc + length (blocks d) < 2 ^ 31"
    and bc: "bc = fc @ best_blocks (write_task s)" by (rule service_viewD[OF view])
  note room = bspec[OF room'] and pos = position_Some_iff[OF chain_viewD(2)[OF pub], THEN iffD1, OF x]
  have tip: "\<exists>t. db_tip (finalized_state w) = Some t \<and> ht n \<le> fst t" if "task_inv f w" "n < length f" for f w
  proof -
    note J = task_invD[OF that(1)]
    have "ht n \<le> ht (length f - 1)"
      using height_nat_ht[of n] height_nat_ht[of "length f - 1"] that(2) J(2) by (simp add: Height_le_iff del: Height.sel)
    then show ?thesis using db_holds_tip[OF J(4,1)] by simp
  qed
  have "\<exists>w. write_message k (CrosslinkFinalized x) (write_task s) = Some (CrosslinkResult (Inr x), w) \<and>
    service_view k (respond (next_channel s) (WriteResult (CrosslinkResult (Inr x)))
      (s\<lparr>next_channel := Suc (next_channel s), write_task := w\<rparr>)) bc \<and> (\<exists>t. db_tip (finalized_state w) = Some t \<and> ht n \<le> fst t)"
  proof (cases "n < length fc")
    case True
    then have "x = fst (fc ! n)" using pos bc by (simp add: nth_append)
    from finalize_message_finalized(1)[OF inv True this] tip[OF inv True]
      service_view_after[OF view inv room bc, of "WriteResult (CrosslinkResult (Inr x))"] pub
    show ?thesis by (intro exI[of _ "write_task s"]) (simp add: published_def)
  next
    case False
    then obtain best sides where cs: "chain_set (non_finalized_state (write_task s)) = best # sides"
      using pos bc by (cases "chain_set (non_finalized_state (write_task s))") (auto simp: best_blocks_def)
    have bc': "bc = fc @ map snd (blocks best)" using bc cs by (simp add: best_blocks_def)
    let ?i = "n - length fc" let ?fc = "fc @ map snd (take (Suc ?i) (blocks best))"
    have i: "?i < length (blocks best)" "x = block_hash (blocks best ! ?i)" using pos False bc' by (auto simp: nth_append)
    obtain w where w: "write_message k (CrosslinkFinalized x) (write_task s) = Some (CrosslinkResult (Inr x), w)" "task_inv ?fc w"
      "\<forall>d\<in>set (chain_set (non_finalized_state w)). length ?fc + length (blocks d) < 2 ^ 31" "bc = ?fc @ best_blocks w"
      "chain_view \<lparr>chain_iter = chain_set (non_finalized_state_sender w), db = finalized_state w\<rparr> bc"
      using finalize_message_best[OF inv ok cs room i] unfolding bc' by blast
    have "n < length ?fc" using i(1) False by simp
    from service_view_after[OF view w(2) bspec[OF w(3)] w(4,5)] w(1) tip[OF w(2) this] show ?thesis by blast
  qed
  then obtain w where w: "write_message k (CrosslinkFinalized x) (write_task s) = Some (CrosslinkResult (Inr x), w)"
    "service_view k (respond (next_channel s) (WriteResult (CrosslinkResult (Inr x)))
      (s\<lparr>next_channel := Suc (next_channel s), write_task := w\<rparr>)) bc" "\<exists>t. db_tip (finalized_state w) = Some t \<and> ht n \<le> fst t" by blast
  from crosslink_finalize_call_idle[OF V w(1)] w(2,3) show ?thesis by (simp add: state_call_def respond_def)
qed


lemma state_call_read:
  assumes "\<And>x. req \<noteq> ReqCrosslinkFinalizeBlock x" "\<And>x. req \<noteq> ReqTransaction x"
  shows "state_call k find_tx req s = map_option (\<lambda>r. (r, s)) (read_request (\<lambda>_ _. None) req (published s))"
  using assms by (cases req) (auto simp: state_call_def)

interpretation backend: finality_backend "state_call k find_tx" "service_view k"
  "\<lambda>s h. \<exists>t. db_tip (service_db s) = Some t \<and> h \<le> fst t" for k find_tx
proof unfold_locales
  fix w :: "('o, 'u) StateService" and bc x n known stop
  assume "service_view k w bc"
  then have view: "chain_view (published w) bc" by (simp add: service_view_def)
  note laws = reads.tip_law[OF view] reads.block_law[OF view] reads.find_hashes_law[OF view]
    reads.find_headers_law[OF view] reads.locator_law[OF view] reads.known_law[OF view] reads.header_hash_law[OF view]
    reads.header_height_law[OF view]
  show "length bc < 2 ^ 31 \<and> distinct (map fst bc)" by (rule reads.view_list[OF view])
  show "map_option fst (state_call k find_tx ReqTip w) =
      Some (Inr (RespTip (if bc = [] then None else Some (ht (length bc - 1), fst (last bc)))))"
    using laws(1) by (simp add: state_call_read)
  show "map_option fst (state_call k find_tx (ReqBlock (OfHash x)) w) =
      Some (Inr (RespBlock (map_option (\<lambda>n. snd (bc ! n)) (position bc x))))"
    using laws(2) by (simp add: state_call_read)
  show "map_option fst (state_call k find_tx (ReqFindBlockHashes known stop) w) =
      Some (Inr (RespBlockHashes (map fst (segment bc known stop 500))))"
    using laws(3) by (simp add: state_call_read)
  show "map_option fst (state_call k find_tx (ReqFindBlockHeaders known stop) w) =
      Some (Inr (RespBlockHeaders (map (\<lambda>b. block_header_field (snd b)) (segment bc known stop 160))))"
    using laws(4) by (simp add: state_call_read)
  show "bc \<noteq> [] \<Longrightarrow> map_option fst (state_call k find_tx ReqBlockLocator w) =
      Some (Inr (RespBlockLocator (map (\<lambda>n. fst (bc ! n)) (locator_nats (length bc - 1)))))"
    using laws(5) by (simp add: state_call_read)
  show "position bc x = Some n \<Longrightarrow> \<exists>loc. map_option fst (state_call k find_tx (ReqKnownBlock x) w) =
      Some (Inr (RespKnownBlock (Some \<lparr>location = loc, known_height = ht n\<rparr>)))"
    using laws(6) by (auto simp: state_call_read)
  show "position bc x = Some n \<Longrightarrow> map_option fst (state_call k find_tx (ReqBlockHeader (OfHash x)) w) =
      Some (Inr (RespBlockHeader (block_header_field (snd (bc ! n))) x (ht n)
        (if Suc n < length bc then Some (fst (bc ! Suc n)) else None)))"
    using laws(7) by (simp add: state_call_read)
  show "n < length bc \<Longrightarrow> map_option fst (state_call k find_tx (ReqBlockHeader (OfHeight (ht n))) w) =
      Some (Inr (RespBlockHeader (block_header_field (snd (bc ! n))) (fst (bc ! n)) (ht n)
        (if Suc n < length bc then Some (fst (bc ! Suc n)) else None)))"
    using laws(8) by (simp add: state_call_read)
next
  fix req r and w w' :: "('o, 'u) StateService"
  assume "state_call k find_tx req w = Some (r, w')" "\<And>x. req \<noteq> ReqCrosslinkFinalizeBlock x"
  then show "w' = w" by (cases req) (auto simp: state_call_def)
next
  fix w :: "('o, 'u) StateService" and bc x n
  assume "service_view k w bc" "position bc x = Some n"
  from finalize_on_best_chain[OF this] show "\<exists>w'. state_call k find_tx (ReqCrosslinkFinalizeBlock x) w =
      Some (Inr (RespCrosslinkFinalized x), w') \<and> service_view k w' bc \<and>
      (\<exists>t. db_tip (service_db w') = Some t \<and> ht n \<le> fst t)" by blast
qed

text \<open>C11: A Crosslink request to the idle service for any block of the best chain, finalized or not, succeeds:
  the finalized tip is then at or above that block, and readers still see the same best chain. While
  checkpoint verified blocks are still being committed, the request is refused and nothing else changes.\<close>

theorem crosslink_request_finalizes:
  assumes "service_view k s bc" and "position bc x = Some n"
  shows "(\<exists>s'. state_call k find_tx (ReqCrosslinkFinalizeBlock x) s = Some (Inr (RespCrosslinkFinalized x), s') \<and>
      service_view k s' bc \<and> (\<exists>t. db_tip (service_db s') = Some t \<and> ht n \<le> fst t)) \<and>
    (let c = s\<lparr>finalized_sender := True\<rparr> in \<exists>s'. state_call k find_tx (ReqCrosslinkFinalizeBlock x) c =
      Some (Inl ''not ready to crosslink-finalize blocks'', s') \<and> write_task s' = write_task c)"
proof
  show "\<exists>s'. state_call k find_tx (ReqCrosslinkFinalizeBlock x) s = Some (Inr (RespCrosslinkFinalized x), s') \<and>
      service_view k s' bc \<and> (\<exists>t. db_tip (service_db s') = Some t \<and> ht n \<le> fst t)"
    by (rule finalize_on_best_chain[OF assms])
  have "finalized_messages s = []" "non_finalized_messages s = []" "next_channel s \<notin> fst ` set (results s)"
    using assms(1) by (rule service_viewD, blast)+
  moreover have "map_of (results s @ [(next_channel s, z)]) (next_channel s) = Some z" for z
    using map_of_snoc[OF calculation(3)] by (simp del: map_of_append)
  ultimately show "let c = s\<lparr>finalized_sender := True\<rparr> in \<exists>s'. state_call k find_tx (ReqCrosslinkFinalizeBlock x) c =
      Some (Inl ''not ready to crosslink-finalize blocks'', s') \<and> write_task s' = write_task c"
    by (simp add: state_call_def crosslink_finalize_call_def send_crosslink_finalized_to_non_finalized_state_def
        pending_messages_def respond_def Let_def del: map_of_append)
qed

definition sample_bc :: pow_chain where
  "sample_bc = sample_fc @ map snd [sample_block 3 2 10, sample_block 4 10 12]"

lemma sample_service_view: "service_view empty_checks (sample_service bs) sample_bc"
proof -
  have w: "write_task (sample_service bs) = sample_worker" by (simp add: sample_service_def)
  have cs: "chain_set (non_finalized_state sample_worker) = sample_set" "chain_set (non_finalized_state_sender sample_worker) = sample_set"
    by (simp_all add: sample_worker_def spawn_worker_def)
  have set: "sample_set = hd sample_set # tl sample_set" "blocks (hd sample_set) = [sample_block 3 2 10, sample_block 4 10 12]"
    by (simp_all add: sample_set_def blocks_sample_fork)
  note I = task_invD[OF sample_worker_inv, unfolded cs(1)]
  have "chain_view \<lparr>chain_iter = hd sample_set # tl sample_set, db = finalized_state sample_worker\<rparr>
      (sample_fc @ map snd (blocks (hd sample_set)))"
  proof (rule published_view[where k = 0])
    show "set_wf (length sample_fc) (fst (last sample_fc)) (hd sample_set # tl sample_set)" using I(6) set(1) by simp
    show "block_hash v \<notin> fst ` set sample_fc" if "c \<in> set (hd sample_set # tl sample_set)" "v \<in> set (blocks c)" for c v
      using I(7)[of c v] that set(1) by simp
  qed (use I(3,4) set(2) sample_fc_simps(1) in simp_all)
  then have "chain_view (published (sample_service bs)) sample_bc"
    by (simp add: published_def w cs sample_bc_def set flip: set(1))
  moreover have "\<forall>d\<in>set sample_set. length sample_fc + length (blocks d) < 2 ^ 31"
    by (simp add: sample_set_def blocks_sample_fork sample_fc_simps(1))
  moreover have "sample_bc = sample_fc @ (case sample_set of [] \<Rightarrow> [] | best # _ \<Rightarrow> map snd (blocks best))"
    by (simp add: sample_bc_def sample_set_def blocks_sample_fork)
  ultimately show ?thesis
    using sample_worker_inv empty_checks_ok unfolding service_view_def Let_def w cs
    by (auto simp: sample_service_def)
qed

lemma sample_bc_position: "position sample_bc (replicate 32 10) = Some 3"
  by (simp add: position_def sample_bc_def sample_fc_def sample_block_def)

theorem crosslink_request_finalizes_witness:
  "\<exists>s'. state_call empty_checks (\<lambda>_ _. None) (ReqCrosslinkFinalizeBlock (replicate 32 10)) (sample_service []) =
      Some (Inr (RespCrosslinkFinalized (replicate 32 10)), s') \<and> service_view empty_checks s' sample_bc"
  using crosslink_request_finalizes[OF sample_service_view sample_bc_position, of "\<lambda>_ _. None" "[]"] by blast

end
