(* ===== verification/Tfl_Service.thy ===== *)
theory Tfl_Service
  imports State_Service Bft_Block
begin

text \<open>
  The trailing finality service (\<^verbatim>\<open>zebra-crosslink/src/lib.rs\<close>, \<^verbatim>\<open>service.rs\<close>; requests in
  \<^verbatim>\<open>zebra-state/src/crosslink.rs\<close>): it proposes and validates BFT blocks, and for each decided block it
  finalizes a proof-of-work block in the state, pays the finalizers and applies staking commands.
  The state service it calls is the argument \<open>call\<close>; its world \<open>'w\<close> is threaded through every call.
  The client lemmas are proved once in the context of \<open>finality_backend\<close> and used for \<open>state_call\<close>.
  The BFT engine, the mempool, the parser of staking commands and the library functions from which keys are
  derived (hash, generator, Ed25519) are arguments of the definitions that use them.
\<close>

section \<open>Data\<close>

type_synonym 'w state_procedure = "StateRequest \<Rightarrow> 'w \<Rightarrow> ((string + StateResponse) \<times> 'w) option"

definition TFL_ACTIVATION_HEIGHT :: Height where "TFL_ACTIVATION_HEIGHT = Height 2000"

text \<open>The broadcast channel is the list of what was sent on it, in order; a receiver is the number of
  messages that were sent before it subscribed.\<close>

record TFLServiceInternal =
  my_public_key :: bytes
  latest_final_block :: "(Height \<times> bytes) option"
  tfl_is_activated :: bool
  final_change_tx :: "(Height \<times> bytes) list"
  bft_msg_flags :: u64
  bft_err_flags :: u64
  bft_blocks :: "BftBlock list"
  fat_pointer_to_tip :: FatPointerToBftBlock2
  our_set_bft_string :: "string option"
  active_bft_string :: "string option"
  validators_keys_to_names :: key_names
  validators_at_current_height :: "MalValidator list"
  current_bc_final :: "(Height \<times> bytes) option"

datatype TMStatus = Pass | Fail | Indeterminate

datatype TFLBlockFinality = NotYetFinalized | Finalized | CantBeFinalized

datatype TFLServiceRequest =
    IsTFLActivated
  | FinalBlockHeightHash
  | FinalBlockRx
  | SetFinalBlockHash bytes
  | BlockFinalityStatus Height bytes
  | TxFinalityStatus bytes
  | RosterRequest
  | FatPointerToBFTChainTip
  | StakingCmd string

datatype TFLServiceResponse =
    IsTFLActivatedIs bool
  | FinalBlockHeightHashIs "(Height \<times> bytes) option"
  | FinalBlockRxIs nat
  | SetFinalBlockHashIs "Height option"
  | BlockFinalityStatusIs "TFLBlockFinality option"
  | TxFinalityStatusIs "TFLBlockFinality option"
  | RosterIs "(bytes \<times> u64) list"
  | FatPointerToBFTChainTipIs FatPointerToBftBlock
  | StakingCmdIs

datatype TFLServiceError = NotImplemented | Misc string

text \<open>The cryptography the service calls: BLAKE3, the double SHA-256 of block headers, and the batch
  verifier of Ed25519.\<close>

record crypto =
  bft_hashers :: hashers
  header_sha256d :: "bytes \<Rightarrow> bytes"
  batch_verify :: "(bytes \<times> bytes \<times> bytes) list \<Rightarrow> bool"

section \<open>Reading the state\<close>

definition block_height_from_hash :: "'w state_procedure \<Rightarrow> bytes \<Rightarrow> 'w \<Rightarrow> (Height option \<times> 'w) option" where
  "block_height_from_hash call x w = do {
     (r, w) \<leftarrow> call (ReqKnownBlock x) w;
     Some (case r of Inr (RespKnownBlock (Some known_block)) \<Rightarrow> Some (known_height known_block) | _ \<Rightarrow> None, w) }"

definition block_height_hash_from_hash ::
  "'w state_procedure \<Rightarrow> bytes \<Rightarrow> 'w \<Rightarrow> ((Height \<times> bytes) option \<times> 'w) option" where
  "block_height_hash_from_hash call x w = do {
     (r, w) \<leftarrow> call (ReqBlockHeader (OfHash x)) w;
     case r of
       Inr (RespBlockHeader _ check_hash h _) \<Rightarrow> if x = check_hash then Some (Some (h, x), w) else None
     | _ \<Rightarrow> Some (None, w) }"

definition tfl_reorg_final_block_height_hash ::
  "'w state_procedure \<Rightarrow> 'w \<Rightarrow> ((Height \<times> bytes) option \<times> 'w) option" where
  "tfl_reorg_final_block_height_hash call w = do {
     (locator, w) \<leftarrow> call ReqBlockLocator w;
     case locator of
       Inr (RespBlockLocator hashes) \<Rightarrow>
         if hashes = [] then Some (None, w)
         else do {
           (h, w) \<leftarrow> block_height_from_hash call (last hashes) w;
           Some (map_option (\<lambda>h. (h, last hashes)) h, w) }
     | _ \<Rightarrow> Some (None, w) }"

definition tfl_final_block_height_hash ::
  "'w state_procedure \<Rightarrow> TFLServiceInternal \<Rightarrow> 'w \<Rightarrow> ((Height \<times> bytes) option \<times> 'w) option" where
  "tfl_final_block_height_hash call i w =
     (if latest_final_block i \<noteq> None then Some (latest_final_block i, w)
      else tfl_reorg_final_block_height_hash call w)"

definition push_new_bft_msg_flags :: "u64 \<Rightarrow> u64 \<Rightarrow> TFLServiceInternal \<Rightarrow> TFLServiceInternal" where
  "push_new_bft_msg_flags msg_flags err_flags i =
     i\<lparr>bft_msg_flags := or (bft_msg_flags i) msg_flags, bft_err_flags := or (bft_err_flags i) err_flags\<rparr>"

section \<open>A sequence of blocks\<close>

text \<open>One request for the hashes that follow the last known one. The inner None is an unexpected answer.\<close>

definition fetch_chunk ::
  "'w state_procedure \<Rightarrow> bytes \<Rightarrow> bytes \<Rightarrow> bytes option \<Rightarrow> bool \<Rightarrow> bytes list \<Rightarrow> u32 \<Rightarrow> 'w \<Rightarrow> (bytes list option \<times> 'w) option" where
  "fetch_chunk call start_hash init_hash final_hash include_start_hash chunk c w = do {
     let chunk_start_hash = (if chunk = [] then init_hash else last chunk);
     (res, w) \<leftarrow> call (ReqFindBlockHashes [chunk_start_hash] final_hash) w;
     case res of
       Inr (RespBlockHashes chunk_hashes) \<Rightarrow>
         if c = 0 \<and> include_start_hash \<and> chunk_hashes \<noteq> [] \<and> hd chunk_hashes \<noteq> start_hash then None
         else Some (Some chunk_hashes, w)
     | _ \<Rightarrow> Some (None, w) }"

partial_function (option) sequence_loop ::
  "(bytes list \<Rightarrow> u32 \<Rightarrow> 'w \<Rightarrow> (bytes list option \<times> 'w) option) \<Rightarrow> Height \<Rightarrow>
   (Height \<times> bytes) list \<Rightarrow> nat \<Rightarrow> bytes list \<Rightarrow> u32 \<Rightarrow> 'w \<Rightarrow> ((Height \<times> bytes) list \<times> 'w) option" where
  "sequence_loop fetch start_height hashes chunk_i chunk c w = do {
     (next, w) \<leftarrow>
       (if chunk_i \<ge> length chunk
        then map_option (\<lambda>(res, w). (map_option (\<lambda>new_chunk. (0, new_chunk)) res, w)) (fetch chunk c w)
        else Some (Some (chunk_i, chunk), w));
     case next of
       None \<Rightarrow> Some (hashes, w)
     | Some (chunk_i, chunk) \<Rightarrow>
         if chunk_i < length chunk then
           if length hashes < 2 ^ 32 then
             sequence_loop fetch start_height
               (hashes @ [(Height (height_u32 start_height + of_nat (length hashes)), chunk ! chunk_i)])
               (Suc chunk_i) chunk (c + 1) w
           else None
         else Some (hashes, w) }"

fun read_infos :: "'w state_procedure \<Rightarrow> (Height \<times> bytes) list \<Rightarrow> 'w \<Rightarrow> (pow_block option list \<times> 'w) option" where
  "read_infos call [] w = Some ([], w)"
| "read_infos call (hh # hhs) w = do {
     (r, w) \<leftarrow> call (ReqBlock (OfHash (snd hh))) w;
     (infos, w) \<leftarrow> read_infos call hhs w;
     Some ((case r of Inr (RespBlock found) \<Rightarrow> found | _ \<Rightarrow> None) # infos, w) }"

definition sequence_start ::
  "'w state_procedure \<Rightarrow> bytes \<Rightarrow> bool \<Rightarrow> 'w \<Rightarrow> ((Height \<times> bytes) option \<times> 'w) option" where
  "sequence_start call start_hash include_start_hash w = do {
     (r, w) \<leftarrow> call (ReqBlockHeader (OfHash start_hash)) w;
     Some (case r of
         Inr (RespBlockHeader hdr _ h _) \<Rightarrow>
           Some (if include_start_hash then (h, previous_block_hash hdr)
                 else (Height (height_u32 h + 1), start_hash))
       | _ \<Rightarrow> None, w) }"

definition sequence_final ::
  "'w state_procedure \<Rightarrow> (Height \<times> bytes) option \<Rightarrow> 'w \<Rightarrow> ((Height \<times> bytes) option \<times> 'w) option" where
  "sequence_final call final_height_hash w =
     (if final_height_hash \<noteq> None then Some (final_height_hash, w)
      else do {
        (r, w) \<leftarrow> call ReqTip w;
        Some (case r of Inr (RespTip val) \<Rightarrow> val | _ \<Rightarrow> None, w) })"

definition tfl_block_sequence ::
  "'w state_procedure \<Rightarrow> bytes \<Rightarrow> (Height \<times> bytes) option \<Rightarrow> bool \<Rightarrow> bool \<Rightarrow> 'w \<Rightarrow>
   (((Height \<times> bytes) list \<times> pow_block option list) \<times> 'w) option" where
  "tfl_block_sequence call start_hash final_height_hash include_start_hash read_extra_info w = do {
     (start, w) \<leftarrow> sequence_start call start_hash include_start_hash w;
     (fin, w) \<leftarrow> sequence_final call final_height_hash w;
     case (start, fin) of
       (Some (start_height, init_hash), Some (final_height, final_hash)) \<Rightarrow>
         if final_height < start_height then Some (([], []), w)
         else do {
           (hashes, w) \<leftarrow> sequence_loop (fetch_chunk call start_hash init_hash (Some final_hash) include_start_hash)
             start_height [] 0 [] 0 w;
           (infos, w) \<leftarrow> (if read_extra_info then read_infos call hashes w else Some ([], w));
           Some ((hashes, infos), w) }
     | _ \<Rightarrow> Some (([], []), w) }"

section \<open>Proposing and validating\<close>

definition first_header_hash :: "crypto \<Rightarrow> BftBlock \<Rightarrow> bytes option" where
  "first_header_hash K b = (case headers b of [] \<Rightarrow> None | h # _ \<Rightarrow> Header_hash (header_sha256d K) h)"

text \<open>The height the next final block is sought at; a None inside ends the proposal without a block.\<close>

definition finality_candidate ::
  "crypto \<Rightarrow> TFLServiceInternal \<Rightarrow> Height \<Rightarrow> Height option option" where
  "finality_candidate K i pow_tip_height =
     (case height_sub pow_tip_height (sint (bc_confirmation_depth_sigma PROTOTYPE_PARAMETERS)) of
        None \<Rightarrow> Some None
      | Some candidate \<Rightarrow> do {
          latest_bft_block_hash \<leftarrow> (if bft_blocks i = [] then Some (replicate 32 0)
            else blake3_hash (bft_hashers K) (last (bft_blocks i)));
          Some (case latest_final_block i of
              None \<Rightarrow> Some candidate
            | Some (h, _) \<Rightarrow> if h < candidate then Some candidate else None) })"

definition propose_new_bft_block ::
  "crypto \<Rightarrow> 'w state_procedure \<Rightarrow> TFLServiceInternal \<Rightarrow> 'w \<Rightarrow> (BftBlock option \<times> 'w) option" where
  "propose_new_bft_block K call i w = do {
     (r, w) \<leftarrow> call ReqTip w;
     case r of
       Inr (RespTip (Some (pow_tip_height, _))) \<Rightarrow> do {
         candidate \<leftarrow> finality_candidate K i pow_tip_height;
         case candidate of
           None \<Rightarrow> Some (None, w)
         | Some candidate_height \<Rightarrow> do {
             (r, w) \<leftarrow> call (ReqBlockHeader (OfHeight candidate_height)) w;
             candidate_hash \<leftarrow> (case r of Inr (RespBlockHeader _ x _ _) \<Rightarrow> Some x | _ \<Rightarrow> None);
             (r, w) \<leftarrow> call (ReqFindBlockHeaders [candidate_hash] None) w;
             hdrs \<leftarrow> (case r of Inr (RespBlockHeaders hdrs) \<Rightarrow> Some hdrs | _ \<Rightarrow> None);
             Some (case BftBlock_try_from PROTOTYPE_PARAMETERS (of_nat (length (bft_blocks i)) + 1)
                     (fat_pointer_to_tip i) 0 hdrs of
                 Inr v \<Rightarrow> Some v | Inl _ \<Rightarrow> None, w) } }
     | _ \<Rightarrow> Some (None, w) }"

definition validate_bft_block_from_malachite ::
  "crypto \<Rightarrow> 'w state_procedure \<Rightarrow> TFLServiceInternal \<Rightarrow> BftBlock \<Rightarrow> 'w \<Rightarrow> (TMStatus \<times> 'w) option" where
  "validate_bft_block_from_malachite K call i b w =
     (if points_at_block_hash (previous_block_fat_ptr b) \<noteq> points_at_block_hash (fat_pointer_to_tip i)
      then Some (Fail, w)
      else do {
        new_final_hash \<leftarrow> first_header_hash K b;
        (h, w) \<leftarrow> block_height_from_hash call new_final_hash w;
        Some (case h of None \<Rightarrow> Indeterminate | Some _ \<Rightarrow> Pass, w) })"

section \<open>A decided block\<close>

definition placeholder_block :: "nat \<Rightarrow> BftBlock" where
  "placeholder_block i = \<lparr>bft_version = 0, bft_height = of_nat i,
     previous_block_fat_ptr = \<lparr>vote_for_block2 = replicate (76 - 32) 0, signatures2 = []\<rparr>,
     finalization_candidate_height = 0, headers = []\<rparr>"

text \<open>For height 0 the index wraps to \<^verbatim>\<open>usize::MAX\<close>, and the padding loop exhausts memory.\<close>

definition insert_bft_block :: "crypto \<Rightarrow> BftBlock \<Rightarrow> BftBlock list \<Rightarrow> BftBlock list option" where
  "insert_bft_block K b bs =
     (if bft_height b = 0 then None
      else
        let insert_i = unat (bft_height b) - 1;
            bs = bs @ map placeholder_block [length bs..<Suc insert_i]
        in do {
          parent_hash \<leftarrow> (if insert_i > 0 then blake3_hash (bft_hashers K) (bs ! (insert_i - 1))
            else Some (points_at_block_hash (previous_block_fat_ptr b)));
          if parent_hash = points_at_block_hash (previous_block_fat_ptr b) \<and>
             (insert_i = 0 \<or> bft_previous_block_hash b \<noteq> replicate 32 0) \<and>
             headers (bs ! insert_i) = [] \<and> headers b \<noteq> []
          then Some (bs[insert_i := b]) else None })"

text \<open>What happens for one newly final proof-of-work block: the reward, its commands, the broadcast. A missing block is
  an error in the log; the \<^verbatim>\<open>debug_assert\<close> there is not part of a release build.\<close>

definition finalize_pow_block ::
  "(Height \<times> bytes) \<Rightarrow> pow_block option \<Rightarrow> TFLServiceInternal \<Rightarrow> TFLServiceInternal option" where
  "finalize_pow_block hh info i = do {
     finalizers \<leftarrow> distribute_reward (validators_at_current_height i);
     let (r, names) = (case info of
         Some pb \<Rightarrow>
           let (r, names, cmd_c) = update_roster_for_block finalizers (validators_keys_to_names i) (transactions pb)
           in (r, names)
       | None \<Rightarrow> (finalizers, validators_keys_to_names i));
     Some (i\<lparr>validators_at_current_height := r, validators_keys_to_names := names,
             final_change_tx := final_change_tx i @ [hh]\<rparr>) }"

fun finalize_pow_blocks ::
  "(Height \<times> bytes) list \<Rightarrow> pow_block option list \<Rightarrow> TFLServiceInternal \<Rightarrow> TFLServiceInternal option" where
  "finalize_pow_blocks [] infos i = Some i"
| "finalize_pow_blocks (hh # hhs) infos i =
     (if map_option snd (current_bc_final i) = Some (snd hh) then finalize_pow_blocks hhs (tl infos) i
      else case infos of
          [] \<Rightarrow> None
        | info # infos \<Rightarrow> Option.bind (finalize_pow_block hh info i) (finalize_pow_blocks hhs infos))"

text \<open>The request that finalizes the block in the state; an error answer is only logged.\<close>

definition crosslink_finalize_block :: "'w state_procedure \<Rightarrow> bytes \<Rightarrow> 'w \<Rightarrow> 'w option" where
  "crosslink_finalize_block call new_final_hash w = do {
     (r, w) \<leftarrow> call (ReqCrosslinkFinalizeBlock new_final_hash) w;
     case r of
       Inr (RespCrosslinkFinalized x) \<Rightarrow> if x = new_final_hash then Some w else None
     | Inr _ \<Rightarrow> None
     | Inl err \<Rightarrow> Some w }"

definition advance_bc_final :: "'w state_procedure \<Rightarrow> TFLServiceInternal \<Rightarrow> 'w \<Rightarrow> (TFLServiceInternal \<times> 'w) option" where
  "advance_bc_final call i w =
     (case latest_final_block i of
        None \<Rightarrow> Some (i\<lparr>current_bc_final := None\<rparr>, w)
      | Some new_final \<Rightarrow> do {
          let start_hash = (case current_bc_final i of Some prev \<Rightarrow> snd prev | None \<Rightarrow> snd new_final);
          ((hashes, infos), w) \<leftarrow> tfl_block_sequence call start_hash (Some new_final) True True w;
          i \<leftarrow> finalize_pow_blocks hashes infos i;
          Some (i\<lparr>current_bc_final := Some new_final\<rparr>, w) })"

definition new_decided_bft_block_from_malachite ::
  "crypto \<Rightarrow> (bytes \<Rightarrow> 'k :: linorder) \<Rightarrow> 'w state_procedure \<Rightarrow> BftBlock \<Rightarrow> FatPointerToBftBlock2 \<Rightarrow>
   TFLServiceInternal \<Rightarrow> 'w \<Rightarrow> (SortedRosterMember list \<times> TFLServiceInternal \<times> 'w) option" where
  "new_decided_bft_block_from_malachite K pub_key_id call b fp i w = do {
     x \<leftarrow> blake3_hash (bft_hashers K) b;
     if points_at_block_hash fp \<noteq> x \<or> \<not> validate_signatures (batch_verify K) fp then None else do {
       (status, w) \<leftarrow> validate_bft_block_from_malachite K call i b w;
       if status \<noteq> Pass then None else do {
         new_final_hash \<leftarrow> first_header_hash K b;
         (h, w) \<leftarrow> block_height_from_hash call new_final_hash w;
         new_final_height \<leftarrow> h;
         bs \<leftarrow> insert_bft_block K b (bft_blocks i);
         let i = i\<lparr>bft_blocks := bs, fat_pointer_to_tip := fp,
                   latest_final_block := Some (new_final_height, new_final_hash)\<rparr>;
         w \<leftarrow> crosslink_finalize_block call new_final_hash w;
         (i, w) \<leftarrow> advance_bc_final call i w;
         Some (tenderlink_roster_from_internal pub_key_id (validators_at_current_height i), i, w) } } }"

definition fat_pointer_to_block_at_height ::
  "BftBlock list \<Rightarrow> FatPointerToBftBlock2 \<Rightarrow> u64 \<Rightarrow> FatPointerToBftBlock2 option" where
  "fat_pointer_to_block_at_height bs tip_pointer at_height =
     (if at_height = 0 \<or> unat at_height - 1 \<ge> length bs then None
      else if unat at_height = length bs then Some tip_pointer
      else Some (previous_block_fat_ptr (bs ! unat at_height)))"

text \<open>The outer None is the panic of unwrapping an absent pointer.\<close>

definition get_historical_bft_block_at_height ::
  "TFLServiceInternal \<Rightarrow> u64 \<Rightarrow> (BftBlock \<times> FatPointerToBftBlock2) option option" where
  "get_historical_bft_block_at_height i at_height =
     (if at_height = 0 \<or> unat at_height - 1 \<ge> length (bft_blocks i) then Some None
      else do {
        fp \<leftarrow> fat_pointer_to_block_at_height (bft_blocks i) (fat_pointer_to_tip i) at_height;
        Some (Some (bft_blocks i ! (unat at_height - 1), fp)) })"

section \<open>Requests to the service\<close>

definition block_finality :: "'w state_procedure \<Rightarrow> Height \<Rightarrow> bytes \<Rightarrow> Height \<times> bytes \<Rightarrow> 'w \<Rightarrow>
    ((TFLServiceError + TFLBlockFinality option) \<times> 'w) option" where
  "block_finality call h x fin w =
     (if h > fst fin then Some (Inr (Some NotYetFinalized), w)
      else do {
        (cmp_hash, w) \<leftarrow>
          (if h = fst fin then Some (Inr (snd fin), w)
           else do {
             (r, w) \<leftarrow> call (ReqBlockHeader (OfHeight h)) w;
             Some (case r of
                 Inr (RespBlockHeader _ y _ _) \<Rightarrow> Inr y
               | Inl err \<Rightarrow> Inl (Misc err)
               | _ \<Rightarrow> Inl (Misc ''Invalid BlockHeader response type''), w) });
        Some (case cmp_hash of
            Inl e \<Rightarrow> Inl e
          | Inr y \<Rightarrow> Inr (Some (if x = y then Finalized else CantBeFinalized)), w) })"

definition tfl_block_finality_from_height_hash ::
  "'w state_procedure \<Rightarrow> TFLServiceInternal \<Rightarrow> Height \<Rightarrow> bytes \<Rightarrow> 'w \<Rightarrow>
   ((TFLServiceError + TFLBlockFinality option) \<times> 'w) option" where
  "tfl_block_finality_from_height_hash call i h x w = do {
     (fin, w) \<leftarrow> tfl_final_block_height_hash call i w;
     case fin of
       None \<Rightarrow> Some (Inl (Misc ''There is no final block.''), w)
     | Some fin \<Rightarrow> block_finality call h x fin w }"

definition tfl_set_finality_by_hash ::
  "'w state_procedure \<Rightarrow> bytes \<Rightarrow> TFLServiceInternal \<Rightarrow> 'w \<Rightarrow> (Height option \<times> TFLServiceInternal \<times> 'w) option" where
  "tfl_set_finality_by_hash call x i w =
     (if tfl_is_activated i then do {
        (new_height, w) \<leftarrow> block_height_from_hash call x w;
        Some (new_height,
          case new_height of Some h \<Rightarrow> i\<lparr>latest_final_block := Some (h, x)\<rparr> | None \<Rightarrow> i, w) }
      else Some (None, i, w))"

definition tx_finality ::
  "'w state_procedure \<Rightarrow> TFLServiceInternal \<Rightarrow> bytes \<Rightarrow> 'w \<Rightarrow> ((TFLServiceError + TFLBlockFinality option) \<times> 'w) option" where
  "tx_finality call i x w = do {
     (r, w) \<leftarrow> call (ReqTransaction x) w;
     case r of
       Inr (RespTransaction (Some h)) \<Rightarrow> do {
         (fin, w) \<leftarrow> tfl_final_block_height_hash call i w;
         Some (case fin of
             None \<Rightarrow> Inl (Misc ''There is no final block.'')
           | Some (final_height, _) \<Rightarrow> Inr (Some (if h \<le> final_height then Finalized else NotYetFinalized)), w) }
     | _ \<Rightarrow> Some (Inr None, w) }"

text \<open>Staking commands: the parser is a parameter, and so is the mempool, which answers a queued
  transaction with one result for each receiver, or with another response.\<close>

datatype queue_result = SendError string | AwaitError string | MempoolError string | Mempooled

fun await_receivers :: "queue_result list \<Rightarrow> string + unit" where
  "await_receivers [] = Inr ()"
| "await_receivers (SendError e # _) = Inl (''tried to send command transaction: '' @ e)"
| "await_receivers (AwaitError e # _) = Inl (''tried to await command transaction: '' @ e)"
| "await_receivers (MempoolError e # _) = Inl (''unsuccessfully mempooled transaction: '' @ e)"
| "await_receivers (Mempooled # rs) = await_receivers rs"

record 'w outside =
  parse_from_cmd :: "string \<Rightarrow> string + StakingAction option"
  mempool :: "pow_transaction \<Rightarrow> 'w \<Rightarrow> (queue_result list option \<times> 'w) option"

definition push_staking_action_from_cmd_str :: "'w outside \<Rightarrow> string \<Rightarrow> 'w \<Rightarrow> ((string + unit) \<times> 'w) option" where
  "push_staking_action_from_cmd_str out cmd_str w =
     (case parse_from_cmd out cmd_str of
        Inl e \<Rightarrow> Some (Inl e, w)
      | Inr staking_action \<Rightarrow> do {
          (r, w) \<leftarrow> mempool out (VCrosslink staking_action) w;
          Some (case r of Some receivers \<Rightarrow> await_receivers receivers | None \<Rightarrow> Inr (), w) })"

definition tfl_service_incoming_request ::
  "'w outside \<Rightarrow> 'w state_procedure \<Rightarrow> TFLServiceRequest \<Rightarrow> TFLServiceInternal \<Rightarrow> 'w \<Rightarrow>
   ((TFLServiceError + TFLServiceResponse) \<times> TFLServiceInternal \<times> 'w) option" where
  "tfl_service_incoming_request out call request i w = (case request of
       IsTFLActivated \<Rightarrow> Some (Inr (IsTFLActivatedIs (tfl_is_activated i)), i, w)
     | FinalBlockHeightHash \<Rightarrow> do {
         (fin, w) \<leftarrow> tfl_final_block_height_hash call i w;
         Some (Inr (FinalBlockHeightHashIs fin), i, w) }
     | FinalBlockRx \<Rightarrow> Some (Inr (FinalBlockRxIs (length (final_change_tx i))), i, w)
     | SetFinalBlockHash x \<Rightarrow> do {
         (h, i, w) \<leftarrow> tfl_set_finality_by_hash call x i w;
         Some (Inr (SetFinalBlockHashIs h), i, w) }
     | BlockFinalityStatus h x \<Rightarrow> do {
         (r, w) \<leftarrow> tfl_block_finality_from_height_hash call i h x w;
         Some (case r of Inr val \<Rightarrow> Inr (BlockFinalityStatusIs val) | Inl err \<Rightarrow> Inl err, i, w) }
     | TxFinalityStatus x \<Rightarrow> do {
         (r, w) \<leftarrow> tx_finality call i x w;
         Some (case r of Inr val \<Rightarrow> Inr (TxFinalityStatusIs val) | Inl err \<Rightarrow> Inl err, i, w) }
     | RosterRequest \<Rightarrow>
         Some (Inr (RosterIs (map (\<lambda>v. (val_public_key v, voting_power v)) (validators_at_current_height i))), i, w)
     | FatPointerToBFTChainTip \<Rightarrow>
         Some (Inr (FatPointerToBFTChainTipIs (to_non_two (fat_pointer_to_tip i))), i, w)
     | StakingCmd cmd \<Rightarrow> do {
         (r, w) \<leftarrow> push_staking_action_from_cmd_str out cmd w;
         Some (case r of Inr _ \<Rightarrow> Inr StakingCmdIs | Inl err \<Rightarrow> Inl (Misc err), i, w) })"

section \<open>What the BFT engine calls, start and main loop\<close>

definition closure_propose_new_block ::
  "crypto \<Rightarrow> 'w state_procedure \<Rightarrow> TFLServiceInternal \<Rightarrow> 'w \<Rightarrow> (bytes option \<times> 'w) option" where
  "closure_propose_new_block K call i w = do {
     (b, w) \<leftarrow> propose_new_bft_block K call i w;
     case b of
       None \<Rightarrow> Some (None, w)
     | Some b \<Rightarrow> map_option (\<lambda>bs. (Some bs, w)) (BftBlock_serialize b) }"

definition closure_validate_proposed_block ::
  "crypto \<Rightarrow> 'w state_procedure \<Rightarrow> TFLServiceInternal \<Rightarrow> bytes \<Rightarrow> 'w \<Rightarrow> (TMStatus \<times> 'w) option" where
  "closure_validate_proposed_block K call i payload w =
     (case BftBlock_zcash_deserialize payload of
        Inr (b, _) \<Rightarrow> validate_bft_block_from_malachite K call i b w
      | Inl _ \<Rightarrow> Some (Fail, w))"

definition closure_push_decided_block ::
  "crypto \<Rightarrow> (bytes \<Rightarrow> 'k :: linorder) \<Rightarrow> 'w state_procedure \<Rightarrow> bytes \<Rightarrow> FatPointerToBftBlock2 \<Rightarrow>
   TFLServiceInternal \<Rightarrow> 'w \<Rightarrow> (SortedRosterMember list \<times> TFLServiceInternal \<times> 'w) option" where
  "closure_push_decided_block K pub_key_id call payload fp i w =
     (case BftBlock_zcash_deserialize payload of
        Inr (b, _) \<Rightarrow> new_decided_bft_block_from_malachite K pub_key_id call b fp i w
      | Inl _ \<Rightarrow> None)"

definition closure_update_roster_cmd ::
  "string option \<Rightarrow> TFLServiceInternal \<Rightarrow> string option \<times> TFLServiceInternal" where
  "closure_update_roster_cmd str i =
     (if our_set_bft_string i \<noteq> None then (our_set_bft_string i, i\<lparr>our_set_bft_string := None\<rparr>)
      else case str of Some s \<Rightarrow> (None, i\<lparr>active_bft_string := Some s\<rparr>) | None \<Rightarrow> (None, i))"

definition force_feed_pos ::
  "crypto \<Rightarrow> (bytes \<Rightarrow> 'k :: linorder) \<Rightarrow> 'w state_procedure \<Rightarrow> BftBlock \<Rightarrow> FatPointerToBftBlock2 \<Rightarrow>
   TFLServiceInternal \<Rightarrow> 'w \<Rightarrow> (bool \<times> TFLServiceInternal \<times> 'w) option" where
  "force_feed_pos K pub_key_id call b fp i w = do {
     x \<leftarrow> blake3_hash (bft_hashers K) b;
     (accepted, w) \<leftarrow>
       (if points_at_block_hash fp = x
        then map_option (\<lambda>(status, w). (status = Pass, w)) (validate_bft_block_from_malachite K call i b w)
        else Some (False, w));
     if accepted then do {
       (_, i, w) \<leftarrow> new_decided_bft_block_from_malachite K pub_key_id call b fp i w;
       Some (True, i, w) }
     else Some (False, i, w) }"

record Config =
  listen_address :: "string option"
  public_address :: "string option"
  insecure_user_name :: "string option"
  malachite_peers :: "string list"
  do_not_manipulate_config :: bool

definition Config_default :: Config where
  "Config_default = \<lparr>listen_address = None, public_address = None, insecure_user_name = None,
     malachite_peers = [], do_not_manipulate_config = False\<rparr>"

text \<open>Keys are derived from names: the hash of \<^verbatim>\<open>DefaultHasher\<close>, whose algorithm is not specified, seeds a random number
  generator, from which the Ed25519 library makes the key pair.\<close>

record ('r, 's) key_source =
  default_hash :: "bytes \<Rightarrow> u64"
  seed_from_u64 :: "u64 \<Rightarrow> 'r"
  private_key_new :: "'r \<Rightarrow> 's \<times> 'r"
  public_key_of :: "'s \<Rightarrow> bytes"

definition rng_private_public_key_from_address :: "('r, 's) key_source \<Rightarrow> bytes \<Rightarrow> 'r \<times> 's \<times> bytes" where
  "rng_private_public_key_from_address keys addr =
     (let seed = default_hash keys addr;
          (private_key, rng) = private_key_new keys (seed_from_u64 keys seed)
      in (rng, private_key, public_key_of keys private_key))"

definition name_key :: "('r, 's) key_source \<Rightarrow> string \<Rightarrow> bytes" where
  "name_key keys name = snd (snd (rng_private_public_key_from_address keys (map of_char name)))"

definition initial_roster :: "('r, 's) key_source \<Rightarrow> Config \<Rightarrow> MalValidator list \<times> key_names" where
  "initial_roster keys config =
     (if malachite_peers config = [] then
        let public_ip_string = (case public_address config of
              Some a \<Rightarrow> a | None \<Rightarrow> ''/ip4/127.0.0.1/udp/45869/quic-v1'');
            user_name = (case insecure_user_name config of Some n \<Rightarrow> n | None \<Rightarrow> public_ip_string)
        in ([MalValidator_new (name_key keys user_name) 1], [name_key keys user_name \<mapsto> user_name])
      else (map (\<lambda>peer. MalValidator_new (name_key keys peer) 1) (malachite_peers config),
        fold (\<lambda>peer m. m(name_key keys peer \<mapsto> peer)) (malachite_peers config) Map.empty))"

definition spawn_new_tfl_service :: "bool \<Rightarrow> ('r, 's) key_source \<Rightarrow> Config \<Rightarrow> TFLServiceInternal" where
  "spawn_new_tfl_service is_regtest keys config =
     \<lparr>my_public_key = replicate 32 0, latest_final_block = None, tfl_is_activated = is_regtest,
      final_change_tx = [], bft_msg_flags = 0, bft_err_flags = 0, bft_blocks = [],
      fat_pointer_to_tip = FatPointer2_null, our_set_bft_string = None, active_bft_string = None,
      validators_keys_to_names = snd (initial_roster keys config),
      validators_at_current_height = fst (initial_roster keys config), current_bc_final = None\<rparr>"

definition main_loop_start :: "('r, 's) key_source \<Rightarrow> Config \<Rightarrow> TFLServiceInternal \<Rightarrow> TFLServiceInternal" where
  "main_loop_start keys config i =
     (let public_ip_string = (case public_address config of Some a \<Rightarrow> a | None \<Rightarrow> ''/ip4/127.0.0.1/tcp/45869'');
          user_name = (case insecure_user_name config of Some n \<Rightarrow> n | None \<Rightarrow> public_ip_string)
      in i\<lparr>my_public_key := name_key keys user_name\<rparr>)"

definition main_loop_step :: "'w state_procedure \<Rightarrow> TFLServiceInternal \<Rightarrow> 'w \<Rightarrow> (TFLServiceInternal \<times> 'w) option" where
  "main_loop_step call i w = do {
     (r, w) \<leftarrow> call ReqTip w;
     Some (case r of
         Inr (RespTip (Some (h, _))) \<Rightarrow>
           if \<not> tfl_is_activated i \<and> \<not> h < TFL_ACTIVATION_HEIGHT then i\<lparr>tfl_is_activated := True\<rparr> else i
       | _ \<Rightarrow> i, w) }"

section \<open>The sequence of blocks is complete\<close>

lemma sequence_loop_take:
  assumes "\<not> length chunk \<le> n" "length hashes < 2 ^ 32"
  shows "sequence_loop fetch h hashes n chunk c w =
    sequence_loop fetch h (hashes @ [(Height (height_u32 h + of_nat (length hashes)), chunk ! n)]) (Suc n) chunk (c + 1) w"
  using assms by (subst sequence_loop.simps) simp

lemma sequence_loop_fetch:
  assumes "length chunk \<le> n" "fetch chunk c w = Some (Some new_chunk, w')"
  shows "sequence_loop fetch h hashes n chunk c w =
    (if new_chunk = [] then Some (hashes, w')
     else if length hashes < 2 ^ 32
     then sequence_loop fetch h (hashes @ [(Height (height_u32 h + of_nat (length hashes)), new_chunk ! 0)]) 1 new_chunk (c + 1) w'
     else None)"
  using assms by (subst sequence_loop.simps) simp

lemma sequence_loop_complete:
  assumes fetch: "\<And>chunk c a. s \<le> a \<Longrightarrow> a \<le> e \<Longrightarrow>
      (if a = s then chunk = [] else chunk \<noteq> [] \<and> last chunk = f (a - 1)) \<Longrightarrow> c = of_nat (a - s) \<Longrightarrow>
      fetch chunk c w = Some (Some (map f [a..<min (a + 500) e]), w)"
    and e: "e \<le> 2 ^ 31" and a: "s \<le> a" "a \<le> e"
    and chunk: "chunk = [] \<and> i = 0 \<and> a = s \<or>
      (\<exists>d d'. chunk = map f [d..<d'] \<and> d' \<le> e \<and> s \<le> d \<and> a = d + i \<and> 0 < i \<and> a \<le> d')"
  shows "sequence_loop fetch (ht s) (map (\<lambda>j. (ht j, f j)) [s..<a]) i chunk (of_nat (a - s)) w =
    Some (map (\<lambda>j. (ht j, f j)) [s..<e], w)"
  using a chunk
proof (induction "e - a" arbitrary: a i chunk rule: less_induct)
  case less
  let ?hs = "map (\<lambda>j. (ht j, f j)) [s..<a]"
  have len: "length ?hs < 2 ^ 32" using less.prems(1,2) e by simp
  have c: "(of_nat (a - s) :: u32) + 1 = of_nat (Suc a - s)" using less.prems(1) by (simp add: Suc_diff_le add.commute)
  have snoc: "?hs @ [(Height (height_u32 (ht s) + of_nat (length ?hs)), f a)] = map (\<lambda>j. (ht j, f j)) [s..<Suc a]"
    using less.prems(1) by (simp flip: of_nat_add)
  show ?case
  proof (cases "length chunk \<le> i")
    case False
    then obtain d d' where d: "chunk = map f [d..<d']" "d' \<le> e" "s \<le> d" "a = d + i" "0 < i" "a < d'"
      using less.prems(3) by auto
    have "chunk ! i = f a" using d by simp
    moreover have "sequence_loop fetch (ht s) (map (\<lambda>j. (ht j, f j)) [s..<Suc a]) (Suc i) chunk (of_nat (Suc a - s)) w =
        Some (map (\<lambda>j. (ht j, f j)) [s..<e], w)"
      using d less.prems(1) by (intro less.hyps) auto
    ultimately show ?thesis unfolding sequence_loop_take[OF False len] c using snoc by simp
  next
    case True
    have "if a = s then chunk = [] else chunk \<noteq> [] \<and> last chunk = f (a - 1)"
      using less.prems(3) True by (auto simp: last_map intro!: arg_cong[of _ _ f])
    from fetch[OF less.prems(1,2) this refl]
    have step: "fetch chunk (of_nat (a - s)) w = Some (Some (map f [a..<min (a + 500) e]), w)" .
    show ?thesis
    proof (cases "a = e")
      case False
      then have nth: "map f [a..<min (a + 500) e] \<noteq> []" "map f [a..<min (a + 500) e] ! 0 = f a" using less.prems(2) by auto
      have "sequence_loop fetch (ht s) (map (\<lambda>j. (ht j, f j)) [s..<Suc a]) 1 (map f [a..<min (a + 500) e]) (of_nat (Suc a - s)) w =
          Some (map (\<lambda>j. (ht j, f j)) [s..<e], w)"
        using False less.prems(1,2) by (intro less.hyps disjI2 exI[of _ a] exI[of _ "min (a + 500) e"]) auto
      then show ?thesis unfolding sequence_loop_fetch[where fetch = fetch, OF True step] c nth(2) snoc using nth(1) len by simp
    qed (unfold sequence_loop_fetch[where fetch = fetch, OF True step], simp)
  qed
qed

definition linked :: "pow_chain \<Rightarrow> bool" where
  "linked bc \<longleftrightarrow> (\<forall>n < length bc. position bc (previous_block_hash (block_header_field (snd (bc ! n)))) =
     (if n = 0 then None else Some (n - 1)))"


lemma segment_from:
  assumes d: "distinct (map fst bc)" and fin: "position bc y = Some m" and a: "a \<le> Suc m"
    and known: "position bc x = (if a = 0 then None else Some (a - 1))"
  shows "map fst (segment bc [x] (Some y) 500) = map (\<lambda>j. fst (bc ! j)) [a..<min (a + 500) (Suc m)]"
proof -
  have "m < length bc" using fin position_Some_iff[OF d] by blast
  then have e: "min (min (a + 500) (length bc)) (Suc m) = min (a + 500) (Suc m)" by simp
  have st: "(case find (\<lambda>z. position bc z \<noteq> None) [x] of None \<Rightarrow> 0 | Some z \<Rightarrow> Suc (the (position bc z))) = a"
    using known by (cases "a = 0") auto
  have "segment bc [x] (Some y) 500 = map (nth bc) [a..<min (min (a + 500) (length bc)) (Suc m)]"
    unfolding segment_def Let_def st by (simp add: fin)
  then show ?thesis unfolding e by simp
qed

context finality_backend
begin

lemma height_from_hash_known:
  "view w bc \<Longrightarrow> position bc x = Some n \<Longrightarrow> block_height_from_hash call x w = Some (Some (ht n), w)"
  using known_law[of w bc x n] read_eq[of "ReqKnownBlock x" w] by (auto simp: block_height_from_hash_def)

lemma fetch_from:
  assumes view: "view w bc" and fin: "position bc y = Some m" and a: "s \<le> a" "a \<le> Suc m"
    and known: "if a = s then chunk = [] else chunk \<noteq> [] \<and> last chunk = fst (bc ! (a - 1))"
    and init: "position bc init = (if s = 0 then None else Some (s - 1))"
    and first: "incl \<Longrightarrow> start = fst (bc ! s)" and c: "c = of_nat (a - s)"
  shows "fetch_chunk call start init (Some y) incl chunk c w =
    Some (Some (map (\<lambda>j. fst (bc ! j)) [a..<min (a + 500) (Suc m)]), w)"
proof -
  let ?x = "if chunk = [] then init else last chunk"
  note len = view_list[OF view]
  then have m: "m < length bc" using fin position_Some_iff by blast
  have "position bc ?x = (if a = 0 then None else Some (a - 1))"
    using known init a m len by (auto simp: position_Some_iff split: if_splits)
  from segment_from[OF _ fin a(2) this] len find_hashes_law[OF view, of "[?x]" "Some y"]
  have read: "call (ReqFindBlockHashes [?x] (Some y)) w =
      Some (Inr (RespBlockHashes (map (\<lambda>j. fst (bc ! j)) [a..<min (a + 500) (Suc m)])), w)"
    by (intro read_eq) auto
  have "a = s" if "c = 0"
  proof -
    have "a - s < 2 ^ 32" using a m len[THEN conjunct1] by simp
    then have "unat c = a - s" unfolding c by (simp add: unat_of_nat)
    with that a(1) show ?thesis by simp
  qed
  moreover have "e \<le> a \<or> hd (map (\<lambda>j. fst (bc ! j)) [a..<e]) = fst (bc ! a)" for e
    by (cases "e \<le> a") (simp_all add: hd_map)
  note this[of "min (a + 500) (Suc m)"]
  ultimately show ?thesis using first unfolding fetch_chunk_def Let_def read by (cases "c = 0 \<and> incl") auto
qed

lemma read_infos_view:
  assumes view: "view w bc" and js: "\<forall>j\<in>set js. j < length bc"
  shows "read_infos call (map (\<lambda>j. (ht j, fst (bc ! j))) js) w = Some (map (\<lambda>j. Some (snd (bc ! j))) js, w)"
  using js
proof (induction js)
  case (Cons j js)
  then have "position bc (fst (bc ! j)) = Some j" using view_list[OF view] by (simp add: position_Some_iff)
  then have "call (ReqBlock (OfHash (fst (bc ! j)))) w = Some (Inr (RespBlock (Some (snd (bc ! j)))), w)"
    using block_law[OF view, of "fst (bc ! j)"] by (intro read_eq) auto
  with Cons show ?case by simp
qed simp

lemma sequence_start_view:
  assumes view: "view w bc" and linked: "linked bc" and x: "position bc x = Some n"
    and s: "s = (if incl then n else Suc n)"
  obtains init where "sequence_start call x incl w = Some (Some (ht s, init), w)"
    "position bc init = (if s = 0 then None else Some (s - 1))" "incl \<longrightarrow> x = fst (bc ! s)"
proof -
  have n: "n < length bc \<and> fst (bc ! n) = x" using x position_Some_iff[of bc x n] view_list[OF view] by auto
  let ?h = "block_header_field (snd (bc ! n))"
  have "call (ReqBlockHeader (OfHash x)) w = Some (Inr (RespBlockHeader ?h x (ht n)
      (if Suc n < length bc then Some (fst (bc ! Suc n)) else None)), w)"
    by (rule read_eq[OF header_hash_law[OF view x]]) simp
  then have "sequence_start call x incl w = Some (Some (ht s, if incl then previous_block_hash ?h else x), w)"
    using s by (simp add: sequence_start_def add.commute)
  moreover have "position bc (if incl then previous_block_hash ?h else x) = (if s = 0 then None else Some (s - 1))"
    using linked[unfolded linked_def, rule_format, of n] n x s by (cases incl) simp_all
  ultimately show thesis using that s n by simp
qed

lemma block_sequence_view:
  assumes view: "view w bc" and linked: "linked bc" and x: "position bc x = Some n"
    and fin: "fin = Some (ht m, fst (bc ! m)) \<or> fin = None \<and> m = length bc - 1" and m: "m < length bc"
    and s: "s = (if incl then n else Suc n)"
  shows "tfl_block_sequence call x fin incl extra w = Some ((map (\<lambda>j. (ht j, fst (bc ! j))) [s..<Suc m],
    if extra then map (\<lambda>j. Some (snd (bc ! j))) [s..<Suc m] else []), w)"
proof -
  note len = view_list[OF view]
  obtain init where start: "sequence_start call x incl w = Some (Some (ht s, init), w)"
    "position bc init = (if s = 0 then None else Some (s - 1))" "incl \<longrightarrow> x = fst (bc ! s)"
    by (rule sequence_start_view[OF view linked x s])
  have y: "position bc (fst (bc ! m)) = Some m" using len m by (simp add: position_Some_iff)
  have fin': "sequence_final call fin w = Some (Some (ht m, fst (bc ! m)), w)"
    using fin
  proof (elim disjE conjE)
    assume "fin = None" and m': "m = length bc - 1"
    moreover have "bc \<noteq> []" using m by auto
    then have "call ReqTip w = Some (Inr (RespTip (Some (ht m, fst (bc ! m)))), w)"
      using tip_law[OF view] unfolding m' by (intro read_eq) (simp_all add: last_conv_nth)
    ultimately show ?thesis by (simp add: sequence_final_def)
  qed (simp add: sequence_final_def)
  have n: "n < length bc" using x position_Some_iff[of bc x n] len by auto
  have nat: "height_nat (ht m) = m" "height_nat (ht s) = s"
    by (rule height_nat_ht; use m n s len in simp)+
  show ?thesis
  proof (cases "m < s")
    case True
    then have "ht m < ht s" using nat by (simp add: Height_less_iff del: Height.sel)
    then show ?thesis using start(1) fin' True by (simp add: tfl_block_sequence_def)
  next
    case False
    then have "\<not> ht m < ht s" using nat by (simp add: Height_less_iff del: Height.sel)
    moreover have "sequence_loop (fetch_chunk call x init (Some (fst (bc ! m))) incl) (ht s) [] 0 [] 0 w =
        Some (map (\<lambda>j. (ht j, fst (bc ! j))) [s..<Suc m], w)"
      (is "sequence_loop ?fetch _ _ _ _ _ _ = _")
    proof -
      have "?fetch chunk c w = Some (Some (map (\<lambda>j. fst (bc ! j)) [a..<min (a + 500) (Suc m)]), w)"
        if "s \<le> a" "a \<le> Suc m" "if a = s then chunk = [] else chunk \<noteq> [] \<and> last chunk = fst (bc ! (a - 1))"
          "c = of_nat (a - s)" for chunk c a
        by (rule fetch_from[OF view y that(1-3) start(2) _ that(4)]) (use start(3) in simp)
      from sequence_loop_complete[where fetch = ?fetch and a = s and i = 0 and chunk = "[]" and s = s and e = "Suc m"
          and f = "\<lambda>j. fst (bc ! j)" and w = w, OF this]
      show ?thesis using False m len by simp
    qed
    moreover have "read_infos call (map (\<lambda>j. (ht j, fst (bc ! j))) [s..<Suc m]) w =
        Some (map (\<lambda>j. Some (snd (bc ! j))) [s..<Suc m], w)"
      using m by (intro read_infos_view[OF view]) auto
    ultimately show ?thesis using start(1) fin' by (simp add: tfl_block_sequence_def del: upt_Suc)
  qed
qed

end

section \<open>Paying the finalizers\<close>

text \<open>What the newly final blocks owe, one block after the other: the reward to the roster of the
  moment, then the commands of the block.\<close>

definition settle_step :: "pow_block \<Rightarrow> MalValidator list \<times> key_names \<Rightarrow> (MalValidator list \<times> key_names) option" where
  "settle_step b s = do {
     r \<leftarrow> distribute_reward (fst s);
     let (r', names, c) = update_roster_for_block r (snd s) (transactions b);
     Some (r', names) }"

fun settle :: "pow_block list \<Rightarrow> MalValidator list \<times> key_names \<Rightarrow> (MalValidator list \<times> key_names) option" where
  "settle [] s = Some s"
| "settle (b # bs) s = Option.bind (settle_step b s) (settle bs)"

definition tx_issue :: "pow_transaction \<Rightarrow> nat" where
  "tx_issue tx = (case tx of VCrosslink (Some a) \<Rightarrow> stake_issued a | _ \<Rightarrow> 0)"

definition block_issue :: "pow_block \<Rightarrow> nat" where
  "block_issue b = 6000 + sum_list (map tx_issue (transactions b))"

lemma update_roster_for_block_ok:
  assumes "roster_ok r" "total_stake r + sum_list (map tx_issue txs) < 2 ^ 64"
  shows "\<exists>r' names' c. update_roster_for_block r names txs = (r', names', c) \<and> roster_ok r' \<and>
    total_stake r' \<le> total_stake r + sum_list (map tx_issue txs)"
  using assms
proof (induction txs arbitrary: r names)
  case (Cons tx txs)
  obtain s n c where s: "(case tx of VCrosslink (Some a) \<Rightarrow> update_roster_for_cmd r names a | _ \<Rightarrow> (r, names, 0)) = (s, n, c)"
    by (metis prod_cases3)
  have "roster_ok s \<and> total_stake s \<le> total_stake r + tx_issue tx"
  proof (cases "\<exists>a. tx = VCrosslink (Some a)")
    case True
    then obtain a where a: "tx = VCrosslink (Some a)" by blast
    then have "total_stake r + stake_issued a < 2 ^ 64" using Cons.prems(2) by (simp add: tx_issue_def)
    from commands.step_ok[of "(r, names)" a] this Cons.prems(1) s show ?thesis
      by (auto simp: a cmd_step_def tx_issue_def)
  next
    case False
    with s Cons.prems(1) show ?thesis by (auto split: pow_transaction.splits option.splits)
  qed
  with Cons.IH[of s n] Cons.prems(2) s show ?case by fastforce
qed simp

interpretation settlement: bounded_supply settle_step "\<lambda>s. roster_ok (fst s)" "\<lambda>s. total_stake (fst s)"
  block_issue "2 ^ 64"
proof unfold_locales
  fix s :: "MalValidator list \<times> key_names" and b
  assume ok: "roster_ok (fst s)" and cap: "total_stake (fst s) + block_issue b < 2 ^ 64"
  then obtain r where r: "distribute_reward (fst s) = Some r" "roster_ok r" "total_stake r \<le> total_stake (fst s) + 6000"
    using rewards.step_ok[of "fst s"] by (auto simp: block_issue_def)
  with update_roster_for_block_ok[of r "transactions b" "snd s"] cap
  show "\<exists>s'. settle_step b s = Some s' \<and> roster_ok (fst s') \<and> total_stake (fst s') \<le> total_stake (fst s) + block_issue b"
    by (fastforce simp: settle_step_def block_issue_def)
qed

lemma settle_run: "settle bs = settlement.run bs"
  by (induction bs) (auto intro!: ext)

lemma finalize_pow_block_settle:
  "finalize_pow_block hh (Some b) i = map_option (\<lambda>(r, names). i\<lparr>validators_at_current_height := r,
     validators_keys_to_names := names, final_change_tx := final_change_tx i @ [hh]\<rparr>)
     (settle_step b (validators_at_current_height i, validators_keys_to_names i))"
  by (cases "distribute_reward (validators_at_current_height i)")
    (auto simp: finalize_pow_block_def settle_step_def split: prod.splits)

lemma finalize_pow_blocks_settle:
  assumes "\<forall>j\<in>set js. map_option snd (current_bc_final i) \<noteq> Some (snd (hh j))"
  shows "finalize_pow_blocks (map hh js) (map (\<lambda>j. Some (b j)) js) i =
    map_option (\<lambda>(r, names). i\<lparr>validators_at_current_height := r, validators_keys_to_names := names,
      final_change_tx := final_change_tx i @ map hh js\<rparr>)
      (settle (map b js) (validators_at_current_height i, validators_keys_to_names i))"
  using assms
proof (induction js arbitrary: i)
  case (Cons j js)
  show ?case
  proof (cases "settle_step (b j) (validators_at_current_height i, validators_keys_to_names i)")
    case (Some s)
    obtain r names where s: "s = (r, names)" by (cases s)
    let ?i = "i\<lparr>validators_at_current_height := r, validators_keys_to_names := names,
      final_change_tx := final_change_tx i @ [hh j]\<rparr>"
    have step: "finalize_pow_block (hh j) (Some (b j)) i = Some ?i" by (simp add: finalize_pow_block_settle Some s)
    have "finalize_pow_blocks (map hh js) (map (\<lambda>j. Some (b j)) js) ?i = map_option (\<lambda>(r, names).
        ?i\<lparr>validators_at_current_height := r, validators_keys_to_names := names,
          final_change_tx := final_change_tx ?i @ map hh js\<rparr>) (settle (map b js) (r, names))"
      using Cons.IH[of ?i] Cons.prems by simp
    then show ?thesis using Cons.prems step Some s by (cases "settle (map b js) (r, names)") auto
  qed (use Cons.prems in \<open>simp add: finalize_pow_block_settle\<close>)
qed simp


section \<open>A decided block is processed\<close>

lemma insert_bft_block_next:
  assumes b: "bft_height b = of_nat (Suc (length bs))" "Suc (length bs) < 2 ^ 32" "headers b \<noteq> []"
    and parent: "bs \<noteq> [] \<longrightarrow> blake3_hash (bft_hashers K) (last bs) = Some (points_at_block_hash (previous_block_fat_ptr b)) \<and>
      points_at_block_hash (previous_block_fat_ptr b) \<noteq> replicate 32 0"
  shows "insert_bft_block K b bs = Some (bs @ [b])"
proof -
  have h: "unat (bft_height b) = Suc (length bs)" unfolding b(1) using b(2) by (simp add: unat_of_nat del: of_nat_Suc)
  then have "bft_height b \<noteq> 0" by auto
  moreover have "(bs @ [placeholder_block (length bs)]) ! (length bs - Suc 0) = last bs" if "bs \<noteq> []"
    using that by (simp add: nth_append last_conv_nth)
  ultimately show ?thesis using h b(3) parent
    by (cases "bs = []") (auto simp: insert_bft_block_def bft_previous_block_hash_def placeholder_block_def Let_def)
qed

text \<open>The positions whose blocks become final when the block at \<open>n\<close> is decided.\<close>

definition newly_final :: "(Height \<times> bytes) option \<Rightarrow> nat \<Rightarrow> nat list" where
  "newly_final cur n = (case cur of None \<Rightarrow> [n] | Some (h, _) \<Rightarrow> [Suc (height_nat h)..<Suc n])"

definition on_chain :: "pow_chain \<Rightarrow> (Height \<times> bytes) option \<Rightarrow> bool" where
  "on_chain bc cur \<longleftrightarrow> (\<forall>h x. cur = Some (h, x) \<longrightarrow> height_nat h < length bc \<and> x = fst (bc ! height_nat h))"

context finality_backend
begin

lemma validate_pass:
  assumes "view w bc" "position bc x = Some n" "first_header_hash K b = Some x"
    "points_at_block_hash (previous_block_fat_ptr b) = points_at_block_hash (fat_pointer_to_tip i)"
  shows "validate_bft_block_from_malachite K call i b w = Some (Pass, w)"
  using assms height_from_hash_known[OF assms(1,2)] by (simp add: validate_bft_block_from_malachite_def)

lemma advance_bc_final_view:
  assumes view: "view w bc" and linked: "linked bc" and n: "n < length bc"
    and fin: "latest_final_block i = Some (ht n, fst (bc ! n))" and cur: "on_chain bc (current_bc_final i)"
    and paid: "settle (map (\<lambda>j. snd (bc ! j)) (newly_final (current_bc_final i) n))
      (validators_at_current_height i, validators_keys_to_names i) = Some (r, names)"
  shows "advance_bc_final call i w = Some (i\<lparr>current_bc_final := Some (ht n, fst (bc ! n)),
    validators_at_current_height := r, validators_keys_to_names := names,
    final_change_tx := final_change_tx i @ map (\<lambda>j. (ht j, fst (bc ! j))) (newly_final (current_bc_final i) n)\<rparr>, w)"
proof -
  let ?hh = "\<lambda>j. (ht j, fst (bc ! j))" and ?b = "\<lambda>j. snd (bc ! j)" and ?js = "newly_final (current_bc_final i) n"
  note len = view_list[OF view]
  define s where "s = (case current_bc_final i of None \<Rightarrow> n | Some (h, _) \<Rightarrow> height_nat h)"
  have s: "s < length bc" "(case current_bc_final i of Some prev \<Rightarrow> snd prev | None \<Rightarrow> snd (ht n, fst (bc ! n))) = fst (bc ! s)"
    using cur n by (auto simp: s_def on_chain_def split: option.splits)
  then have pos: "position bc (fst (bc ! s)) = Some s" using len by (simp add: position_Some_iff)
  have seq: "tfl_block_sequence call (fst (bc ! s)) (Some (ht n, fst (bc ! n))) True True w =
      Some ((map ?hh [s..<Suc n], map (\<lambda>j. Some (?b j)) [s..<Suc n]), w)"
    using block_sequence_view[OF view linked pos, of "Some (ht n, fst (bc ! n))" n s True True] n by (simp del: upt_Suc)
  have "\<forall>j\<in>set ?js. map_option snd (current_bc_final i) \<noteq> Some (snd (?hh j))"
    using cur n len by (auto simp: newly_final_def on_chain_def distinct_conv_nth split: option.splits)
  from finalize_pow_blocks_settle[OF this, of "\<lambda>j. snd (bc ! j)"]
  have fin': "finalize_pow_blocks (map ?hh ?js) (map (\<lambda>j. Some (?b j)) ?js) i = Some (i\<lparr>validators_at_current_height := r,
      validators_keys_to_names := names, final_change_tx := final_change_tx i @ map ?hh ?js\<rparr>)"
    by (simp add: paid)
  have "finalize_pow_blocks (map ?hh [s..<Suc n]) (map (\<lambda>j. Some (?b j)) [s..<Suc n]) i =
      finalize_pow_blocks (map ?hh ?js) (map (\<lambda>j. Some (?b j)) ?js) i"
  proof (cases "current_bc_final i")
    case (Some p)
    then have p: "height_nat (fst p) = s" "snd p = fst (bc ! s)" using cur s_def by (auto simp: on_chain_def split: prod.splits)
    then show ?thesis
    proof (cases "s \<le> n")
      case True
      then have "[s..<Suc n] = s # [Suc s..<Suc n]" by (simp add: upt_conv_Cons del: upt_Suc)
      then show ?thesis using Some p by (cases p) (simp add: newly_final_def del: upt_Suc)
    qed (use Some p in \<open>cases p; simp add: newly_final_def\<close>)
  qed (simp add: s_def newly_final_def)
  with seq fin' show ?thesis unfolding advance_bc_final_def fin Let_def option.case s(2) by (simp del: upt_Suc)
qed

lemma decided_block_view:
  assumes view: "view w bc" and linked: "linked bc"
    and hash: "blake3_hash (bft_hashers K) b = Some (points_at_block_hash fp)"
    and sigs: "validate_signatures (batch_verify K) fp"
    and prev: "points_at_block_hash (previous_block_fat_ptr b) = points_at_block_hash (fat_pointer_to_tip i)"
    and x: "first_header_hash K b = Some x" "position bc x = Some n"
    and ins: "insert_bft_block K b (bft_blocks i) = Some bs"
    and cur: "on_chain bc (current_bc_final i)"
    and paid: "settle (map (\<lambda>j. snd (bc ! j)) (newly_final (current_bc_final i) n))
      (validators_at_current_height i, validators_keys_to_names i) = Some (r, names)"
  shows "\<exists>w'. new_decided_bft_block_from_malachite K pub_key_id call b fp i w =
      Some (tenderlink_roster_from_internal pub_key_id r, i\<lparr>bft_blocks := bs, fat_pointer_to_tip := fp,
        latest_final_block := Some (ht n, x), current_bc_final := Some (ht n, x),
        validators_at_current_height := r, validators_keys_to_names := names,
        final_change_tx := final_change_tx i @ map (\<lambda>j. (ht j, fst (bc ! j))) (newly_final (current_bc_final i) n)\<rparr>, w') \<and>
      view w' bc \<and> final_at w' (ht n)"
proof -
  have n: "n < length bc" "fst (bc ! n) = x" using x(2) position_Some_iff[of bc x n] view_list[OF view] by auto
  obtain w' where w': "call (ReqCrosslinkFinalizeBlock x) w = Some (Inr (RespCrosslinkFinalized x), w')" "view w' bc" "final_at w' (ht n)"
    using finalize_law[OF view x(2)] by blast
  let ?i = "i\<lparr>bft_blocks := bs, fat_pointer_to_tip := fp, latest_final_block := Some (ht n, x)\<rparr>"
  have "advance_bc_final call ?i w' = Some (?i\<lparr>current_bc_final := Some (ht n, x),
      validators_at_current_height := r, validators_keys_to_names := names,
      final_change_tx := final_change_tx ?i @ map (\<lambda>j. (ht j, fst (bc ! j))) (newly_final (current_bc_final ?i) n)\<rparr>, w')"
    using advance_bc_final_view[OF w'(2) linked n(1), of ?i] cur paid n(2) by simp
  then show ?thesis
    using hash sigs validate_pass[OF view x(2,1) prev] x(1) height_from_hash_known[OF view x(2)] ins w'
    by (simp add: new_decided_bft_block_from_malachite_def crosslink_finalize_block_def)
qed

end


section \<open>The chain of decided blocks\<close>

definition bft_chain :: "crypto \<Rightarrow> BftBlock list \<Rightarrow> FatPointerToBftBlock2 \<Rightarrow> bool" where
  "bft_chain K bs tip_pointer \<longleftrightarrow> length bs < 2 ^ 32 \<and>
     (if bs = [] then points_at_block_hash tip_pointer = replicate 32 0
      else validate_signatures (batch_verify K) tip_pointer) \<and>
     (\<forall>j < length bs. wf_bft_block (bs ! j) \<and> headers (bs ! j) \<noteq> [] \<and> bft_height (bs ! j) = of_nat (Suc j) \<and>
        blake3_hash (bft_hashers K) (bs ! j) = Some (points_at_block_hash
          (if Suc j < length bs then previous_block_fat_ptr (bs ! Suc j) else tip_pointer)))"

text \<open>The part of it that a hash determines: heights, and each hash recorded in the next block.\<close>

definition hash_chain :: "crypto \<Rightarrow> BftBlock list \<Rightarrow> bytes \<Rightarrow> bool" where
  "hash_chain K bs x \<longleftrightarrow> length bs < 2 ^ 32 \<and>
     (\<forall>j < length bs. wf_bft_block (bs ! j) \<and> bft_height (bs ! j) = of_nat (Suc j) \<and>
        blake3_hash (bft_hashers K) (bs ! j) =
          Some (if Suc j < length bs then points_at_block_hash (previous_block_fat_ptr (bs ! Suc j)) else x))"

lemma bft_chain_prefix:
  assumes "bft_chain K bs tip_pointer" "0 < n" "n \<le> length bs"
  shows "hash_chain K (take n bs) (points_at_block_hash (if n = length bs then tip_pointer else previous_block_fat_ptr (bs ! n)))"
proof -
  have "Suc j = n \<or> Suc j < n" if "j < n" for j using that by linarith
  then show ?thesis using assms unfolding bft_chain_def hash_chain_def by (auto simp del: of_nat_Suc)
qed

lemma hash_chain_snoc:
  assumes "hash_chain K (bs @ [b]) x"
  shows "hash_chain K bs (points_at_block_hash (previous_block_fat_ptr b))"
    "wf_bft_block b" "unat (bft_height b) = Suc (length bs)" "blake3_hash (bft_hashers K) b = Some x"
proof -
  note C = assms[unfolded hash_chain_def]
  have at: "wf_bft_block ((bs @ [b]) ! j) \<and> bft_height ((bs @ [b]) ! j) = of_nat (Suc j) \<and> blake3_hash (bft_hashers K) ((bs @ [b]) ! j) =
      Some (if j < length bs then points_at_block_hash (previous_block_fat_ptr ((bs @ [b]) ! Suc j)) else x)"
    if "j < Suc (length bs)" for j using C that by simp
  show "wf_bft_block b" "blake3_hash (bft_hashers K) b = Some x" using at[of "length bs"] by auto
  have "Suc (length bs) < 2 ^ 32" using C by simp
  then show "unat (bft_height b) = Suc (length bs)"
    using at[of "length bs"] by (simp add: unat_of_nat del: of_nat_Suc)
  have "wf_bft_block (bs ! j) \<and> bft_height (bs ! j) = of_nat (Suc j) \<and> blake3_hash (bft_hashers K) (bs ! j) =
      Some (if Suc j < length bs then points_at_block_hash (previous_block_fat_ptr (bs ! Suc j))
        else points_at_block_hash (previous_block_fat_ptr b))" if j: "j < length bs" for j
  proof (cases "Suc j < length bs")
    case True
    then show ?thesis using at[of j] by (simp add: nth_append del: of_nat_Suc)
  next
    case False
    then have "Suc j = length bs" using j by simp
    then show ?thesis using at[of j] j by (simp add: nth_append del: of_nat_Suc)
  qed
  then show "hash_chain K bs (points_at_block_hash (previous_block_fat_ptr b))" using C by (simp add: hash_chain_def del: of_nat_Suc)
qed

lemma hash_chain_unique:
  assumes "hash_chain K as x" "hash_chain K bs x" and free: "collision_free (bft_hashers K) B"
    and "set as \<subseteq> B" "set bs \<subseteq> B" "as \<noteq> []" "bs \<noteq> []"
  shows "as = bs"
  using assms
proof (induction as arbitrary: bs x rule: rev_induct)
  case (snoc a as)
  obtain bs' b where bs: "bs = bs' @ [b]" using snoc.prems(7) by (cases bs rule: rev_cases) auto
  note A = hash_chain_snoc[OF snoc.prems(1)] and B = hash_chain_snoc[OF snoc.prems(2)[unfolded bs]]
  have ab: "a = b" using snoc.prems(4,5) A(2,4) B(2,4) bs by (intro blake3_hash_commits[OF free]) auto
  have len: "length as = length bs'" using A(3) B(3) ab by simp
  show ?case
  proof (cases "as = []")
    case False
    then have "as = bs'" using len snoc.prems(4,5) bs ab
      by (intro snoc.IH[OF A(1) B(1)[folded ab] free]) auto
    then show ?thesis using bs ab by simp
  qed (use len bs ab in simp)
qed simp

text \<open>What collision resistance gives: no block with headers hashes like a padding block.\<close>

definition padding_distinct :: "crypto \<Rightarrow> bool" where
  "padding_distinct K \<longleftrightarrow> (\<forall>b n. wf_bft_block b \<and> headers b \<noteq> [] \<longrightarrow>
     blake3_hash (bft_hashers K) b \<noteq> blake3_hash (bft_hashers K) (placeholder_block n))"

lemma insert_bft_block_Some:
  assumes ins: "insert_bft_block K b bs = Some bs'" and chain: "bft_chain K bs tip_pointer"
    and prev: "points_at_block_hash (previous_block_fat_ptr b) = points_at_block_hash tip_pointer"
    and K: "padding_distinct K"
  shows "bs' = bs @ [b] \<and> unat (bft_height b) = Suc (length bs) \<and> headers b \<noteq> []"
proof -
  define n where "n = unat (bft_height b) - 1"
  let ?bs = "bs @ map placeholder_block [length bs..<Suc n]"
  have h: "unat (bft_height b) = Suc n"
    using ins by (cases "bft_height b = 0") (auto simp: insert_bft_block_def n_def unat_gt_0)
  from ins h have parent: "0 < n \<longrightarrow> blake3_hash (bft_hashers K) (?bs ! (n - 1)) = Some (points_at_block_hash tip_pointer)"
    and zero: "0 < n \<longrightarrow> points_at_block_hash tip_pointer \<noteq> replicate 32 0"
    and slot: "headers (?bs ! n) = []" "headers b \<noteq> []" and bs': "bs' = ?bs[n := b]"
    by (auto simp: insert_bft_block_def bft_previous_block_hash_def Let_def prev simp flip: n_def
        split: if_splits elim!: bind_SomeE simp del: upt_Suc)
  have "\<not> n < length bs" using slot(1) chain by (auto simp: bft_chain_def nth_append)
  moreover have "\<not> length bs < n"
  proof
    assume n: "length bs < n"
    then have "?bs ! (n - 1) = placeholder_block (n - 1)" by (simp add: nth_append del: upt_Suc)
    then have hash: "blake3_hash (bft_hashers K) (placeholder_block (n - 1)) = Some (points_at_block_hash tip_pointer)"
      using parent n by simp
    show False
    proof (cases "bs = []")
      case False
      then have last: "length bs - 1 < length bs" "\<not> Suc (length bs - 1) < length bs" by auto
      have "blake3_hash (bft_hashers K) (bs ! (length bs - 1)) = Some (points_at_block_hash tip_pointer) \<and>
          wf_bft_block (bs ! (length bs - 1)) \<and> headers (bs ! (length bs - 1)) \<noteq> []"
        using chain[unfolded bft_chain_def, THEN conjunct2, THEN conjunct2, rule_format, OF last(1)] unfolding if_not_P[OF last(2)] by blast
      with hash K show False unfolding padding_distinct_def by metis
    qed (use chain zero n in \<open>simp add: bft_chain_def\<close>)
  qed
  ultimately have "n = length bs" by simp
  then show ?thesis using bs' h slot(2) by simp
qed

lemma bft_chain_snoc:
  assumes chain: "bft_chain K bs tip_pointer" and b: "unat (bft_height b) = Suc (length bs)" "headers b \<noteq> []" "wf_bft_block b"
    and prev: "points_at_block_hash (previous_block_fat_ptr b) = points_at_block_hash tip_pointer"
    and hash: "blake3_hash (bft_hashers K) b = Some (points_at_block_hash fp)" and sigs: "validate_signatures (batch_verify K) fp"
  shows "bft_chain K (bs @ [b]) fp"
proof -
  have h: "bft_height b = of_nat (Suc (length bs))" "Suc (length bs) < 2 ^ 32"
    using unat_uN_less(2)[of "bft_height b"] by (simp_all flip: b(1))
  have "blake3_hash (bft_hashers K) ((bs @ [b]) ! j) = Some (points_at_block_hash
      (if Suc j < length (bs @ [b]) then previous_block_fat_ptr ((bs @ [b]) ! Suc j) else fp))" if j: "j < length (bs @ [b])" for j
  proof -
    consider "j = length bs" | "Suc j = length bs" | "Suc j < length bs" using j by fastforce
    then show ?thesis using chain hash prev by cases (auto simp: bft_chain_def nth_append)
  qed
  then show ?thesis using chain b h sigs by (auto simp: bft_chain_def nth_append less_Suc_eq simp del: of_nat_Suc)
qed

lemma finalize_pow_blocks_keeps:
  "finalize_pow_blocks hhs infos i = Some i' \<Longrightarrow>
    bft_blocks i' = bft_blocks i \<and> fat_pointer_to_tip i' = fat_pointer_to_tip i"
proof (induction hhs infos i rule: finalize_pow_blocks.induct)
  case (2 hh hhs infos i)
  show ?case
  proof (cases "map_option snd (current_bc_final i) = Some (snd hh)")
    case False
    with 2(3) obtain info infos' j where j: "infos = info # infos'" "finalize_pow_block hh info i = Some j"
        "finalize_pow_blocks hhs infos' j = Some i'"
      by (auto split: list.splits elim!: bind_SomeE)
    have "bft_blocks j = bft_blocks i \<and> fat_pointer_to_tip j = fat_pointer_to_tip i"
      using j(2) by (auto simp: finalize_pow_block_def split: option.splits prod.splits elim!: bind_SomeE)
    with 2(2)[OF False j] show ?thesis by simp
  qed (use 2 in simp)
qed simp

lemma advance_bc_final_keeps:
  "advance_bc_final call i w = Some (i', w') \<Longrightarrow>
    bft_blocks i' = bft_blocks i \<and> fat_pointer_to_tip i' = fat_pointer_to_tip i"
  by (auto simp: advance_bc_final_def split: option.splits prod.splits elim!: bind_SomeE dest!: finalize_pow_blocks_keeps)

lemma new_decided_Some:
  assumes "new_decided_bft_block_from_malachite K pub_key_id call b fp i w = Some (r, i', w')"
  shows "blake3_hash (bft_hashers K) b = Some (points_at_block_hash fp) \<and> validate_signatures (batch_verify K) fp \<and>
    points_at_block_hash (previous_block_fat_ptr b) = points_at_block_hash (fat_pointer_to_tip i) \<and>
    insert_bft_block K b (bft_blocks i) = Some (bft_blocks i') \<and> fat_pointer_to_tip i' = fp"
  using assms
  by (auto simp: new_decided_bft_block_from_malachite_def validate_bft_block_from_malachite_def Let_def
      split: if_splits elim!: bind_SomeE dest!: advance_bc_final_keeps)

lemma new_decided_chain:
  assumes "new_decided_bft_block_from_malachite K pub_key_id call b fp i w = Some (r, i', w')"
    and "bft_chain K (bft_blocks i) (fat_pointer_to_tip i)" "padding_distinct K" "wf_bft_block b"
  shows "bft_chain K (bft_blocks i') (fat_pointer_to_tip i') \<and> bft_blocks i' = bft_blocks i @ [b]"
proof -
  note D = new_decided_Some[OF assms(1)]
  then have "bft_blocks i' = bft_blocks i @ [b] \<and> unat (bft_height b) = Suc (length (bft_blocks i)) \<and> headers b \<noteq> []"
    using insert_bft_block_Some[OF _ assms(2) _ assms(3)] by blast
  with D bft_chain_snoc[OF assms(2)] assms(4) show ?thesis by simp
qed

section \<open>Histories of the service\<close>

text \<open>What can happen to the service: calls of the BFT engine, a force-fed block, a request, an iteration
  of the main loop and a report of flags. The state of the rest of the node is arbitrary at each event.\<close>

datatype tfl_event =
    EvDecided bytes FatPointerToBftBlock2
  | EvForceFeed BftBlock FatPointerToBftBlock2
  | EvRequest TFLServiceRequest
  | EvRosterCmd "string option"
  | EvMainLoop
  | EvFlags u64 u64

definition tfl_handle ::
  "crypto \<Rightarrow> (bytes \<Rightarrow> 'k :: linorder) \<Rightarrow> 'w outside \<Rightarrow> 'w state_procedure \<Rightarrow> tfl_event \<Rightarrow>
   TFLServiceInternal \<Rightarrow> 'w \<Rightarrow> (TFLServiceInternal \<times> 'w) option" where
  "tfl_handle K pub_key_id out call ev i w = (case ev of
       EvDecided payload fp \<Rightarrow> map_option snd (closure_push_decided_block K pub_key_id call payload fp i w)
     | EvForceFeed b fp \<Rightarrow> map_option snd (force_feed_pos K pub_key_id call b fp i w)
     | EvRequest req \<Rightarrow> map_option snd (tfl_service_incoming_request out call req i w)
     | EvRosterCmd str \<Rightarrow> Some (snd (closure_update_roster_cmd str i), w)
     | EvMainLoop \<Rightarrow> main_loop_step call i w
     | EvFlags msg_flags err_flags \<Rightarrow> Some (push_new_bft_msg_flags msg_flags err_flags i, w))"

inductive tfl_reachable ::
  "crypto \<Rightarrow> (bytes \<Rightarrow> 'k :: linorder) \<Rightarrow> 'w outside \<Rightarrow> 'w state_procedure \<Rightarrow>
   TFLServiceInternal \<Rightarrow> TFLServiceInternal \<Rightarrow> bool"
  for K pub_key_id out call i0 where
  start: "tfl_reachable K pub_key_id out call i0 i0"
| event: "tfl_reachable K pub_key_id out call i0 i \<Longrightarrow> (\<And>b fp. ev = EvForceFeed b fp \<Longrightarrow> wf_bft_block b) \<Longrightarrow>
    tfl_handle K pub_key_id out call ev i w = Some (i', w') \<Longrightarrow> tfl_reachable K pub_key_id out call i0 i'"

lemma request_keeps:
  "tfl_service_incoming_request out call req i w = Some (r, i', w') \<Longrightarrow>
    bft_blocks i' = bft_blocks i \<and> fat_pointer_to_tip i' = fat_pointer_to_tip i"
  by (cases req) (auto simp: tfl_service_incoming_request_def tfl_set_finality_by_hash_def
      split: option.splits if_splits elim!: bind_SomeE)

lemma other_events_keep:
  "bft_blocks (snd (closure_update_roster_cmd str i)) = bft_blocks i"
  "fat_pointer_to_tip (snd (closure_update_roster_cmd str i)) = fat_pointer_to_tip i"
  "bft_blocks (push_new_bft_msg_flags m e i) = bft_blocks i"
  "fat_pointer_to_tip (push_new_bft_msg_flags m e i) = fat_pointer_to_tip i"
  "main_loop_step call i w = Some (i', w') \<Longrightarrow> bft_blocks i' = bft_blocks i \<and> fat_pointer_to_tip i' = fat_pointer_to_tip i"
  by (auto simp: closure_update_roster_cmd_def push_new_bft_msg_flags_def main_loop_step_def
      split: option.splits sum.splits StateResponse.splits if_splits elim!: bind_SomeE)

lemma tfl_handle_chain:
  assumes step: "tfl_handle K pub_key_id out call ev i w = Some (i', w')"
    and chain: "bft_chain K (bft_blocks i) (fat_pointer_to_tip i)" and K: "padding_distinct K"
    and wf: "\<And>b fp. ev = EvForceFeed b fp \<Longrightarrow> wf_bft_block b"
  shows "bft_chain K (bft_blocks i') (fat_pointer_to_tip i') \<and> (\<exists>bs. bft_blocks i' = bft_blocks i @ bs)"
proof (cases ev)
  case (EvDecided payload fp)
  with step obtain r b rest where b: "BftBlock_zcash_deserialize payload = Inr (b, rest)"
      and nd: "new_decided_bft_block_from_malachite K pub_key_id call b fp i w = Some (r, i', w')"
    by (auto simp: tfl_handle_def closure_push_decided_block_def split: sum.splits)
  from new_decided_chain[OF nd chain K] bft_block_codec.ser_de[OF b] show ?thesis by auto
next
  case (EvForceFeed b fp)
  show ?thesis
  proof (cases "i' = i")
    case False
    with step EvForceFeed obtain r v where nd: "new_decided_bft_block_from_malachite K pub_key_id call b fp i v = Some (r, i', w')"
      by (auto simp: tfl_handle_def force_feed_pos_def split: if_splits elim!: bind_SomeE)
    from new_decided_chain[OF nd chain K wf[OF EvForceFeed]] show ?thesis by auto
  qed (use chain in simp)
next
  case (EvRequest req)
  with step obtain r where "tfl_service_incoming_request out call req i w = Some (r, i', w')"
    by (auto simp: tfl_handle_def)
  from request_keeps[OF this] show ?thesis using chain by simp
next
  case EvMainLoop
  then have "main_loop_step call i w = Some (i', w')" using step by (simp add: tfl_handle_def)
  from other_events_keep(5)[OF this] show ?thesis using chain by simp
qed (use step chain other_events_keep(1-4) in \<open>auto simp: tfl_handle_def\<close>)

lemma tfl_reachable_chain:
  assumes "tfl_reachable K pub_key_id out call i0 i" and K: "padding_distinct K"
    and "bft_chain K (bft_blocks i0) (fat_pointer_to_tip i0)"
  shows "bft_chain K (bft_blocks i) (fat_pointer_to_tip i) \<and> (\<exists>bs. bft_blocks i = bft_blocks i0 @ bs)"
  using assms(1)
proof induction
  case (event i ev w i' w')
  then show ?case using tfl_handle_chain[OF event.hyps(3) _ K event.hyps(2)] by fastforce
qed (use assms(3) in simp)

lemma spawned_chain: "bft_chain K (bft_blocks (spawn_new_tfl_service regtest keys config))
    (fat_pointer_to_tip (spawn_new_tfl_service regtest keys config))"
  by (simp add: bft_chain_def spawn_new_tfl_service_def points_at_block_hash_def FatPointer2_null_def slice_def)

lemma historical_block:
  assumes chain: "bft_chain K (bft_blocks i) (fat_pointer_to_tip i)"
  shows "get_historical_bft_block_at_height i h \<noteq> None"
    and "(get_historical_bft_block_at_height i h = Some None) = (h = 0 \<or> length (bft_blocks i) < unat h)"
    and "get_historical_bft_block_at_height i h = Some (Some (b, fp)) \<Longrightarrow>
      unat (bft_height b) = unat h \<and> headers b \<noteq> [] \<and> blake3_hash (bft_hashers K) b = Some (points_at_block_hash fp) \<and>
      (unat h = length (bft_blocks i) \<longrightarrow> validate_signatures (batch_verify K) fp)"
proof -
  let ?bs = "bft_blocks i"
  have pos: "(0 :: nat) < unat h" if "h \<noteq> 0" using that by (simp add: unat_gt_0)
  then show "get_historical_bft_block_at_height i h \<noteq> None"
    by (auto simp: get_historical_bft_block_at_height_def fat_pointer_to_block_at_height_def)
  show "(get_historical_bft_block_at_height i h = Some None) = (h = 0 \<or> length ?bs < unat h)"
  proof (cases "h = 0")
    case False
    then have "length ?bs \<le> unat h - 1 \<longleftrightarrow> length ?bs < unat h" using pos by linarith
    then show ?thesis using False by (auto simp: get_historical_bft_block_at_height_def fat_pointer_to_block_at_height_def)
  qed (simp add: get_historical_bft_block_at_height_def)
  assume get: "get_historical_bft_block_at_height i h = Some (Some (b, fp))"
  define j where "j = unat h - 1"
  have h: "h \<noteq> 0" "j < length ?bs" using get by (auto simp: get_historical_bft_block_at_height_def j_def split: if_splits)
  then have j: "unat h = Suc j" using pos by (simp add: j_def)
  have b: "b = ?bs ! j" "fp = (if Suc j < length ?bs then previous_block_fat_ptr (?bs ! Suc j) else fat_pointer_to_tip i)"
    using get h j by (auto simp: get_historical_bft_block_at_height_def fat_pointer_to_block_at_height_def split: if_splits)
  have "length ?bs < 2 ^ 32" using chain by (simp add: bft_chain_def)
  then have "unat (of_nat (Suc j) :: u32) = Suc j" using h(2) by (simp add: unat_of_nat del: of_nat_Suc)
  with chain h(2) show "unat (bft_height b) = unat h \<and> headers b \<noteq> [] \<and>
      blake3_hash (bft_hashers K) b = Some (points_at_block_hash fp) \<and>
      (unat h = length ?bs \<longrightarrow> validate_signatures (batch_verify K) fp)"
    unfolding b j bft_chain_def by (auto simp del: of_nat_Suc split: if_splits)
qed


section \<open>Finality queries and proposals\<close>

text \<open>The position of the final block: the latest one decided or set, else the reorganization limit.\<close>

definition final_position :: "TFLServiceInternal \<Rightarrow> pow_chain \<Rightarrow> nat" where
  "final_position i bc = (case latest_final_block i of
     Some (h, _) \<Rightarrow> height_nat h | None \<Rightarrow> length bc - 1 - MAX_BLOCK_REORG_HEIGHT)"

lemma ht_height_nat: "ht (height_nat h) = h"
  by (cases h) simp

context finality_backend
begin

lemma final_block_view:
  assumes view: "view w bc" and bc: "bc \<noteq> []" and fin: "on_chain bc (latest_final_block i)"
  shows "final_position i bc < length bc"
    and "tfl_final_block_height_hash call i w =
      Some (Some (ht (final_position i bc), fst (bc ! final_position i bc)), w)"
proof -
  let ?n = "length bc - 1 - MAX_BLOCK_REORG_HEIGHT"
  have n: "?n < length bc" using bc by (cases bc) auto
  show "final_position i bc < length bc" using fin n by (auto simp: final_position_def on_chain_def split: option.splits)
  have last: "last (map (\<lambda>n. fst (bc ! n)) (locator_nats (length bc - 1))) = fst (bc ! ?n)"
    "locator_nats (length bc - 1) \<noteq> []"
    using locator_nats_ends(2)[of "length bc - 1"] by (simp_all add: last_map locator_nats_def)
  have "call ReqBlockLocator w = Some (Inr (RespBlockLocator (map (\<lambda>n. fst (bc ! n)) (locator_nats (length bc - 1)))), w)"
    by (rule read_eq[OF locator_law[OF view bc]]) simp
  moreover have "position bc (fst (bc ! ?n)) = Some ?n" using n view_list[OF view] by (simp add: position_Some_iff)
  ultimately have "tfl_reorg_final_block_height_hash call w = Some (Some (ht ?n, fst (bc ! ?n)), w)"
    using last height_from_hash_known[OF view] by (simp add: tfl_reorg_final_block_height_hash_def)
  then show "tfl_final_block_height_hash call i w =
      Some (Some (ht (final_position i bc), fst (bc ! final_position i bc)), w)"
    using fin by (auto simp: tfl_final_block_height_hash_def final_position_def on_chain_def ht_height_nat split: option.splits)
qed

lemma block_finality_view:
  assumes view: "view w bc" and bc: "bc \<noteq> []" and fin: "on_chain bc (latest_final_block i)"
  shows "tfl_block_finality_from_height_hash call i h x w = Some (Inr (Some
    (if final_position i bc < height_nat h then NotYetFinalized
     else if x = fst (bc ! height_nat h) then Finalized else CantBeFinalized)), w)"
proof -
  let ?f = "final_position i bc"
  note F = final_block_view[OF assms]
  have f: "height_nat (ht ?f) = ?f" using F(1) view_list[OF view] by (intro height_nat_ht) simp
  then have cmp: "h > ht ?f \<longleftrightarrow> ?f < height_nat h" by (simp add: Height_less_iff del: Height.sel)
  have "block_finality call h x (ht ?f, fst (bc ! ?f)) w = Some (Inr (Some
      (if x = fst (bc ! height_nat h) then Finalized else CantBeFinalized)), w)" if le: "\<not> ?f < height_nat h"
  proof (cases "h = ht ?f")
    case True
    then show ?thesis using f cmp le by (simp add: block_finality_def del: Height.sel)
  next
    case False
    have "call (ReqBlockHeader (OfHeight (ht (height_nat h)))) w = Some (Inr (RespBlockHeader
        (block_header_field (snd (bc ! height_nat h))) (fst (bc ! height_nat h)) (ht (height_nat h))
        (if Suc (height_nat h) < length bc then Some (fst (bc ! Suc (height_nat h))) else None)), w)"
      using le F(1) by (intro read_eq[OF header_height_law[OF view]]) auto
    then show ?thesis using False cmp le unfolding ht_height_nat by (simp add: block_finality_def)
  qed
  then show ?thesis using F(2) cmp by (auto simp: tfl_block_finality_from_height_hash_def block_finality_def)
qed

lemma tip_view:
  assumes "view w bc" "length bc = Suc t"
  shows "call ReqTip w = Some (Inr (RespTip (Some (ht t, fst (bc ! t)))), w)"
proof -
  have "bc \<noteq> []" using assms(2) by auto
  then show ?thesis using tip_law[OF assms(1)] assms(2) by (intro read_eq) (simp_all add: last_conv_nth)
qed

lemma propose_view:
  assumes view: "view w bc" and len: "length bc = Suc t"
    and hashable: "bft_blocks i \<noteq> [] \<longrightarrow> blake3_hash (bft_hashers K) (last (bft_blocks i)) \<noteq> None"
  shows "propose_new_bft_block K call i w = Some (
    if 3 \<le> t \<and> (\<forall>h x. latest_final_block i = Some (h, x) \<longrightarrow> height_nat h < t - 3)
    then Some \<lparr>bft_version = 1, bft_height = of_nat (length (bft_blocks i)) + 1, previous_block_fat_ptr = fat_pointer_to_tip i,
      finalization_candidate_height = 0, headers = map (\<lambda>j. block_header_field (snd (bc ! j))) [t - 2, t - 1, t]\<rparr>
    else None, w)"
proof -
  have small: "Suc t < 2 ^ 31" using view_list[OF view] len by simp
  have nat: "height_nat (ht t) = t" "height_nat (ht (t - 3)) = t - 3" by (rule height_nat_ht; use small in simp)+
  have sub: "height_sub (ht t) 3 = (if 3 \<le> t then Some (ht (t - 3)) else None)"
    using small by (subst height_sub_eq) (simp_all only: nat(1), simp_all add: i64_defs Let_def of_nat_diff)
  have cand: "finality_candidate K i (ht t) =
      Some (if 3 \<le> t \<and> (\<forall>h x. latest_final_block i = Some (h, x) \<longrightarrow> height_nat h < t - 3) then Some (ht (t - 3)) else None)"
    using hashable nat(2)
    by (auto simp: finality_candidate_def PROTOTYPE_PARAMETERS_def Height_less_iff sub split: option.splits simp del: Height.sel)
  show ?thesis
  proof (cases "3 \<le> t")
    case True
    then have "t - 3 < length bc" using len by simp
    from read_eq[OF header_height_law[OF view this]]
    have hd: "call (ReqBlockHeader (OfHeight (ht (t - 3)))) w = Some (Inr (RespBlockHeader
        (block_header_field (snd (bc ! (t - 3)))) (fst (bc ! (t - 3))) (ht (t - 3))
        (if Suc (t - 3) < length bc then Some (fst (bc ! Suc (t - 3))) else None)), w)" by simp
    have "position bc (fst (bc ! (t - 3))) = Some (t - 3)" using True len view_list[OF view] by (simp add: position_Some_iff)
    then have "segment bc [fst (bc ! (t - 3))] None 160 = map (nth bc) [Suc (t - 3)..<Suc t]"
      using len True by (simp add: segment_def)
    moreover have "[Suc (t - 3)..<Suc t] = [t - 2, t - 1, t]"
      using True by (auto simp: upt_rec numeral_eq_Suc Suc_diff_Suc)
    ultimately have "call (ReqFindBlockHeaders [fst (bc ! (t - 3))] None) w = Some (Inr (RespBlockHeaders
        (map (\<lambda>j. block_header_field (snd (bc ! j))) [t - 2, t - 1, t])), w)"
      using find_headers_law[OF view, of "[fst (bc ! (t - 3))]" None] by (intro read_eq) auto
    then show ?thesis using hd True
      unfolding propose_new_bft_block_def tip_view[OF view len]
      by (auto simp: cand BftBlock_try_from_def PROTOTYPE_PARAMETERS_def Let_def)
  qed (simp add: propose_new_bft_block_def tip_view[OF view len] cand)
qed

end


section \<open>Properties\<close>

text \<open>A decided block that extends the chain of decided blocks, in the terms of the caller.\<close>

definition extends_bft_chain :: "crypto \<Rightarrow> TFLServiceInternal \<Rightarrow> BftBlock \<Rightarrow> FatPointerToBftBlock2 \<Rightarrow> bool" where
  "extends_bft_chain K i b fp \<longleftrightarrow> bft_chain K (bft_blocks i) (fat_pointer_to_tip i) \<and>
     bft_height b = of_nat (Suc (length (bft_blocks i))) \<and> Suc (length (bft_blocks i)) < 2 ^ 32 \<and>
     points_at_block_hash (previous_block_fat_ptr b) = points_at_block_hash (fat_pointer_to_tip i) \<and>
     (bft_blocks i = [] \<or> points_at_block_hash (fat_pointer_to_tip i) \<noteq> replicate 32 0) \<and>
     blake3_hash (bft_hashers K) b = Some (points_at_block_hash fp) \<and> validate_signatures (batch_verify K) fp"

lemma extends_insert:
  assumes "extends_bft_chain K i b fp" "headers b \<noteq> []"
  shows "insert_bft_block K b (bft_blocks i) = Some (bft_blocks i @ [b])"
proof (rule insert_bft_block_next)
  let ?n = "length (bft_blocks i) - 1"
  have chain: "bft_chain K (bft_blocks i) (fat_pointer_to_tip i)" using assms(1) by (simp add: extends_bft_chain_def)
  have "blake3_hash (bft_hashers K) (last (bft_blocks i)) = Some (points_at_block_hash (fat_pointer_to_tip i))"
    if ne: "bft_blocks i \<noteq> []"
  proof -
    have n: "?n < length (bft_blocks i)" "\<not> Suc ?n < length (bft_blocks i)" using ne by auto
    show ?thesis using chain[unfolded bft_chain_def, THEN conjunct2, THEN conjunct2, rule_format, OF n(1)]
      unfolding if_not_P[OF n(2)] last_conv_nth[OF ne] by blast
  qed
  then show "bft_blocks i \<noteq> [] \<longrightarrow>
      blake3_hash (bft_hashers K) (last (bft_blocks i)) = Some (points_at_block_hash (previous_block_fat_ptr b)) \<and>
      points_at_block_hash (previous_block_fat_ptr b) \<noteq> replicate 32 0"
    using assms(1) by (auto simp: extends_bft_chain_def)
qed (use assms in \<open>simp_all add: extends_bft_chain_def\<close>)

lemma decided_next:
  assumes view: "service_view k s bc" and linked: "linked bc" and ext: "extends_bft_chain K i b fp"
    and x: "first_header_hash K b = Some x" "position bc x = Some n" and cur: "on_chain bc (current_bc_final i)"
    and paid: "settle (map (\<lambda>j. snd (bc ! j)) (newly_final (current_bc_final i) n))
      (validators_at_current_height i, validators_keys_to_names i) = Some (r, names)"
  shows "\<exists>s'. new_decided_bft_block_from_malachite K pub_key_id (state_call k find_tx) b fp i s =
      Some (tenderlink_roster_from_internal pub_key_id r, i\<lparr>bft_blocks := bft_blocks i @ [b], fat_pointer_to_tip := fp,
        latest_final_block := Some (ht n, x), current_bc_final := Some (ht n, x),
        validators_at_current_height := r, validators_keys_to_names := names,
        final_change_tx := final_change_tx i @ map (\<lambda>j. (ht j, fst (bc ! j))) (newly_final (current_bc_final i) n)\<rparr>, s') \<and>
      service_view k s' bc \<and> (\<exists>t. db_tip (service_db s') = Some t \<and> ht n \<le> fst t)"
proof -
  have hs: "headers b \<noteq> []" using x(1) by (auto simp: first_header_hash_def)
  show ?thesis
    by (rule backend.decided_block_view[OF view linked _ _ _ x extends_insert[OF ext hs] cur paid])
      (use ext in \<open>simp_all add: extends_bft_chain_def\<close>)
qed

text \<open>C1: A decided BFT block whose first header is a block of the best chain is processed without a panic,
  while the stake stays below the range of the voting power: the proof-of-work block is finalized in the state service
  and becomes the latest final block, the BFT block and its certificate become the tip of the BFT chain, and every
  block above the previous final one is paid for, has its commands applied and is announced exactly once, in order of
  height. Readers of the state see the same best chain.\<close>

theorem decided_block_finalizes:
  assumes "service_view k s bc" and "linked bc" and "extends_bft_chain K i b fp"
    and "first_header_hash K b = Some x" and "position bc x = Some n" and "on_chain bc (current_bc_final i)"
    and "roster_ok (validators_at_current_height i)"
    and "total_stake (validators_at_current_height i) +
      sum_list (map (\<lambda>j. block_issue (snd (bc ! j))) (newly_final (current_bc_final i) n)) < 2 ^ 64"
  shows "\<exists>r names s'. settle (map (\<lambda>j. snd (bc ! j)) (newly_final (current_bc_final i) n))
      (validators_at_current_height i, validators_keys_to_names i) = Some (r, names) \<and> roster_ok r \<and>
    new_decided_bft_block_from_malachite K pub_key_id (state_call k find_tx) b fp i s =
      Some (tenderlink_roster_from_internal pub_key_id r, i\<lparr>bft_blocks := bft_blocks i @ [b], fat_pointer_to_tip := fp,
        latest_final_block := Some (ht n, x), current_bc_final := Some (ht n, x),
        validators_at_current_height := r, validators_keys_to_names := names,
        final_change_tx := final_change_tx i @ map (\<lambda>j. (ht j, fst (bc ! j))) (newly_final (current_bc_final i) n)\<rparr>, s') \<and>
    service_view k s' bc \<and> (\<exists>t. db_tip (service_db s') = Some t \<and> ht n \<le> fst t)"
proof -
  obtain r names where r: "settle (map (\<lambda>j. snd (bc ! j)) (newly_final (current_bc_final i) n))
      (validators_at_current_height i, validators_keys_to_names i) = Some (r, names)" "roster_ok r"
    using settlement.run_ok[of "(validators_at_current_height i, validators_keys_to_names i)"
        "map (\<lambda>j. snd (bc ! j)) (newly_final (current_bc_final i) n)"] assms(7,8)
    by (auto simp: settle_run comp_def)
  from decided_next[OF assms(1-6) r(1), of pub_key_id find_tx] r show ?thesis
    by (elim exE conjE) (intro exI conjI; assumption)
qed

text \<open>C24: Finality can move back: a decided BFT block whose first header is below the current final block is
  accepted, the latest final block becomes the lower one, and nothing is paid. The blocks in between
  count as newly final again for the next decided block.\<close>

theorem decided_block_moves_finality_back:
  assumes "service_view k s bc" and "linked bc" and "extends_bft_chain K i b fp"
    and "first_header_hash K b = Some x" and "position bc x = Some n" and "on_chain bc (current_bc_final i)"
    and "current_bc_final i = Some (h, y)" and "n < height_nat h"
  shows "(\<exists>s'. new_decided_bft_block_from_malachite K pub_key_id (state_call k find_tx) b fp i s =
      Some (tenderlink_roster_from_internal pub_key_id (validators_at_current_height i),
        i\<lparr>bft_blocks := bft_blocks i @ [b], fat_pointer_to_tip := fp, latest_final_block := Some (ht n, x),
          current_bc_final := Some (ht n, x)\<rparr>, s') \<and> service_view k s' bc) \<and>
    height_nat h \<in> set (newly_final (Some (ht n, x)) (height_nat h))"
proof
  have none: "newly_final (current_bc_final i) n = []" using assms(7,8) by (simp add: newly_final_def)
  from decided_next[OF assms(1-6), of "validators_at_current_height i" "validators_keys_to_names i" pub_key_id find_tx]
  show "\<exists>s'. new_decided_bft_block_from_malachite K pub_key_id (state_call k find_tx) b fp i s =
      Some (tenderlink_roster_from_internal pub_key_id (validators_at_current_height i),
        i\<lparr>bft_blocks := bft_blocks i @ [b], fat_pointer_to_tip := fp, latest_final_block := Some (ht n, x),
          current_bc_final := Some (ht n, x)\<rparr>, s') \<and> service_view k s' bc"
    by (auto simp: none)
  have "n < length bc" using assms(5) position_Some_iff[of bc x n] backend.view_list[OF assms(1)] by auto
  then have "height_nat (ht n) = n" using backend.view_list[OF assms(1)] by (intro height_nat_ht) simp
  then show "height_nat h \<in> set (newly_final (Some (ht n, x)) (height_nat h))"
    using assms(8) by (simp add: newly_final_def del: Height.sel)
qed


text \<open>A sample: hashes that tell padding blocks from others by their length, one finalizer, and a
  decided block that finalizes the first block above the finalized state of the sample service.\<close>

definition sample_crypto :: crypto where
  "sample_crypto = \<lparr>bft_hashers = \<lparr>TEST_MODE = True, blake3_new = (\<lambda>c. replicate 32 (if length c = 62 then 1 else 2)),
      blake3_new_keyed = (\<lambda>c. c)\<rparr>,
     header_sha256d = (\<lambda>c. replicate 32 10), batch_verify = (\<lambda>batch. True)\<rparr>"

definition sample_certificate :: FatPointerToBftBlock2 where
  "sample_certificate = \<lparr>vote_for_block2 = replicate 32 2 @ replicate 12 0, signatures2 = []\<rparr>"

definition sample_keys :: "(u64, u64) key_source" where
  "sample_keys = \<lparr>default_hash = (\<lambda>b. of_nat (length b)), seed_from_u64 = (\<lambda>x. x), private_key_new = (\<lambda>x. (x, x + 1)),
     public_key_of = (\<lambda>x. replicate 32 7)\<rparr>"

definition sample_internal :: TFLServiceInternal where
  "sample_internal = spawn_new_tfl_service True sample_keys Config_default"

lemma wf_bft_block_length:
  assumes "wf_bft_block b" "BftBlock_serialize b = Some c"
  shows "length c \<ge> 62" "headers b \<noteq> [] \<Longrightarrow> length c > 62"
proof -
  obtain hs where hs: "zcash_serialize_external_count Header_serialize (headers b) = Some hs"
    "c = u32_le (bft_version b) @ u32_le (bft_height b) @ FatPointer2_serialize (previous_block_fat_ptr b) @
      u32_le (finalization_candidate_height b) @ u32_le (of_nat (length (headers b))) @ hs"
    using assms(2) by (auto simp: BftBlock_serialize_Some)
  have len: "length c \<ge> 62 + length hs"
    using assms(1) by (simp add: hs(2) wf_bft_block_def wf_fat_pointer2_def FatPointer2_serialize_def)
  then show "length c \<ge> 62" by simp
  assume "headers b \<noteq> []"
  then obtain h hs' where h: "headers b = h # hs'" by (cases "headers b") auto
  then obtain d where "Header_serialize h = Some d" "length d \<le> length hs" using hs(1) by (auto elim!: bind_SomeE)
  moreover have "4 \<le> length d" using calculation(1) by (auto simp: Header_serialize_Some)
  ultimately show "length c > 62" using len by simp
qed

lemma placeholder_hash: "blake3_hash (bft_hashers sample_crypto) (placeholder_block n) = Some (replicate 32 1)"
  by (simp add: blake3_hash_def sample_crypto_def placeholder_block_def BftBlock_serialize_def BftBlock_zcash_serialize_def
      BftBlock_write_def FatPointer2_serialize_def)

lemma sample_hash: "wf_bft_block b \<Longrightarrow> headers b \<noteq> [] \<Longrightarrow> blake3_hash (bft_hashers sample_crypto) b = Some (replicate 32 2)"
  using bft_block_codec.ser_total[of b] wf_bft_block_length(2)[of b]
  by (fastforce simp: blake3_hash_def sample_crypto_def)

lemma sample_padding: "padding_distinct sample_crypto"
  by (simp add: padding_distinct_def placeholder_hash sample_hash)

lemma sample_linked: "linked sample_bc"
  unfolding linked_def
proof (intro allI impI)
  fix n
  assume "n < length sample_bc"
  then consider "n = 0" | "n = 1" | "n = 2" | "n = 3" | "n = 4" by (fastforce simp: sample_bc_def sample_fc_def)
  then show "position sample_bc (previous_block_hash (block_header_field (snd (sample_bc ! n)))) =
      (if n = 0 then None else Some (n - 1))"
    by cases (simp_all add: sample_bc_def sample_fc_def sample_block_def position_def)
qed

lemma sample_extends:
  "extends_bft_chain sample_crypto sample_internal sample_bft_block sample_certificate"
  "first_header_hash sample_crypto sample_bft_block = Some (replicate 32 10)"
proof -
  have "headers sample_bft_block \<noteq> []" by (simp add: sample_bft_block_def)
  from sample_hash[OF wf_sample_bft_block this] spawned_chain[of sample_crypto True sample_keys Config_default]
  show "extends_bft_chain sample_crypto sample_internal sample_bft_block sample_certificate"
    by (simp add: extends_bft_chain_def sample_internal_def)
      (simp add: spawn_new_tfl_service_def sample_bft_block_def sample_certificate_def points_at_block_hash_def
        slice_def validate_signatures_def sample_crypto_def)
  show "first_header_hash sample_crypto sample_bft_block = Some (replicate 32 10)"
    using Header_serialize_total[OF wf_sample_header(2)] by (auto simp: first_header_hash_def sample_bft_block_def Header_hash_def sample_crypto_def)
qed


theorem decided_block_finalizes_witness:
  "\<exists>r i' s'. new_decided_bft_block_from_malachite sample_crypto length (state_call empty_checks (\<lambda>_ _. None))
      sample_bft_block sample_certificate sample_internal (sample_service []) = Some (r, i', s') \<and>
    latest_final_block i' = Some (ht 3, replicate 32 10) \<and> final_change_tx i' = [(ht 3, replicate 32 10)]"
proof -
  have new: "newly_final (current_bc_final sample_internal) 3 = [3]" "on_chain sample_bc (current_bc_final sample_internal)"
    by (simp_all add: sample_internal_def spawn_new_tfl_service_def newly_final_def on_chain_def)
  have "snd (sample_bc ! 3) = snd (snd (sample_block 3 2 10))" "fst (sample_bc ! 3) = replicate 32 10"
    by (simp_all add: sample_bc_def sample_fc_def sample_block_def)
  moreover have "block_issue (snd (snd (sample_block 3 2 10))) = 6000" by (simp add: block_issue_def sample_block_def)
  moreover have "validators_at_current_height sample_internal = [MalValidator_new (replicate 32 7) 1]"
    "final_change_tx sample_internal = []"
    by (simp_all add: sample_internal_def spawn_new_tfl_service_def initial_roster_def Config_default_def name_key_def
      rng_private_public_key_from_address_def sample_keys_def)
  ultimately show ?thesis
    using decided_block_finalizes[OF sample_service_view sample_linked sample_extends sample_bc_position new(2),
        of length "\<lambda>_ _. None" "[]"] new(1)
    by (auto simp: roster_ok_def roster_keys_def total_stake_def MalValidator_new_def)
qed

definition sample_second_block :: BftBlock where
  "sample_second_block = sample_bft_block\<lparr>bft_height := 2, previous_block_fat_ptr := sample_certificate\<rparr>"

definition sample_ahead :: TFLServiceInternal where
  "sample_ahead = sample_internal\<lparr>bft_blocks := [sample_bft_block], fat_pointer_to_tip := sample_certificate,
     latest_final_block := Some (ht 4, replicate 32 12), current_bc_final := Some (ht 4, replicate 32 12)\<rparr>"

theorem decided_block_moves_finality_back_witness:
  "\<exists>r i' s'. new_decided_bft_block_from_malachite sample_crypto length (state_call empty_checks (\<lambda>_ _. None))
      sample_second_block sample_certificate sample_ahead (sample_service []) = Some (r, i', s') \<and>
    latest_final_block sample_ahead = Some (ht 4, replicate 32 12) \<and> latest_final_block i' = Some (ht 3, replicate 32 10)"
proof -
  have wf: "wf_bft_block sample_second_block" "headers sample_second_block \<noteq> []"
    using wf_sample_bft_block by (simp_all add: wf_bft_block_def sample_second_block_def wf_fat_pointer2_def
        sample_certificate_def sample_bft_block_def)
  have hash: "blake3_hash (bft_hashers sample_crypto) sample_bft_block = Some (points_at_block_hash sample_certificate)"
    "validate_signatures (batch_verify sample_crypto) sample_certificate"
    "points_at_block_hash sample_certificate = replicate 32 2"
    using sample_extends(1) by (simp_all add: extends_bft_chain_def points_at_block_hash_def sample_certificate_def slice_def)
  have ext: "extends_bft_chain sample_crypto sample_ahead sample_second_block sample_certificate"
    using hash sample_hash[OF wf] wf_sample_bft_block
    by (simp add: extends_bft_chain_def bft_chain_def sample_ahead_def sample_second_block_def sample_bft_block_def)
  have x: "first_header_hash sample_crypto sample_second_block = Some (replicate 32 10)"
    using sample_extends(2) by (simp add: first_header_hash_def sample_second_block_def)
  have "height_nat (ht 4) = 4" by (rule height_nat_ht) simp
  then have "on_chain sample_bc (current_bc_final sample_ahead)" "3 < height_nat (ht 4)"
    by (simp_all add: on_chain_def sample_ahead_def sample_bc_def sample_fc_def sample_block_def)
  from decided_block_moves_finality_back[OF sample_service_view sample_linked ext x sample_bc_position this(1) _ this(2),
      of "replicate 32 12" length "\<lambda>_ _. None" "[]"]
  show ?thesis by (auto simp: sample_ahead_def)
qed

text \<open>C2: From start-up on, whatever the engine, the node and the rest of the world do, every decided block keeps
  its place: the list of decided blocks only grows, the service never fails to answer for a past height, and the
  block it answers has that height and comes with a pointer to its hash; the pointer to the last block carries
  valid signatures. No collision of a block with the padding blocks is assumed.\<close>

theorem decided_history_certified:
  assumes "padding_distinct K" and "tfl_reachable K pub_key_id out call (spawn_new_tfl_service regtest keys config) i"
  shows "get_historical_bft_block_at_height i h \<noteq> None \<and>
    (get_historical_bft_block_at_height i h = Some None) = (h = 0 \<or> length (bft_blocks i) < unat h) \<and>
    (\<forall>b fp. get_historical_bft_block_at_height i h = Some (Some (b, fp)) \<longrightarrow>
      unat (bft_height b) = unat h \<and> headers b \<noteq> [] \<and> blake3_hash (bft_hashers K) b = Some (points_at_block_hash fp) \<and>
      (unat h = length (bft_blocks i) \<longrightarrow> validate_signatures (batch_verify K) fp)) \<and>
    (\<forall>i'. tfl_reachable K pub_key_id out call i i' \<longrightarrow> (\<exists>bs. bft_blocks i' = bft_blocks i @ bs))"
proof -
  have chain: "bft_chain K (bft_blocks i) (fat_pointer_to_tip i)"
    using tfl_reachable_chain[OF assms(2,1) spawned_chain] by simp
  have "\<exists>bs. bft_blocks i' = bft_blocks i @ bs" if "tfl_reachable K pub_key_id out call i i'" for i'
    using tfl_reachable_chain[OF that assms(1) chain] by simp
  then show ?thesis using historical_block[OF chain, of h] by simp
qed

lemma sample_reachable:
  obtains i where "tfl_reachable sample_crypto length \<lparr>parse_from_cmd = (\<lambda>_. Inl []), mempool = (\<lambda>_ w. Some (None, w))\<rparr>
      (state_call empty_checks (\<lambda>_ _. None) :: (nat, nat) StateService state_procedure) sample_internal i"
    "bft_blocks i = [sample_bft_block]" "fat_pointer_to_tip i = sample_certificate"
proof -
  let ?out = "\<lparr>parse_from_cmd = (\<lambda>_. Inl []), mempool = (\<lambda>_ w. Some (None, w))\<rparr> :: (nat, nat) StateService outside"
  let ?call = "state_call empty_checks (\<lambda>_ _. None) :: (nat, nat) StateService state_procedure"
  have new: "newly_final (current_bc_final sample_internal) 3 = [3]" "on_chain sample_bc (current_bc_final sample_internal)"
    "bft_blocks sample_internal = []" "roster_ok (validators_at_current_height sample_internal)"
    "total_stake (validators_at_current_height sample_internal) + block_issue (snd (sample_bc ! 3)) < 2 ^ 64"
    by (simp_all add: sample_internal_def spawn_new_tfl_service_def newly_final_def on_chain_def initial_roster_def
        Config_default_def name_key_def rng_private_public_key_from_address_def sample_keys_def roster_ok_def roster_keys_def total_stake_def MalValidator_new_def block_issue_def
        sample_bc_def sample_fc_def sample_block_def)
  then obtain r names where paid: "settle (map (\<lambda>j. snd (sample_bc ! j)) (newly_final (current_bc_final sample_internal) 3))
      (validators_at_current_height sample_internal, validators_keys_to_names sample_internal) = Some (r, names)"
    using settlement.run_ok[of "(validators_at_current_height sample_internal, validators_keys_to_names sample_internal)"
        "[snd (sample_bc ! 3)]"] by (auto simp: settle_run)
  obtain i r' s' where nd: "new_decided_bft_block_from_malachite sample_crypto length ?call sample_bft_block sample_certificate
      sample_internal (sample_service []) = Some (r', i, s')" "bft_blocks i = [sample_bft_block]" "fat_pointer_to_tip i = sample_certificate"
    using decided_next[OF sample_service_view sample_linked sample_extends sample_bc_position new(2) paid,
        of length "\<lambda>_ _. None" "[]"] new(3) by auto
  obtain c where "BftBlock_zcash_deserialize (c @ []) = Inr (sample_bft_block, [])"
    using bft_block_codec.ser_total[OF wf_sample_bft_block] bft_block_codec.de_ser[OF wf_sample_bft_block] by blast
  then have "tfl_handle sample_crypto length ?out ?call (EvDecided (c @ []) sample_certificate) sample_internal (sample_service []) = Some (i, s')"
    using nd(1) by (simp add: tfl_handle_def closure_push_decided_block_def)
  from tfl_reachable.event[OF tfl_reachable.start _ this]
  have reach: "tfl_reachable sample_crypto length ?out ?call sample_internal i" by simp
  from that[OF reach nd(2,3)] show thesis .
qed

theorem decided_history_certified_witness:
  "\<exists>i. tfl_reachable sample_crypto length \<lparr>parse_from_cmd = (\<lambda>_. Inl []), mempool = (\<lambda>_ w. Some (None, w))\<rparr>
      (state_call empty_checks (\<lambda>_ _. None) :: (nat, nat) StateService state_procedure) sample_internal i \<and> bft_blocks i = [sample_bft_block] \<and>
    (\<exists>fp. get_historical_bft_block_at_height i 1 = Some (Some (sample_bft_block, fp)) \<and>
      blake3_hash (bft_hashers sample_crypto) sample_bft_block = Some (points_at_block_hash fp))"
proof -
  obtain i where reach: "tfl_reachable sample_crypto length \<lparr>parse_from_cmd = (\<lambda>_. Inl []), mempool = (\<lambda>_ w. Some (None, w))\<rparr>
      (state_call empty_checks (\<lambda>_ _. None) :: (nat, nat) StateService state_procedure) sample_internal i"
    and i: "bft_blocks i = [sample_bft_block]" "fat_pointer_to_tip i = sample_certificate" by (rule sample_reachable)
  have get: "get_historical_bft_block_at_height i 1 = Some (Some (sample_bft_block, sample_certificate))"
    using i by (simp add: get_historical_bft_block_at_height_def fat_pointer_to_block_at_height_def)
  with decided_history_certified[OF sample_padding reach[unfolded sample_internal_def], of 1] reach i(1)
  show ?thesis by auto
qed

text \<open>C3: A certificate stands for a whole history. Take two services with the same cryptography in any reachable
  states, and suppose that no two of their blocks collide, and none with a padding block. If the second has decided a block and
  its tip points at the hash that the first gives for some height, then the decided blocks of the second are exactly those of the first up to that height.
  In particular equal tips mean equal histories.\<close>

theorem tip_commits_to_history:
  assumes "padding_distinct K"
    and "tfl_reachable K pub_key_id out call (spawn_new_tfl_service regtest keys config) i"
    and "tfl_reachable K pub_key_id' out' call' (spawn_new_tfl_service regtest' keys' config') j"
    and "collision_free (bft_hashers K) (set (bft_blocks i) \<union> set (bft_blocks j))" and "bft_blocks j \<noteq> []"
    and "fat_pointer_to_block_at_height (bft_blocks i) (fat_pointer_to_tip i) h = Some fp"
    and "points_at_block_hash (fat_pointer_to_tip j) = points_at_block_hash fp"
  shows "bft_blocks j = take (unat h) (bft_blocks i)"
proof -
  have chains: "bft_chain K (bft_blocks i) (fat_pointer_to_tip i)" "bft_chain K (bft_blocks j) (fat_pointer_to_tip j)"
    by (rule tfl_reachable_chain[OF assms(2,1) spawned_chain, THEN conjunct1]
        tfl_reachable_chain[OF assms(3,1) spawned_chain, THEN conjunct1])+
  have h: "h \<noteq> 0" "\<not> length (bft_blocks i) \<le> unat h - 1"
    and fp: "fp = (if unat h = length (bft_blocks i) then fat_pointer_to_tip i else previous_block_fat_ptr (bft_blocks i ! unat h))"
    using assms(6) by (simp_all add: fat_pointer_to_block_at_height_def split: if_splits)
  have pos: "0 < unat h" "unat h \<le> length (bft_blocks i)" using h by (simp_all add: unat_gt_0)
  have i: "hash_chain K (take (unat h) (bft_blocks i)) (points_at_block_hash fp)"
    unfolding fp by (rule bft_chain_prefix[OF chains(1) pos])
  have j: "hash_chain K (bft_blocks j) (points_at_block_hash fp)"
    using bft_chain_prefix[OF chains(2), of "length (bft_blocks j)"] assms(5,7) by simp
  have "set (take (unat h) (bft_blocks i)) \<subseteq> set (bft_blocks i) \<union> set (bft_blocks j)"
    using set_take_subset[of "unat h" "bft_blocks i"] by (rule subset_trans) (rule Un_upper1)
  moreover have "take (unat h) (bft_blocks i) \<noteq> []" using pos by (cases "bft_blocks i") simp_all
  ultimately show ?thesis by (rule hash_chain_unique[OF j i assms(4) Un_upper2 _ assms(5)])
qed

theorem tip_commits_to_history_witness:
  "\<exists>i :: TFLServiceInternal. bft_blocks i = [sample_bft_block] \<and>
    fat_pointer_to_block_at_height (bft_blocks i) (fat_pointer_to_tip i) 1 = Some sample_certificate \<and>
    bft_blocks i = take (unat (1 :: u64)) (bft_blocks i)"
proof -
  obtain i where reach: "tfl_reachable sample_crypto length \<lparr>parse_from_cmd = (\<lambda>_. Inl []), mempool = (\<lambda>_ w. Some (None, w))\<rparr>
      (state_call empty_checks (\<lambda>_ _. None) :: (nat, nat) StateService state_procedure) sample_internal i"
    and i: "bft_blocks i = [sample_bft_block]" "fat_pointer_to_tip i = sample_certificate" by (rule sample_reachable)
  note reach' = reach[unfolded sample_internal_def]
  have free: "collision_free (bft_hashers sample_crypto) (set (bft_blocks i) \<union> set (bft_blocks i))"
    by (simp add: i(1) collision_free_def)
  have ne: "bft_blocks i \<noteq> []" by (simp add: i(1))
  have at: "fat_pointer_to_block_at_height (bft_blocks i) (fat_pointer_to_tip i) 1 = Some sample_certificate"
    by (simp add: i fat_pointer_to_block_at_height_def)
  have "bft_blocks i = take (unat (1 :: u64)) (bft_blocks i)"
    by (rule tip_commits_to_history[OF sample_padding reach' reach' free ne at]) (simp add: i(2))
  with i(1) at show ?thesis by (intro exI[of _ i] conjI)
qed

text \<open>A block is known to the state if one of the published non-finalized chains or the finalized state has it.\<close>

definition state_knows :: "('o, 'u) StateService \<Rightarrow> bytes \<Rightarrow> bool" where
  "state_knows s x \<longleftrightarrow> (\<exists>c\<in>set (chain_iter (published s)). Chain_height_by_hash c x \<noteq> None) \<or>
     db_height (db (published s)) x \<noteq> None"

lemma find_side_chain_None: "find_side_chain cs x = None \<longleftrightarrow> (\<forall>c\<in>set cs. Chain_height_by_hash c x = None)"
  by (induction cs) (auto split: option.splits)

lemma height_from_hash_state:
  "\<exists>h. block_height_from_hash (state_call k find_tx) x s = Some (h, s) \<and> (h = None \<longleftrightarrow> \<not> state_knows s x)"
proof -
  let ?nf = "non_finalized_state_contains_block_hash (chain_iter (published s)) x"
  and ?f = "finalized_state_contains_block_hash (db (published s)) x"
  have "?nf = None \<longleftrightarrow> (\<forall>c\<in>set (chain_iter (published s)). Chain_height_by_hash c x = None)"
    by (cases "chain_iter (published s)")
      (auto simp: non_finalized_state_contains_block_hash_def find_side_chain_None split: option.splits)
  moreover have "?f = None \<longleftrightarrow> db_height (db (published s)) x = None"
    by (auto simp: finalized_state_contains_block_hash_def split: option.splits)
  ultimately have "or_else ?nf ?f = None \<longleftrightarrow> \<not> state_knows s x"
    by (cases ?nf) (auto simp: state_knows_def or_else_def)
  then show ?thesis
    by (auto simp: block_height_from_hash_def state_call_read read_request_defs split: option.splits)
qed

text \<open>C6: The verdict on a payload of the engine, in every case. What cannot be read, or does not extend the
  current tip, is Fail. Of the rest, a block without headers makes the validation panic; otherwise the verdict
  is Pass if the state knows the block of its first header, in any chain, and Indeterminate if it does not.
  There is no other panic.\<close>

theorem validation_verdicts:
  "closure_validate_proposed_block K (state_call k find_tx) i payload s =
    (case BftBlock_zcash_deserialize payload of
       Inl _ \<Rightarrow> Some (Fail, s)
     | Inr (b, _) \<Rightarrow>
         if points_at_block_hash (previous_block_fat_ptr b) \<noteq> points_at_block_hash (fat_pointer_to_tip i) then Some (Fail, s)
         else if headers b = [] then None
         else Some (if \<exists>x. Header_hash (header_sha256d K) (hd (headers b)) = Some x \<and> state_knows s x
                    then Pass else Indeterminate, s))"
proof (cases "BftBlock_zcash_deserialize payload")
  case (Inr p)
  then obtain b rest where p: "BftBlock_zcash_deserialize payload = Inr (b, rest)" by (cases p) auto
  note defs = closure_validate_proposed_block_def p validate_bft_block_from_malachite_def first_header_hash_def
  show ?thesis
  proof (cases "headers b")
    case (Cons h hs)
    then have "wf_header h" using bft_block_codec.ser_de[OF p] by (simp add: wf_bft_block_def)
    from Header_serialize_total[OF this] obtain x where x: "Header_hash (header_sha256d K) h = Some x"
      by (auto simp: Header_hash_def)
    obtain g where "block_height_from_hash (state_call k find_tx) x s = Some (g, s)" "g = None \<longleftrightarrow> \<not> state_knows s x"
      using height_from_hash_state by blast
    then show ?thesis using Cons x by (cases g) (auto simp: defs)
  qed (auto simp: defs)
qed (simp add: closure_validate_proposed_block_def)

text \<open>C5: The sequence of blocks from a start hash to a final block, or to the tip, is complete: on an idle state
  service the loop over chunks of hashes ends, and gives every block of the best chain in between, with its height
  and its contents, in order and without repetition; if the final block is below the start it gives nothing.\<close>

theorem block_sequence_complete:
  assumes "service_view k s bc" and "linked bc" and "position bc x = Some n" and "m < length bc"
    and "fin = Some (ht m, fst (bc ! m)) \<or> fin = None \<and> m = length bc - 1"
  shows "tfl_block_sequence (state_call k find_tx) x fin incl extra s =
    Some ((map (\<lambda>j. (ht j, fst (bc ! j))) [if incl then n else Suc n..<Suc m],
      if extra then map (\<lambda>j. Some (snd (bc ! j))) [if incl then n else Suc n..<Suc m] else []), s)"
  by (rule backend.block_sequence_view[OF assms(1-3,5,4) refl])

theorem block_sequence_complete_witness:
  "tfl_block_sequence (state_call empty_checks (\<lambda>_ _. None)) (replicate 32 10) None False False (sample_service []) =
    Some (([(ht 4, replicate 32 12)], []), sample_service [])"
  using block_sequence_complete[OF sample_service_view sample_linked sample_bc_position, of 4 None "\<lambda>_ _. None" False False "[]"]
  by (simp add: sample_bc_def sample_fc_def sample_block_def upt_rec)

text \<open>C7: A query for the finality of a block is answered from the best chain: above the final block it is not yet
  finalized, at or below it it is finalized exactly when it is the block of the best chain at that height, and
  otherwise it cannot be. The final block is the latest one decided or set, and without one the block at the
  reorganization limit below the tip.\<close>

theorem finality_query_answers_best_chain:
  assumes "service_view k s bc" and "bc \<noteq> []" and "on_chain bc (latest_final_block i)"
  shows "tfl_service_incoming_request out (state_call k find_tx) (BlockFinalityStatus h x) i s =
      Some (Inr (BlockFinalityStatusIs (Some
        (if final_position i bc < height_nat h then NotYetFinalized
         else if x = fst (bc ! height_nat h) then Finalized else CantBeFinalized))), i, s) \<and>
    tfl_service_incoming_request out (state_call k find_tx) FinalBlockHeightHash i s =
      Some (Inr (FinalBlockHeightHashIs (Some (ht (final_position i bc), fst (bc ! final_position i bc)))), i, s) \<and>
    final_position i bc < length bc"
  using backend.block_finality_view[OF assms, of find_tx] backend.final_block_view(1)[OF assms]
    backend.final_block_view(2)[OF assms, of find_tx]
  by (simp add: tfl_service_incoming_request_def)

theorem finality_query_answers_best_chain_witness:
  "tfl_service_incoming_request \<lparr>parse_from_cmd = (\<lambda>_. Inl []), mempool = (\<lambda>_ w. Some (None, w))\<rparr>
      (state_call empty_checks (\<lambda>_ _. None)) (BlockFinalityStatus (Height 3) (replicate 32 11)) sample_ahead (sample_service []) =
    Some (Inr (BlockFinalityStatusIs (Some CantBeFinalized)), sample_ahead, sample_service [])"
proof -
  have "height_nat (ht 4) = 4" by (rule height_nat_ht) simp
  then have "on_chain sample_bc (latest_final_block sample_ahead)" "final_position sample_ahead sample_bc = 4" "sample_bc \<noteq> []"
    "fst (sample_bc ! 3) = replicate 32 10"
    by (simp_all add: on_chain_def final_position_def sample_ahead_def sample_bc_def sample_fc_def sample_block_def)
  with finality_query_answers_best_chain[OF sample_service_view[of "[]"] this(3,1),
      where out = "\<lparr>parse_from_cmd = (\<lambda>_. Inl []), mempool = (\<lambda>_ w. Some (None, w))\<rparr>" and find_tx = "\<lambda>_ _. None"
        and h = "Height 3" and x = "replicate 32 11"]
  show ?thesis by simp
qed


text \<open>C4: A node proposes the headers of the last three blocks of its best chain, on top of the current BFT tip, when the
  block three below the tip is above the latest final block, and nothing otherwise. It validates its own proposal,
  which certified extends the BFT chain. The header that is finalized is the first of the three, so the new
  final block has two blocks above it, one fewer than the confirmation depth of three.\<close>

theorem proposal_extends_tip:
  assumes "service_view k s bc" and "length bc = Suc t" and "bft_chain K (bft_blocks i) (fat_pointer_to_tip i)"
    and "Header_hash (header_sha256d K) (block_header_field (snd (bc ! (t - 2)))) = Some (fst (bc ! (t - 2)))"
    and "bft_blocks i = [] \<or> points_at_block_hash (fat_pointer_to_tip i) \<noteq> replicate 32 0" and "Suc (length (bft_blocks i)) < 2 ^ 32"
  shows "if 3 \<le> t \<and> (\<forall>h x. latest_final_block i = Some (h, x) \<longrightarrow> height_nat h < t - 3)
    then \<exists>b. propose_new_bft_block K (state_call k find_tx) i s = Some (Some b, s) \<and>
        headers b = map (\<lambda>j. block_header_field (snd (bc ! j))) [t - 2, t - 1, t] \<and>
        validate_bft_block_from_malachite K (state_call k find_tx) i b s = Some (Pass, s) \<and>
        (\<forall>fp. blake3_hash (bft_hashers K) b = Some (points_at_block_hash fp) \<and> validate_signatures (batch_verify K) fp \<longrightarrow>
          extends_bft_chain K i b fp) \<and>
        first_header_hash K b = Some (fst (bc ! (t - 2))) \<and> length bc - Suc (t - 2) < unat (bc_confirmation_depth_sigma PROTOTYPE_PARAMETERS)
    else propose_new_bft_block K (state_call k find_tx) i s = Some (None, s)"
proof -
  let ?b = "\<lparr>bft_version = 1, bft_height = of_nat (length (bft_blocks i)) + 1, previous_block_fat_ptr = fat_pointer_to_tip i,
    finalization_candidate_height = 0, headers = map (\<lambda>j. block_header_field (snd (bc ! j))) [t - 2, t - 1, t]\<rparr>"
  have "bft_blocks i \<noteq> [] \<longrightarrow> blake3_hash (bft_hashers K) (last (bft_blocks i)) \<noteq> None"
    using assms(3) by (auto simp: bft_chain_def last_conv_nth)
  note propose = backend.propose_view[OF assms(1,2) this, of find_tx]
  have x: "first_header_hash K ?b = Some (fst (bc ! (t - 2)))" using assms(4) by (simp add: first_header_hash_def)
  have "position bc (fst (bc ! (t - 2))) = Some (t - 2)"
    using backend.view_list[OF assms(1)] assms(2) by (simp add: position_Some_iff)
  from backend.validate_pass[OF assms(1) this x, of i find_tx]
  have "validate_bft_block_from_malachite K (state_call k find_tx) i ?b s = Some (Pass, s)" by simp
  moreover have "extends_bft_chain K i ?b fp"
    if "blake3_hash (bft_hashers K) ?b = Some (points_at_block_hash fp)" "validate_signatures (batch_verify K) fp" for fp
    using that assms(3,5,6) by (simp add: extends_bft_chain_def add.commute)
  ultimately show ?thesis
    unfolding propose using x assms(2) by (auto simp: PROTOTYPE_PARAMETERS_def intro!: exI[of _ ?b])
qed

theorem proposal_extends_tip_witness:
  "\<exists>b. propose_new_bft_block (sample_crypto\<lparr>header_sha256d := (\<lambda>c. replicate 32 2)\<rparr>) (state_call empty_checks (\<lambda>_ _. None))
      sample_internal (sample_service []) = Some (Some b, sample_service []) \<and> length (headers b) = 3"
proof -
  let ?K = "sample_crypto\<lparr>header_sha256d := (\<lambda>c. replicate 32 2)\<rparr>"
  have i: "bft_blocks sample_internal = []" "latest_final_block sample_internal = None"
    by (simp_all add: sample_internal_def spawn_new_tfl_service_def)
  have "block_header_field (snd (sample_bc ! 2)) = (sample_header 5 FatPointer_null)\<lparr>previous_block_hash := replicate 32 1\<rparr>"
    "fst (sample_bc ! 2) = replicate 32 2" by (simp_all add: sample_bc_def sample_fc_def sample_block_def)
  moreover have "wf_header ((sample_header 5 FatPointer_null)\<lparr>previous_block_hash := replicate 32 1\<rparr>)"
    using wf_sample_header(2) by (simp add: wf_header_def)
  ultimately have "Header_hash (header_sha256d ?K) (block_header_field (snd (sample_bc ! (4 - 2)))) = Some (fst (sample_bc ! (4 - 2)))"
    using Header_serialize_total by (fastforce simp: Header_hash_def)
  from proposal_extends_tip[OF sample_service_view[of "[]"] _ _ this, of sample_internal "\<lambda>_ _. None"] i
    spawned_chain[of ?K True sample_keys Config_default]
  show ?thesis by (auto simp: sample_bc_def sample_fc_def sample_internal_def)
qed

end
