(* ===== verification/Spec2Isabelle.thy ===== *)
theory Spec2Isabelle
  imports Crosslink_Prelude Amount Value_Balance Wire_Format Height Fat_Pointer Block_Header Bft_Block
    Roster Read_State Difficulty Chain_Set Write_Task Queued_Blocks State_Service Tfl_Service
begin

text \<open>
  Zebra is a Zcash node; this repository adds Crosslink, a finality layer. Proof-of-work blocks arrive as before
  and form competing chains. A BFT engine among \<^emph>\<open>finalizers\<close> decides BFT blocks, each of which carries a few
  proof-of-work headers; deciding one makes the block of its first header final, in the state of every node. Holders
  of stake are the finalizers: each final proof-of-work block pays them a reward and may carry a command that moves
  stake. The development models this path from the bytes of a BFT block to the finalized state, and the theories
  below follow it from the bottom up.

  \<^bold>\<open>The parts and how they interact.\<close> The trailing finality service
  (\<^verbatim>\<open>zebra-crosslink\<close>) is called by the engine to propose, validate and take in decided blocks. It asks the state
  service (\<^verbatim>\<open>zebra-state/src/service.rs\<close>) for hashes, headers and blocks of the best chain and orders it to finalize
  a block. The state service answers reads from the published copy of the state, queues blocks whose parent is
  unknown, and sends everything that writes to one task (\<^verbatim>\<open>service/write.rs\<close>), which owns the non-finalized chains and
  the finalized state. All of them use the data types of \<^verbatim>\<open>zebra-chain\<close>.

  \<^bold>\<open>Conventions.\<close>
  \<^item> A panic is \<open>None\<close>; the Cargo profiles abort on a panic, so no later state exists. \<^verbatim>\<open>Result<T, E>\<close> is the sum
    \<open>'e + 'a\<close> with \<^verbatim>\<open>Err\<close> on the left, and a function that can do both has type \<open>('e + 'a) option\<close>.
  \<^item> \<^verbatim>\<open>u8\<close>, \<^verbatim>\<open>u16\<close>, \<^verbatim>\<open>u32\<close> and \<^verbatim>\<open>u64\<close> are words of their width; arithmetic that the code leaves unchecked wraps, as it
    does in a release build, and \<^verbatim>\<open>debug_assert\<close> has no effect. Checked arithmetic is on integers with the range written out.
  \<^item> Structures are records and enumerations datatypes with the constructors of the source. Fixed-size arrays are byte
    lists whose length is part of a \<open>wf_\<dots>\<close> predicate. A time is its whole seconds; the wire format has no more.
  \<^item> State is passed explicitly. Calls from the finality service to the state go through one argument
    \<open>call\<close> from a request and a world to an answer and a world, so that what other tasks do between calls is visible.
  \<^item> Code outside the repository is an argument: the hash functions, Ed25519 verification, the Equihash verifier, the
    generator of keys, the engine's order on keys, the mempool, the parser of command strings, the storage errors.

  \<^bold>\<open>Data types (zebra-chain/src).\<close>
  \<^item> \<^verbatim>\<open>Crosslink_Prelude\<close>: words, bytes, little-endian integers, lifting of lists, shared lemmas.
  \<^item> \<^verbatim>\<open>Amount\<close> (\<^verbatim>\<open>amount.rs\<close>) and \<^verbatim>\<open>Value_Balance\<close> (\<^verbatim>\<open>value_balance.rs\<close>): constrained amounts and the five
    value pools. Arithmetic is exact or names the exact error; no pool of a chain becomes negative; negated changes undo
    changes (locale \<open>invertible_ledger\<close>).
  \<^item> \<^verbatim>\<open>Wire_Format\<close> (\<^verbatim>\<open>serialization/\<close>): primitive reads, CompactSize, vectors. Locales \<open>codec\<close>, \<open>canonical_codec\<close> and
    \<open>canonical_vec\<close> state that a reader accepts exactly what its writer produces; every format below interprets them.
  \<^item> \<^verbatim>\<open>Height\<close> (\<^verbatim>\<open>block/height.rs\<close>): heights and their \<^verbatim>\<open>i64\<close> differences, shown exact.
  \<^item> \<^verbatim>\<open>Fat_Pointer\<close> (\<^verbatim>\<open>block/header.rs\<close>, \<^verbatim>\<open>zebra-crosslink/src/lib.rs\<close>): votes and fat pointers, the certificates of
    BFT blocks; their formats, and what \<^verbatim>\<open>validate_signatures\<close> accepts.
  \<^item> \<^verbatim>\<open>Block_Header\<close> (\<^verbatim>\<open>block/header.rs\<close>, \<^verbatim>\<open>block/serialize.rs\<close>, \<^verbatim>\<open>block/hash.rs\<close>, \<^verbatim>\<open>work/equihash.rs\<close>): headers, with a
    fat pointer from version 5 on, and their wire format.
  \<^item> \<^verbatim>\<open>Difficulty\<close> (\<^verbatim>\<open>work/difficulty.rs\<close>): compact and expanded difficulties and work, against their numeric meaning.

  \<^bold>\<open>The finality layer (zebra-crosslink/src).\<close>
  \<^item> \<^verbatim>\<open>Bft_Block\<close> (\<^verbatim>\<open>chain.rs\<close>): BFT blocks, their format and hash. \<open>collision_free\<close> is the only assumption on the hash
    that a theorem needs, and it is made for a named finite set of blocks.
  \<^item> \<^verbatim>\<open>Roster\<close> (\<^verbatim>\<open>lib.rs\<close>): staking commands \<^verbatim>\<open>update_roster_for_cmd\<close>, the reward for one final block and
    \<^verbatim>\<open>tenderlink_roster_from_internal\<close>. Commands refine operations on a table from keys to stakes; what they and the reward do
    to the total is stated through \<open>bounded_supply\<close>, with the bound \<^verbatim>\<open>2^64\<close> explicit wherever the sum may wrap.
  \<^item> \<^verbatim>\<open>Tfl_Service\<close> (\<^verbatim>\<open>lib.rs\<close>, \<^verbatim>\<open>service.rs\<close>; requests of \<^verbatim>\<open>zebra-state/src/crosslink.rs\<close>): \<^verbatim>\<open>propose_new_bft_block\<close>,
    \<^verbatim>\<open>validate_bft_block_from_malachite\<close>, \<^verbatim>\<open>new_decided_bft_block_from_malachite\<close>, block sequences, finality queries, the
    request handler, start-up. The main results: a decided block finalizes its block and settles each newly final
    block once; the decided blocks of every reachable service form a certified hash chain that only grows, and a tip
    determines the history behind it; what is proposed, and which verdict a proposal gets in every case.

  \<^bold>\<open>The state (zebra-state/src).\<close>
  \<^item> \<^verbatim>\<open>Read_State\<close> (\<^verbatim>\<open>service/read/find.rs\<close>, \<^verbatim>\<open>service/read/block.rs\<close>): reads of the best chain. \<open>chain_view\<close> relates a
    state to the list of blocks readers see; every read is shown to answer from that list (locale \<open>chain_service\<close>).
  \<^item> \<^verbatim>\<open>Chain_Set\<close> (\<^verbatim>\<open>service/non_finalized_state.rs\<close>, \<^verbatim>\<open>non_finalized_state/chain.rs\<close>): the chains in memory, forks, commits,
    finalization of the root, Crosslink finalization, invalidated blocks, with the well-formedness each operation keeps.
  \<^item> \<^verbatim>\<open>Write_Task\<close> (\<^verbatim>\<open>service/write.rs\<close>, \<^verbatim>\<open>finalized_state.rs\<close>, \<^verbatim>\<open>zebra_db/block.rs\<close>, \<^verbatim>\<open>block_iter.rs\<close>, \<^verbatim>\<open>check.rs\<close>): each message
    as a transition, \<open>task_step\<close> as the step relation; the finalized chain is append-only in every run.
  \<^item> \<^verbatim>\<open>Queued_Blocks\<close> (\<^verbatim>\<open>service/queued_blocks.rs\<close>): waiting blocks and sent hashes, safe under any sequence of operations.
  \<^item> \<^verbatim>\<open>State_Service\<close> (\<^verbatim>\<open>service.rs\<close>): request handlers, queues, channels and answers. The locale \<open>finality_backend\<close>
    is what the finality service needs of the state; \<open>state_call\<close> is shown to provide it, so the theorems of
    \<^verbatim>\<open>Tfl_Service\<close> hold for the modelled state service and not only for an assumed one.

  \<^bold>\<open>Termination and bounds.\<close> Most loops are structural recursion or have a termination measure; the search for children
  in \<open>send_ready\<close>, for example, ends because each round takes blocks out of the queue. Two loops depend on what they
  call and are a \<open>partial_function\<close>, where not returning is \<open>None\<close>: the loop over chunks of hashes in
  \<^verbatim>\<open>tfl_block_sequence\<close>, proved to return in \<open>block_sequence_complete\<close>, and the finalization past the reorganisation
  limit, proved to return in \<open>commit_keeps_task_invariant\<close>. A caller of the state that waits for its result lets the
  write task take at most \<open>pending_messages\<close> steps; each step takes one message, and its own is the last of them.

  \<^bold>\<open>Flaws that the theorems record.\<close> A decided block may move finality back; a roster whose stakes add up to a
  multiple of \<^verbatim>\<open>2^64\<close> makes the reward panic; a decided or proposed block without headers panics; invalidating the
  lowest block stops the write task; a reconsidered block's height stays refused; pruning forgets too little, of queued
  blocks with siblings and of sent hashes out of height order.

  \<^bold>\<open>Not modelled.\<close>
  \<^item> Transactions, scripts, shielded protocols, history trees, and the checks over them: the write task takes their
    verdict, and that of the difficulty adjustment, as parameters (record \<open>Checks\<close>).
  \<^item> RocksDB and the disk formats: of the database, the four block indexes that the modelled code reads and writes.
  \<^item> The network, RPC, consensus verification, the mempool and the application: asynchronous services around this core.
  \<^item> The visualiser, test formats, console output, metrics and logging. Of the state service, pending UTXO requests,
    block proposals, shutdown, and the result that the write task itself sends for a checkpoint verified block.
  \<^item> Interleaving is at the granularity of handlers and messages: a handler runs to its end before the next one. An
    answer that a step sends before it panics is lost with the step. The checks that the code runs in parallel with the
    push of a block come before it.
\<close>

end
